(* ===== verification/Prelude.thy ===== *)
theory Prelude imports Main "HOL-Library.Multiset" "HOL-Library.Word" begin

text \<open>
  Shared vocabulary of the development: the outcome type of code that can panic, labelled
  transition systems given by an executable step function, their runs and reachable states, and
  the two proof rules (invariant, stable predicate) every concurrent component uses.  Lists and
  multisets get the few lemmas that the queue proofs share.
\<close>

section \<open>Machine integers and panics\<close>

type_synonym usize = "64 word"
type_synonym u64 = "64 word"
type_synonym i32 = "32 word"

text \<open>
  The ways the code of this crate can panic.  A computation that may panic returns a value of
  \<open>panic + 'a\<close>.
\<close>

datatype panic =
    AssertFailed        \<comment> \<open>\<open>assert!\<close> or \<open>debug_assert!\<close>\<close>
  | UnwrapNone          \<comment> \<open>\<open>Option::unwrap\<close> on \<open>None\<close>\<close>
  | ExplicitPanic       \<comment> \<open>\<open>panic!()\<close>\<close>
  | ArithOverflow       \<comment> \<open>integer overflow with overflow checks on\<close>
  | UseAfterFree        \<comment> \<open>access through a pointer to a freed node (undefined behaviour)\<close>

definition bindE :: "'e + 'a \<Rightarrow> ('a \<Rightarrow> 'e + 'b) \<Rightarrow> 'e + 'b" where
  "bindE r f = (case r of Inl e \<Rightarrow> Inl e | Inr a \<Rightarrow> f a)"

lemma bindE_simps [simp]: "bindE (Inl e) f = Inl e" "bindE (Inr a) f = f a"
  by (simp_all add: bindE_def)

lemma bindE_Inr_iff: "bindE r f = Inr b \<longleftrightarrow> (\<exists>a. r = Inr a \<and> f a = Inr b)"
  by (cases r) auto

section \<open>Executable transition systems\<close>

text \<open>
  A concurrent component is a state and a step function: given the label of a step (which thread
  moves, what the environment decides), the next state, or \<^term>\<open>None\<close> when that step is not
  enabled.  Every interleaving is a list of labels.
\<close>

fun exec :: "('s \<Rightarrow> 'l \<Rightarrow> 's option) \<Rightarrow> 's \<Rightarrow> 'l list \<Rightarrow> 's option" where
  "exec f s [] = Some s"
| "exec f s (l # ls) = (case f s l of None \<Rightarrow> None | Some t \<Rightarrow> exec f t ls)"

definition reaches :: "('s \<Rightarrow> 'l \<Rightarrow> 's option) \<Rightarrow> 's \<Rightarrow> 's \<Rightarrow> bool" where
  "reaches f s t \<longleftrightarrow> (\<exists>ls. exec f s ls = Some t)"

lemma exec_append:
  "exec f s (ls @ ms) = (case exec f s ls of None \<Rightarrow> None | Some t \<Rightarrow> exec f t ms)"
  by (induction ls arbitrary: s) (auto split: option.splits)

lemma reachesI: "exec f s ls = Some t \<Longrightarrow> reaches f s t"
  by (auto simp: reaches_def)

lemma reaches_refl [simp, intro]: "reaches f s s"
  by (rule reachesI [of _ _ "[]"]) simp

lemma reaches_step: "reaches f s t \<Longrightarrow> f t l = Some u \<Longrightarrow> reaches f s u"
proof -
  assume "reaches f s t" and u: "f t l = Some u"
  then obtain ls where "exec f s ls = Some t" by (auto simp: reaches_def)
  with u have "exec f s (ls @ [l]) = Some u" by (simp add: exec_append)
  then show ?thesis by (rule reachesI)
qed

lemma reaches_exec: "reaches f s t \<Longrightarrow> exec f t ls = Some u \<Longrightarrow> reaches f s u"
  by (induction ls arbitrary: t) (auto split: option.splits dest: reaches_step)

text \<open>
  Concrete runs: \<open>run_ok f s ls P\<close> evaluates (with \<open>code_simp\<close>) to whether the run \<open>ls\<close> is possible and
  ends in a state with \<open>P\<close>.
\<close>

definition run_ok :: "('s \<Rightarrow> 'l \<Rightarrow> 's option) \<Rightarrow> 's \<Rightarrow> 'l list \<Rightarrow> ('s \<Rightarrow> bool) \<Rightarrow> bool" where
  "run_ok f s ls P \<longleftrightarrow> (case exec f s ls of None \<Rightarrow> False | Some t \<Rightarrow> P t)"

lemma run_ok_exec: "run_ok f s ls P \<Longrightarrow> \<exists>t. exec f s ls = Some t \<and> P t"
  by (auto simp: run_ok_def split: option.splits)

lemma run_ok_reaches: "run_ok f s ls P \<Longrightarrow> \<exists>t. reaches f s t \<and> P t"
  by (auto dest: run_ok_exec reachesI)

text \<open>A system restricted to labels with a property, and its runs.\<close>

definition guarded :: "('l \<Rightarrow> bool) \<Rightarrow> ('s \<Rightarrow> 'l \<Rightarrow> 's option) \<Rightarrow> 's \<Rightarrow> 'l \<Rightarrow> 's option" where
  "guarded P f s l = (if P l then f s l else None)"

lemma guardedD: "guarded P f s l = Some t \<Longrightarrow> P l \<and> f s l = Some t"
  by (simp add: guarded_def split: if_splits)

lemma exec_guarded: "list_all P ls \<Longrightarrow> exec (guarded P f) s ls = exec f s ls"
  by (induction ls arbitrary: s) (auto simp: guarded_def split: option.splits)

text \<open>A system restricted to the steps that a discipline, which may look at the state, allows.\<close>

definition restrict_lts :: "('s \<Rightarrow> 'l \<Rightarrow> bool) \<Rightarrow> ('s \<Rightarrow> 'l \<Rightarrow> 's option) \<Rightarrow> 's \<Rightarrow> 'l \<Rightarrow> 's option" where
  "restrict_lts G f s l = (if G s l then f s l else None)"

lemma restrict_ltsD: "restrict_lts G f s l = Some t \<Longrightarrow> G s l \<and> f s l = Some t"
  by (simp add: restrict_lts_def split: if_splits)

text \<open>
  An invariant of a transition system: it holds initially and every step keeps it.  The second
  contract is a predicate that, once it holds, no step destroys; the third adds a natural number
  that every step of a given kind decreases.
\<close>

locale lts_invariant =
  fixes nxt :: "'s \<Rightarrow> 'l \<Rightarrow> 's option" and init :: 's and Inv :: "'s \<Rightarrow> bool"
  assumes inv_init: "Inv init"
    and inv_step: "Inv s \<Longrightarrow> nxt s l = Some t \<Longrightarrow> Inv t"
begin

lemma inv_exec: "Inv s \<Longrightarrow> exec nxt s ls = Some t \<Longrightarrow> Inv t"
  by (induction ls arbitrary: s) (auto split: option.splits intro: inv_step)

lemma inv_reaches: "reaches nxt init s \<Longrightarrow> Inv s"
  using inv_init inv_exec by (auto simp: reaches_def)

end

locale lts_stable = lts_invariant +
  fixes Stable :: "'s \<Rightarrow> bool"
  assumes stable_step: "Inv s \<Longrightarrow> Stable s \<Longrightarrow> nxt s l = Some t \<Longrightarrow> Stable t"
begin

lemma stable_exec: "Inv s \<Longrightarrow> Stable s \<Longrightarrow> exec nxt s ls = Some t \<Longrightarrow> Stable t"
proof (induction ls arbitrary: s)
  case Nil
  then show ?case by simp
next
  case (Cons l ls)
  then show ?case
    by (auto split: option.splits intro: inv_step stable_step)
qed

lemma stable_reaches: "reaches nxt init s \<Longrightarrow> Stable s \<Longrightarrow> exec nxt s ls = Some t \<Longrightarrow> Stable t"
  using inv_reaches stable_exec by blast

end

section \<open>Threads\<close>

text \<open>One thread moves: some thread is still at a given point, or is there now.\<close>

lemma ex_upd: "y = x \<or> f t \<noteq> x \<and> (\<exists>v. f v = x) \<Longrightarrow> \<exists>v. (f(t := y)) v = x"
  by (metis fun_upd_other fun_upd_same)

section \<open>Lists\<close>

text \<open>
  Operations in progress are kept in a list; a step replaces or removes the one at an index.
\<close>

definition remove_nth :: "nat \<Rightarrow> 'a list \<Rightarrow> 'a list" where
  "remove_nth i xs = take i xs @ drop (Suc i) xs"

lemma remove_nth_simps [simp]:
  "remove_nth i [] = []"
  "remove_nth 0 (x # xs) = xs"
  "remove_nth (Suc i) (x # xs) = x # remove_nth i xs"
  by (simp_all add: remove_nth_def)

lemma mset_remove_nth: "i < length xs \<Longrightarrow> mset (remove_nth i xs) = mset xs - {# xs ! i #}"
  by (induction xs arbitrary: i) (auto simp: less_Suc_eq_0_disj)

lemma set_remove_nth: "set (remove_nth i xs) \<subseteq> set xs"
  using set_take_subset [of i xs] set_drop_subset [of "Suc i" xs] by (auto simp: remove_nth_def)

lemma mset_nth_remove: "i < length xs \<Longrightarrow> mset xs = add_mset (xs ! i) (mset (remove_nth i xs))"
  by (simp add: mset_remove_nth)

lemma mset_concat_remove_nth:
  "i < length xs \<Longrightarrow> mset (concat xs) = mset (xs ! i) + mset (concat (remove_nth i xs))"
  by (induction xs arbitrary: i) (auto simp: less_Suc_eq_0_disj)

lemma mset_concat_update:
  "i < length xs \<Longrightarrow> mset (concat xs) + mset y = mset (xs ! i) + mset (concat (xs[i := y]))"
  by (induction xs arbitrary: i) (auto simp: less_Suc_eq_0_disj)

lemma map_remove_nth: "map f (remove_nth i xs) = remove_nth i (map f xs)"
  by (simp add: remove_nth_def take_map drop_map)

lemma mset_list_update: "i < length xs \<Longrightarrow> mset (xs[i := x]) = add_mset x (mset xs - {# xs ! i #})"
  by (simp add: mset_update)

end
