(* ===== verification/BTreeMaps.thy ===== *)
theory BTreeMaps imports Prelude begin

text \<open>
  \<open>std::collections::BTreeMap\<close> as the crate uses it: an association list with strictly increasing
  keys.  Iteration in key order is the list itself, lookup is \<^const>\<open>map_of\<close>.
\<close>

type_synonym ('k, 'v) btree = "('k \<times> 'v) list"

definition bt_ok :: "('k::linorder, 'v) btree \<Rightarrow> bool" where
  "bt_ok m \<longleftrightarrow> sorted_wrt (<) (map fst m)"

abbreviation bt_get :: "('k::linorder, 'v) btree \<Rightarrow> 'k \<Rightarrow> 'v option" where
  "bt_get \<equiv> map_of"

definition bt_contains_key :: "('k::linorder, 'v) btree \<Rightarrow> 'k \<Rightarrow> bool" where
  "bt_contains_key m k \<longleftrightarrow> bt_get m k \<noteq> None"

fun bt_insert :: "'k::linorder \<Rightarrow> 'v \<Rightarrow> ('k, 'v) btree \<Rightarrow> ('k, 'v) btree" where
  "bt_insert k v [] = [(k, v)]"
| "bt_insert k v ((k', v') # m) =
     (if k < k' then (k, v) # (k', v') # m
      else if k = k' then (k, v) # m
      else (k', v') # bt_insert k v m)"

definition bt_remove :: "'k::linorder \<Rightarrow> ('k, 'v) btree \<Rightarrow> ('k, 'v) btree" where
  "bt_remove k m = filter (\<lambda>kv. fst kv \<noteq> k) m"

text \<open>Mutation of a stored value through a reference to it.\<close>

definition bt_update :: "'k::linorder \<Rightarrow> ('v \<Rightarrow> 'v) \<Rightarrow> ('k, 'v) btree \<Rightarrow> ('k, 'v) btree" where
  "bt_update k f m = map (\<lambda>(k', v). (k', if k' = k then f v else v)) m"

section \<open>Well-formedness\<close>

lemma bt_ok_Nil [simp]: "bt_ok []"
  by (simp add: bt_ok_def)

lemma bt_ok_Cons: "bt_ok ((k, v) # m) \<longleftrightarrow> (\<forall>k' \<in> fst ` set m. k < k') \<and> bt_ok m"
  by (auto simp: bt_ok_def)

lemma bt_ok_distinct: "bt_ok m \<Longrightarrow> distinct (map fst m)"
  by (simp add: bt_ok_def strict_sorted_iff)

lemma keys_insert [simp]: "fst ` set (bt_insert k v m) = insert k (fst ` set m)"
  by (induction k v m rule: bt_insert.induct) auto

lemma bt_ok_insert [simp]: "bt_ok m \<Longrightarrow> bt_ok (bt_insert k v m)"
proof (induction k v m rule: bt_insert.induct)
  case (1 k v)
  then show ?case by (simp add: bt_ok_def)
next
  case (2 k v k' v' m)
  then show ?case by (auto simp: bt_ok_Cons)
qed

lemma keys_remove [simp]: "fst ` set (bt_remove k m) = fst ` set m - {k}"
  by (auto simp: bt_remove_def)

lemma bt_ok_remove [simp]: "bt_ok m \<Longrightarrow> bt_ok (bt_remove k m)"
  by (induction m) (auto simp: bt_remove_def bt_ok_Cons)

lemma keys_update [simp]: "map fst (bt_update k f m) = map fst m"
  by (auto simp: bt_update_def)

lemma bt_ok_update [simp]: "bt_ok (bt_update k f m) \<longleftrightarrow> bt_ok m"
  by (simp add: bt_ok_def)

section \<open>Lookups\<close>

lemma bt_get_insert [simp]: "bt_ok m \<Longrightarrow> bt_get (bt_insert k v m) = (bt_get m)(k \<mapsto> v)"
proof (induction k v m rule: bt_insert.induct)
  case (1 k v)
  then show ?case by simp
next
  case (2 k v k' v' m)
  then have "bt_get m k = None" if "k < k'"
    using that by (auto simp: bt_ok_Cons map_of_eq_None_iff)
  with 2 show ?case by (auto simp: bt_ok_Cons fun_upd_twist)
qed

lemma bt_get_remove [simp]: "bt_get (bt_remove k m) = (bt_get m)(k := None)"
  by (induction m) (auto simp: bt_remove_def)

lemma bt_get_update [simp]: "bt_get (bt_update k f m) k' = (if k' = k then map_option f (bt_get m k) else bt_get m k')"
  by (induction m) (auto simp: bt_update_def)

lemma bt_contains_key_iff: "bt_contains_key m k \<longleftrightarrow> k \<in> fst ` set m"
  by (auto simp: bt_contains_key_def map_of_eq_None_iff)

lemma bt_contains_insert [simp]:
  "bt_contains_key (bt_insert k v m) k' \<longleftrightarrow> k' = k \<or> bt_contains_key m k'"
  by (auto simp: bt_contains_key_iff)

lemma bt_contains_update [simp]: "bt_contains_key (bt_update k f m) k' \<longleftrightarrow> bt_contains_key m k'"
  by (simp add: bt_contains_key_iff flip: set_map)

lemma bt_ok_mem_get: "bt_ok m \<Longrightarrow> (k, v) \<in> set m \<longleftrightarrow> bt_get m k = Some v"
  using bt_ok_distinct [of m] by (auto simp: map_of_is_SomeI intro: map_of_SomeD)

text \<open>Inserting a fresh key splits the map at its place; so does updating a key that is present.\<close>

lemma bt_insert_split:
  "bt_ok m \<Longrightarrow> k \<notin> fst ` set m \<Longrightarrow>
     \<exists>xs ys. m = xs @ ys \<and> bt_insert k v m = xs @ (k, v) # ys \<and>
       (\<forall>a \<in> fst ` set xs. a < k) \<and> (\<forall>a \<in> fst ` set ys. k < a)"
proof (induction k v m rule: bt_insert.induct)
  case (1 k v)
  then show ?case by simp
next
  case (2 k v k' v' m)
  show ?case
  proof (cases "k < k'")
    case True
    with 2 have "\<forall>a \<in> fst ` set m. k < a" by (auto simp: bt_ok_Cons)
    with True show ?thesis by (intro exI [of _ "[]"] exI [of _ "(k', v') # m"]) auto
  next
    case False
    with 2 have "k' < k" "k \<notin> fst ` set m" "bt_ok m" by (auto simp: bt_ok_Cons)
    with 2 False obtain xs ys where "m = xs @ ys" "bt_insert k v m = xs @ (k, v) # ys"
      "\<forall>a \<in> fst ` set xs. a < k" "\<forall>a \<in> fst ` set ys. k < a" by blast
    with \<open>k' < k\<close> show ?thesis by (intro exI [of _ "(k', v') # xs"] exI [of _ ys]) auto
  qed
qed

lemma bt_update_split:
  assumes "bt_ok m" "bt_get m k = Some v"
  shows "\<exists>xs ys. m = xs @ (k, v) # ys \<and> bt_update k f m = xs @ (k, f v) # ys \<and>
       (\<forall>a \<in> fst ` set xs. a < k) \<and> (\<forall>a \<in> fst ` set ys. k < a)"
proof -
  from assms(2) have "(k, v) \<in> set m" by (rule map_of_SomeD)
  then obtain xs ys where m: "m = xs @ (k, v) # ys" by (auto dest: split_list)
  have less: "(\<forall>a \<in> fst ` set xs. a < k) \<and> (\<forall>a \<in> fst ` set ys. k < a)"
    using assms(1) by (auto simp: m bt_ok_def sorted_wrt_append)
  have same: "map (\<lambda>(k', v). (k', if k' = k then f v else v)) zs = zs" if "k \<notin> fst ` set zs" for zs
    using that by (induction zs) auto
  have "k \<notin> fst ` set xs" "k \<notin> fst ` set ys" using less by auto
  with m less show ?thesis by (intro exI [of _ xs] exI [of _ ys]) (simp add: bt_update_def same)
qed

lemma bt_update_absent: "k \<notin> fst ` set m \<Longrightarrow> bt_update k f m = m"
  by (induction m) (auto simp: bt_update_def)

lemma bt_update_Cons: "bt_update k f ((k', v) # m) = (k', if k' = k then f v else v) # bt_update k f m"
  by (simp add: bt_update_def)

lemma bt_insert_over:
  "bt_ok m \<Longrightarrow> bt_get m p = Some q \<Longrightarrow> bt_insert p v m = bt_update p (\<lambda>_. v) m"
proof (induction p v m rule: bt_insert.induct)
  case (2 k v k' v' m)
  consider "k = k'" | "k \<noteq> k'" "k' < k"
    using 2(2,3) by (force simp: bt_ok_Cons dest: map_of_SomeD)
  then show ?case
  proof cases
    case 1
    with 2(2) have "k' \<notin> fst ` set m" by (auto simp: bt_ok_Cons)
    with 1 show ?thesis by (simp add: bt_update_Cons bt_update_absent)
  next
    case 2
    with "2.IH" "2.prems" show ?thesis by (auto simp: bt_ok_Cons bt_update_Cons)
  qed
qed simp

end
