(* ===== verification/Interfaces.thy ===== *)
theory Interfaces imports Prelude begin

text \<open>
  The third-party types the crate is built on, as interfaces.  \<open>crossbeam::queue::SegQueue\<close> and
  \<open>event_listener::Event\<close> are not part of this repository: the model takes their operations as an
  argument (a record of functions) and states what their documentation promises as the assumptions
  of a locale.  Every theorem about code that uses them carries the locale predicate as a named
  hypothesis.
\<close>

section \<open>SegQueue\<close>

text \<open>
  \<open>SegQueue\<close> is an unbounded multi-producer multi-consumer queue: \<open>push\<close> adds at the back,
  \<open>pop\<close> removes from the front and returns \<^term>\<open>None\<close> when the queue is empty.  Each call
  takes effect atomically.  \<open>contents\<close> is the abstraction: the queued elements, front first.
\<close>

record ('q, 'a) segq =
  sq_new :: 'q
  sq_push :: "'q \<Rightarrow> 'a \<Rightarrow> 'q"
  sq_pop :: "'q \<Rightarrow> 'a option \<times> 'q"
  sq_is_empty :: "'q \<Rightarrow> bool"

locale seg_queue =
  fixes Q :: "('q, 'a) segq" and contents :: "'q \<Rightarrow> 'a list"
  assumes contents_new: "contents (sq_new Q) = []"
    and contents_push: "contents (sq_push Q s a) = contents s @ [a]"
    and pop_result: "fst (sq_pop Q s) = (case contents s of [] \<Rightarrow> None | a # _ \<Rightarrow> Some a)"
    and contents_pop: "contents (snd (sq_pop Q s)) = tl (contents s)"
    and is_empty_iff: "sq_is_empty Q s \<longleftrightarrow> contents s = []"
begin

lemma pop_None: "sq_pop Q s = (None, s') \<longleftrightarrow> contents s = [] \<and> s' = snd (sq_pop Q s)"
  using pop_result [of s] by (cases "sq_pop Q s") (auto split: list.splits)

lemma pop_NoneD: "sq_pop Q s = (None, s') \<Longrightarrow> contents s = [] \<and> contents s' = []"
  using pop_result [of s] contents_pop [of s] by (auto split: list.splits)

lemma pop_SomeD: "sq_pop Q s = (Some a, s') \<Longrightarrow> contents s = a # contents s'"
  using pop_result [of s] contents_pop [of s] by (auto split: list.splits)

lemma pop_empty: "contents s = [] \<Longrightarrow> fst (sq_pop Q s) = None"
  using pop_result [of s] by simp

lemma pop_cons: "contents s = a # as \<Longrightarrow> fst (sq_pop Q s) = Some a \<and> contents (snd (sq_pop Q s)) = as"
  using pop_result [of s] contents_pop [of s] by simp

end

text \<open>
  The interface is satisfiable: plain lists implement it.  The witnesses of the properties run the
  model on this instance.
\<close>

definition list_segq :: "('a list, 'a) segq" where
  "list_segq = \<lparr>sq_new = [], sq_push = (\<lambda>s a. s @ [a]),
     sq_pop = (\<lambda>s. case s of [] \<Rightarrow> (None, []) | a # as \<Rightarrow> (Some a, as)),
     sq_is_empty = (\<lambda>s. s = [])\<rparr>"

lemma list_segq_simps [simp]:
  "sq_new list_segq = []"
  "sq_push list_segq s a = s @ [a]"
  "sq_pop list_segq [] = (None, [])"
  "sq_pop list_segq (a # as) = (Some a, as)"
  "sq_is_empty list_segq s \<longleftrightarrow> s = []"
  by (simp_all add: list_segq_def)

lemma seg_queue_list: "seg_queue list_segq id"
  by unfold_locales (auto simp: list_segq_def split: list.splits)

interpretation lsq: seg_queue list_segq id
  by (rule seg_queue_list)

section \<open>Event and EventListener\<close>

text \<open>
  \<open>Event::listen\<close> registers a listener; \<open>Event::notify(n)\<close> makes sure that at least \<open>n\<close> of the
  registered listeners (all of them when there are fewer) are notified; \<open>EventListener::wait\<close>
  blocks until its listener is notified and then removes it.  \<open>ev_notified\<close> says that \<open>wait\<close>
  would return, \<open>ev_consume\<close> is the removal.  \<open>active\<close> is the abstraction: the registered listeners.
\<close>

record ('e, 'l) event_ops =
  ev_new :: 'e
  ev_listen :: "'e \<Rightarrow> 'l \<times> 'e"
  ev_notify :: "'e \<Rightarrow> nat \<Rightarrow> 'e"
  ev_notified :: "'e \<Rightarrow> 'l \<Rightarrow> bool"
  ev_consume :: "'e \<Rightarrow> 'l \<Rightarrow> 'e"

locale event =
  fixes E :: "('e, 'l) event_ops" and active :: "'e \<Rightarrow> 'l set"
  assumes active_new: "active (ev_new E) = {}"
    and listen_fresh: "fst (ev_listen E e) \<notin> active e"
    and active_listen: "active (snd (ev_listen E e)) = insert (fst (ev_listen E e)) (active e)"
    and active_notify: "active (ev_notify E e n) = active e"
    and active_consume: "active (ev_consume E e l) = active e - {l}"
    and notified_stays: "l \<in> active e \<Longrightarrow> ev_notified E e l \<Longrightarrow> ev_notified E (ev_notify E e n) l"
    and notify_wakes: "active e = {l} \<Longrightarrow> 0 < n \<Longrightarrow> ev_notified E (ev_notify E e n) l"
begin

lemma listen_alone:
  "ev_listen E e = (l, e') \<Longrightarrow> active e = {} \<Longrightarrow> active e' = {l}"
  using active_listen [of e] by simp

end

text \<open>
  An instance: the registered listeners and the notified ones; a notification reaches every
  registered listener, which the contract of \<open>notify\<close> (\<open>at least n\<close>) allows.
\<close>

definition list_event :: "(nat list \<times> nat list, nat) event_ops" where
  "list_event = \<lparr>ev_new = ([], []),
     ev_listen = (\<lambda>(ls, ns). (Suc (sum_list ls), (ls @ [Suc (sum_list ls)], ns))),
     ev_notify = (\<lambda>(ls, ns) k. (ls, if k = 0 then ns else ls)),
     ev_notified = (\<lambda>(ls, ns) l. l \<in> set ns),
     ev_consume = (\<lambda>(ls, ns) l. (removeAll l ls, removeAll l ns))\<rparr>"

lemma list_event_simps [simp]:
  "ev_new list_event = ([], [])"
  "ev_listen list_event (ls, ns) = (Suc (sum_list ls), (ls @ [Suc (sum_list ls)], ns))"
  "ev_notify list_event (ls, ns) k = (ls, if k = 0 then ns else ls)"
  "ev_notified list_event (ls, ns) l \<longleftrightarrow> l \<in> set ns"
  "ev_consume list_event (ls, ns) l = (removeAll l ls, removeAll l ns)"
  by (simp_all add: list_event_def)

definition list_event_active :: "nat list \<times> nat list \<Rightarrow> nat set" where
  "list_event_active e = set (fst e)"

lemma event_list: "event list_event list_event_active"
proof
  show "fst (ev_listen list_event e) \<notin> list_event_active e" for e
  proof (cases e)
    case (Pair ls ns)
    have "Suc (sum_list ls) \<notin> set ls"
      using member_le_sum_list [of "Suc (sum_list ls)" ls] by auto
    with Pair show ?thesis by (simp add: list_event_active_def)
  qed
qed (auto simp: list_event_def list_event_active_def split: prod.splits)

interpretation lev: event list_event list_event_active
  by (rule event_list)

end
