(* ===== verification/KvMpsc.thy ===== *)
theory KvMpsc imports BTreeMaps Interfaces begin

text \<open>
  \<open>kv_mpsc.rs\<close>: a multi-producer single-consumer channel whose messages carry a key; while a message
  is held by the user its key is in use, and later messages with that key wait.  Every access to a
  shared object (the two queues, the event, the flags) is one step; what the receiver does with its
  own map between two accesses belongs to the step before it.  The two queue types and the event
  are the arguments \<open>Q\<close>, \<open>D\<close> and \<open>E\<close>.
\<close>

section \<open>State\<close>

text \<open>\<open>Channel\<close>; \<open>sent\<close> is history: the messages pushed, in order.\<close>

record ('k, 'v, 'q, 'd, 'e) kchan =
  wake_recv_event :: 'e
  msg_q :: 'q
  drop_key_q :: 'd
  senders_dropped :: bool
  receiver_dropped :: bool
  sent :: "('k \<times> 'v) list"

text \<open>\<open>Receiver\<close>; \<open>delivered\<close> is history: the messages returned by \<open>sync_pop\<close>, in order.\<close>

record ('k, 'v, 'l) kreceiver =
  using_keys :: "('k, ('k \<times> 'v) list) btree"
  event_listener :: "'l option"
  delivered :: "('k \<times> 'v) list"

record ('k, 'v) message =
  msg_v :: 'v
  msg_k :: "'k option"

definition message_new :: "'v \<Rightarrow> 'k \<Rightarrow> ('k, 'v) message" where
  "message_new v k = \<lparr>msg_v = v, msg_k = Some k\<rparr>"

text \<open>Program points of \<open>send\<close> and of the drop of \<open>SenderInner\<close>.\<close>

datatype ('k, 'v) kspc =
    KsIdle
  | KsCheck 'k 'v    \<comment> \<open>before \<open>receiver_dropped.load\<close>\<close>
  | KsPush 'k 'v     \<comment> \<open>before \<open>q.push\<close>\<close>
  | KsNotify         \<comment> \<open>before \<open>notify(1)\<close> of \<open>inner_send\<close>\<close>
  | KsDone bool      \<comment> \<open>returned \<open>Ok(())\<close> or \<open>Err(SendResFail::Closed)\<close>\<close>
  | KsStore          \<comment> \<open>drop of the last sender: before \<open>senders_dropped.store\<close>\<close>
  | KsDropNotify     \<comment> \<open>before the \<open>notify(1)\<close> of that drop\<close>

text \<open>Program points of \<open>sync_pop\<close> and \<open>recv\<close>.\<close>

datatype ('k, 'v, 'l) krpc =
    KIdle
  | KDrop            \<comment> \<open>before \<open>drop_key_q.pop()\<close>\<close>
  | KPop             \<comment> \<open>before \<open>q.pop()\<close>\<close>
  | KQEmpty          \<comment> \<open>before \<open>q.is_empty()\<close>\<close>
  | KDEmpty          \<comment> \<open>before \<open>drop_key_q.is_empty()\<close>\<close>
  | KLoad            \<comment> \<open>no key in use: before \<open>senders_dropped.load\<close>\<close>
  | KTake            \<comment> \<open>before \<open>listener.take()\<close>\<close>
  | KWait 'l         \<comment> \<open>in \<open>l.wait()\<close>\<close>
  | KListen          \<comment> \<open>before \<open>wake_recv_event.listen()\<close>\<close>
  | KRet "('k \<times> 'v) option"  \<comment> \<open>\<open>sync_pop\<close> has returned\<close>
  | KClosed          \<comment> \<open>\<open>recv\<close> returned \<open>Err(RecvResFails::Closed)\<close>\<close>
  | KGone            \<comment> \<open>the receiver was dropped\<close>
  | KPanic

text \<open>
  The system.  \<open>live\<close> are the messages the user holds; \<open>closing\<close> counts the threads inside the drop
  of a message, between its push of the key and its \<open>notify(1)\<close>.
\<close>

record ('k, 'v, 'q, 'd, 'e, 'l) ksys =
  chan :: "('k, 'v, 'q, 'd, 'e) kchan"
  rcv :: "('k, 'v, 'l) kreceiver"
  rpc :: "('k, 'v, 'l) krpc"
  spc :: "nat \<Rightarrow> ('k, 'v) kspc"
  owns :: "nat \<Rightarrow> bool"
  strong :: nat
  live :: "('k, 'v) message list"
  closing :: nat
  drop_panic :: bool

definition kchan_new :: "('q, 'k \<times> 'v) segq \<Rightarrow> ('d, 'k) segq \<Rightarrow> ('e, 'l) event_ops \<Rightarrow>
    ('k, 'v, 'q, 'd, 'e) kchan" where
  "kchan_new Q D E = \<lparr>wake_recv_event = ev_new E, msg_q = sq_new Q, drop_key_q = sq_new D,
     senders_dropped = False, receiver_dropped = False, sent = []\<rparr>"

definition kreceiver_new :: "('e, 'l) event_ops \<Rightarrow> ('k, 'v, 'q, 'd, 'e) kchan \<Rightarrow>
    ('k, 'v, 'l) kreceiver \<times> ('k, 'v, 'q, 'd, 'e) kchan" where
  "kreceiver_new E c = (case ev_listen E (wake_recv_event c) of (l, e) \<Rightarrow>
     (\<lparr>using_keys = [], event_listener = Some l, delivered = []\<rparr>, c\<lparr>wake_recv_event := e\<rparr>))"

definition channel :: "('q, 'k \<times> 'v) segq \<Rightarrow> ('d, 'k) segq \<Rightarrow> ('e, 'l) event_ops \<Rightarrow>
    ('k, 'v, 'q, 'd, 'e, 'l) ksys" where
  "channel Q D E = (case kreceiver_new E (kchan_new Q D E) of (r, c) \<Rightarrow>
     \<lparr>chan = c, rcv = r, rpc = KIdle, spc = (\<lambda>_. KsIdle), owns = (\<lambda>t. t = 0), strong = 1,
      live = [], closing = 0, drop_panic = False\<rparr>)"

section \<open>Steps of a sender\<close>

fun ksend_step :: "('q, 'k \<times> 'v) segq \<Rightarrow> ('e, 'l) event_ops \<Rightarrow> ('k, 'v) kspc \<Rightarrow> ('k, 'v, 'q, 'd, 'e) kchan \<Rightarrow>
    (('k, 'v) kspc \<times> ('k, 'v, 'q, 'd, 'e) kchan) option" where
  "ksend_step Q E (KsCheck k v) c = Some (if receiver_dropped c then KsDone False else KsPush k v, c)"
| "ksend_step Q E (KsPush k v) c =
     Some (KsNotify, c\<lparr>msg_q := sq_push Q (msg_q c) (k, v), sent := sent c @ [(k, v)]\<rparr>)"
| "ksend_step Q E KsNotify c =
     Some (KsDone True, c\<lparr>wake_recv_event := ev_notify E (wake_recv_event c) 1\<rparr>)"
| "ksend_step Q E KsStore c = Some (KsDropNotify, c\<lparr>senders_dropped := True\<rparr>)"
| "ksend_step Q E KsDropNotify c =
     Some (KsIdle, c\<lparr>wake_recv_event := ev_notify E (wake_recv_event c) 1\<rparr>)"
| "ksend_step Q E KsIdle c = None"
| "ksend_step Q E (KsDone b) c = None"

section \<open>Steps of the receiver\<close>

text \<open>What the loop does with a key taken out of \<open>drop_key_q\<close>, and with a message taken out of \<open>q\<close>.\<close>

definition release_key :: "'k::linorder \<Rightarrow> ('k, 'v, 'l) kreceiver \<Rightarrow>
    ('k, 'v, 'l) krpc \<times> ('k, 'v, 'l) kreceiver" where
  "release_key k r = (case bt_get (using_keys r) k of
     None \<Rightarrow> (KPanic, r)
   | Some (m # ms) \<Rightarrow>
       (KRet (Some m), r\<lparr>using_keys := bt_update k (\<lambda>_. ms) (using_keys r), delivered := delivered r @ [m]\<rparr>)
   | Some [] \<Rightarrow> (KDrop, r\<lparr>using_keys := bt_remove k (using_keys r)\<rparr>))"

text \<open>
  The test of the key is one lookup: the \<open>assert!\<close> that the \<open>insert\<close> of the other branch finds no entry cannot
  fail, since the lookup just before found none and nothing ran in between.
\<close>

definition accept_msg :: "'k::linorder \<Rightarrow> 'v \<Rightarrow> ('k, 'v, 'l) kreceiver \<Rightarrow>
    ('k, 'v, 'l) krpc \<times> ('k, 'v, 'l) kreceiver" where
  "accept_msg k v r = (case bt_get (using_keys r) k of
     Some w \<Rightarrow> (KDrop, r\<lparr>using_keys := bt_update k (\<lambda>w. w @ [(k, v)]) (using_keys r)\<rparr>)
   | None \<Rightarrow>
       (KRet (Some (k, v)), r\<lparr>using_keys := bt_insert k [] (using_keys r), delivered := delivered r @ [(k, v)]\<rparr>))"

fun sync_pop_step :: "('q, 'k \<times> 'v) segq \<Rightarrow> ('d, 'k::linorder) segq \<Rightarrow> ('e, 'l) event_ops \<Rightarrow>
    ('k, 'v, 'l) krpc \<Rightarrow> ('k, 'v, 'q, 'd, 'e) kchan \<Rightarrow> ('k, 'v, 'l) kreceiver \<Rightarrow>
    (('k, 'v, 'l) krpc \<times> ('k, 'v, 'q, 'd, 'e) kchan \<times> ('k, 'v, 'l) kreceiver) option" where
  "sync_pop_step Q D E KDrop c r =
     (case sq_pop D (drop_key_q c) of
        (None, d) \<Rightarrow> Some (KPop, c\<lparr>drop_key_q := d\<rparr>, r)
      | (Some k, d) \<Rightarrow> (case release_key k r of (pc, r') \<Rightarrow> Some (pc, c\<lparr>drop_key_q := d\<rparr>, r')))"
| "sync_pop_step Q D E KPop c r =
     (case sq_pop Q (msg_q c) of
        (None, d) \<Rightarrow> Some (KQEmpty, c\<lparr>msg_q := d\<rparr>, r)
      | (Some (k, v), d) \<Rightarrow> (case accept_msg k v r of (pc, r') \<Rightarrow> Some (pc, c\<lparr>msg_q := d\<rparr>, r')))"
| "sync_pop_step Q D E KQEmpty c r = Some (if sq_is_empty Q (msg_q c) then KDEmpty else KDrop, c, r)"
| "sync_pop_step Q D E KDEmpty c r =
     Some (if \<not> sq_is_empty D (drop_key_q c) then KDrop
           else if using_keys r = [] then KLoad else KTake, c, r)"
| "sync_pop_step Q D E KLoad c r = Some (if senders_dropped c then KRet None else KTake, c, r)"
| "sync_pop_step Q D E KTake c r =
     (case event_listener r of
        None \<Rightarrow> Some (KPanic, c, r)
      | Some l \<Rightarrow> Some (KWait l, c, r\<lparr>event_listener := None\<rparr>))"
| "sync_pop_step Q D E (KWait l) c r =
     (if ev_notified E (wake_recv_event c) l
      then Some (KListen, c\<lparr>wake_recv_event := ev_consume E (wake_recv_event c) l\<rparr>, r) else None)"
| "sync_pop_step Q D E KListen c r =
     (case ev_listen E (wake_recv_event c) of (l, e) \<Rightarrow>
        Some (KDrop, c\<lparr>wake_recv_event := e\<rparr>, r\<lparr>event_listener := Some l\<rparr>))"
| "sync_pop_step Q D E KIdle c r = None"
| "sync_pop_step Q D E (KRet m) c r = None"
| "sync_pop_step Q D E KClosed c r = None"
| "sync_pop_step Q D E KGone c r = None"
| "sync_pop_step Q D E KPanic c r = None"

section \<open>The system\<close>

text \<open>
  Labels: clone, drop and send of a sender handle, the next step of a sending thread; start of
  \<open>recv\<close>, the next step of the receiver, its drop; the drop of the \<open>i\<close>-th live message (its push of the
  key) and the \<open>notify(1)\<close> that ends such a drop.
\<close>

datatype ('k, 'v) klabel =
    KlClone nat nat
  | KlDropTx nat
  | KlSend nat 'k 'v
  | KlTx nat
  | KlRecv
  | KlRx
  | KlDropRx
  | KlDropMsg nat
  | KlNotify

definition kfree :: "('k, 'v) kspc \<Rightarrow> bool" where
  "kfree pc \<longleftrightarrow> (case pc of KsIdle \<Rightarrow> True | KsDone _ \<Rightarrow> True | _ \<Rightarrow> False)"

definition krfree :: "('k, 'v, 'l) krpc \<Rightarrow> bool" where
  "krfree pc \<longleftrightarrow> (case pc of KIdle \<Rightarrow> True | KClosed \<Rightarrow> True | _ \<Rightarrow> False)"

fun ksys_next :: "('q, 'k \<times> 'v) segq \<Rightarrow> ('d, 'k::linorder) segq \<Rightarrow> ('e, 'l) event_ops \<Rightarrow>
    ('k, 'v, 'q, 'd, 'e, 'l) ksys \<Rightarrow> ('k, 'v) klabel \<Rightarrow> ('k, 'v, 'q, 'd, 'e, 'l) ksys option" where
  "ksys_next Q D E s (KlClone t u) =
     (if owns s t \<and> kfree (spc s t) \<and> \<not> owns s u \<and> kfree (spc s u)
      then Some (s\<lparr>owns := (owns s)(u := True), strong := Suc (strong s)\<rparr>) else None)"
| "ksys_next Q D E s (KlDropTx t) =
     (if owns s t \<and> kfree (spc s t)
      then Some (s\<lparr>owns := (owns s)(t := False), strong := strong s - 1,
        spc := (spc s)(t := if strong s = 1 then KsStore else KsIdle)\<rparr>) else None)"
| "ksys_next Q D E s (KlSend t k v) =
     (if owns s t \<and> kfree (spc s t) then Some (s\<lparr>spc := (spc s)(t := KsCheck k v)\<rparr>) else None)"
| "ksys_next Q D E s (KlTx t) =
     (case ksend_step Q E (spc s t) (chan s) of
        None \<Rightarrow> None
      | Some (pc, c) \<Rightarrow> Some (s\<lparr>chan := c, spc := (spc s)(t := pc)\<rparr>))"
| "ksys_next Q D E s KlRecv = (if krfree (rpc s) then Some (s\<lparr>rpc := KDrop\<rparr>) else None)"
| "ksys_next Q D E s KlRx =
     (case rpc s of
        KRet None \<Rightarrow> Some (s\<lparr>rpc := KClosed\<rparr>)
      | KRet (Some (k, v)) \<Rightarrow> Some (s\<lparr>rpc := KIdle, live := live s @ [message_new v k]\<rparr>)
      | _ \<Rightarrow> (case sync_pop_step Q D E (rpc s) (chan s) (rcv s) of
               None \<Rightarrow> None
             | Some (pc, c, r) \<Rightarrow> Some (s\<lparr>chan := c, rcv := r, rpc := pc\<rparr>)))"
| "ksys_next Q D E s KlDropRx =
     (if krfree (rpc s) then Some (s\<lparr>chan := (chan s)\<lparr>receiver_dropped := True\<rparr>, rpc := KGone\<rparr>) else None)"
| "ksys_next Q D E s (KlDropMsg i) =
     (if i < length (live s) then
        (case msg_k (live s ! i) of
           None \<Rightarrow> Some (s\<lparr>live := remove_nth i (live s), drop_panic := True\<rparr>)
         | Some k \<Rightarrow> Some (s\<lparr>chan := (chan s)\<lparr>drop_key_q := sq_push D (drop_key_q (chan s)) k\<rparr>,
             live := remove_nth i (live s), closing := Suc (closing s)\<rparr>))
      else None)"
| "ksys_next Q D E s KlNotify =
     (if closing s = 0 then None
      else Some (s\<lparr>chan := (chan s)\<lparr>wake_recv_event := ev_notify E (wake_recv_event (chan s)) 1\<rparr>,
        closing := closing s - 1\<rparr>))"

end
