(* ===== verification/KvMpscProofs.thy ===== *)
theory KvMpscProofs imports KvMpsc begin

text \<open>
  Correctness of the keyed channel of \<open>kv_mpsc.rs\<close>: a key is held by at most one live message, the
  messages of a key are delivered in the order they were sent and none is lost, no operation
  panics, the receiver never sleeps while there is something to do, and the closing answers of
  \<open>send\<close> and \<open>recv\<close> mean what they say.
\<close>

section \<open>Keys in use\<close>

text \<open>
  The keys of \<open>using_keys\<close> are exactly the keys of the live messages, of the message being returned and
  of the releases still queued, each once.
\<close>

fun ret_keys :: "('k, 'v, 'l) krpc \<Rightarrow> 'k list" where
  "ret_keys (KRet (Some m)) = [fst m]"
| "ret_keys _ = []"

definition live_keys :: "('k, 'v, 'q, 'd, 'e, 'l) ksys \<Rightarrow> 'k list" where
  "live_keys s = map (the \<circ> msg_k) (live s)"

definition of_key :: "'k \<Rightarrow> ('k \<times> 'v) list \<Rightarrow> ('k \<times> 'v) list" where
  "of_key k xs = filter (\<lambda>m. fst m = k) xs"

lemma of_key_simps [simp]:
  "of_key k [] = []"
  "of_key k (xs @ ys) = of_key k xs @ of_key k ys"
  "of_key k (m # xs) = (if fst m = k then m # of_key k xs else of_key k xs)"
  by (simp_all add: of_key_def)

lemma in_of_key: "m \<in> set (of_key k xs) \<Longrightarrow> fst m = k"
  by (auto simp: of_key_def)

definition waiting :: "('k::linorder, 'v list) btree \<Rightarrow> 'k \<Rightarrow> 'v list" where
  "waiting m k = (case bt_get m k of None \<Rightarrow> [] | Some w \<Rightarrow> w)"

definition keys_inv :: "('d \<Rightarrow> 'k::linorder list) \<Rightarrow> ('k, 'v, 'q, 'd, 'e, 'l) ksys \<Rightarrow> bool" where
  "keys_inv dc s \<longleftrightarrow> bt_ok (using_keys (rcv s)) \<and>
     mset (map fst (using_keys (rcv s))) =
       mset (live_keys s) + mset (dc (drop_key_q (chan s))) + mset (ret_keys (rpc s)) \<and>
     (\<forall>m \<in> set (live s). msg_k m \<noteq> None) \<and> \<not> drop_panic s"

definition order_inv :: "('q \<Rightarrow> ('k \<times> 'v) list) \<Rightarrow> ('k::linorder, 'v, 'q, 'd, 'e, 'l) ksys \<Rightarrow> bool" where
  "order_inv qc s \<longleftrightarrow> (\<forall>k. of_key k (sent (chan s)) =
     of_key k (delivered (rcv s)) @ waiting (using_keys (rcv s)) k @ of_key k (qc (msg_q (chan s))))"

lemma order_inv_waiting:
  "order_inv qc s \<Longrightarrow> bt_get (using_keys (rcv s)) k = Some w \<Longrightarrow> m \<in> set w \<Longrightarrow> fst m = k"
  by (rule in_of_key [of _ _ "sent (chan s)"]) (auto simp: order_inv_def waiting_def)

lemma waiting_cases:
  "bt_get m k = Some w \<Longrightarrow> waiting m k = w"
  "bt_get m k = None \<Longrightarrow> waiting m k = []"
  by (simp_all add: waiting_def)

lemma waiting_update [simp]:
  "waiting (bt_update k f m) k' =
    (if k' = k then (case bt_get m k of None \<Rightarrow> [] | Some w \<Rightarrow> f w) else waiting m k')"
  by (auto simp: waiting_def split: option.splits)

lemma waiting_insert [simp]:
  "bt_ok m \<Longrightarrow> waiting (bt_insert k w m) k' = (if k' = k then w else waiting m k')"
  by (auto simp: waiting_def)

lemma waiting_remove [simp]: "waiting (bt_remove k m) k' = (if k' = k then [] else waiting m k')"
  by (auto simp: waiting_def)

lemma mset_keys_insert:
  "bt_ok m \<Longrightarrow> bt_get m k = None \<Longrightarrow> mset (map fst (bt_insert k v m)) = add_mset k (mset (map fst m))"
proof -
  assume "bt_ok m" "bt_get m k = None"
  then obtain xs ys where "m = xs @ ys" "bt_insert k v m = xs @ (k, v) # ys"
    using bt_insert_split [of m k v] by (auto simp: map_of_eq_None_iff)
  then show ?thesis by simp
qed

lemma mset_keys_remove:
  "bt_ok m \<Longrightarrow> bt_get m k = Some v \<Longrightarrow> mset (map fst m) = add_mset k (mset (map fst (bt_remove k m)))"
proof (induction m)
  case (Cons a m)
  show ?case
  proof (cases "fst a = k")
    case True
    with Cons.prems have "k \<notin> fst ` set m" by (cases a) (auto simp: bt_ok_Cons)
    then have "bt_remove k m = m" by (induction m) (auto simp: bt_remove_def)
    with True show ?thesis by (simp add: bt_remove_def)
  next
    case False
    with Cons show ?thesis by (cases a) (auto simp: bt_ok_Cons bt_remove_def)
  qed
qed simp

lemma mset_keys_mem: "x \<in># mset (map fst m) \<Longrightarrow> \<exists>v. bt_get m x = Some v"
  by (auto simp: weak_map_of_SomeI)

text \<open>The two local decisions of the loop keep both invariants.\<close>

lemma release_key_ok:
  assumes "bt_ok (using_keys r)" "bt_get (using_keys r) k = Some w" "\<forall>m \<in> set w. fst m = k"
    and "release_key k r = (pc, r')"
  shows "bt_ok (using_keys r') \<and>
    mset (map fst (using_keys r)) = (if ret_keys pc = [] then {# k #} else {#}) + mset (map fst (using_keys r')) \<and>
    (ret_keys pc = [] \<or> ret_keys pc = [k]) \<and> pc \<noteq> KPanic \<and>
    of_key k' (delivered r') @ waiting (using_keys r') k' = of_key k' (delivered r) @ waiting (using_keys r) k'"
  using assms mset_keys_remove [OF assms(1,2)]
  by (cases w) (auto simp: release_key_def waiting_cases simp del: mset_map)

lemma accept_msg_ok:
  assumes "bt_ok (using_keys r)" "accept_msg k v r = (pc, r')"
  shows "bt_ok (using_keys r') \<and>
    mset (map fst (using_keys r')) = mset (map fst (using_keys r)) + mset (ret_keys pc) \<and> pc \<noteq> KPanic \<and>
    of_key k' (delivered r') @ waiting (using_keys r') k' =
      of_key k' (delivered r) @ waiting (using_keys r) k' @ of_key k' [(k, v)]"
  using assms mset_keys_insert [of "using_keys r" k "[]"]
  by (auto simp: accept_msg_def waiting_cases split: option.splits simp del: mset_map)


section \<open>The invariants of keys and order\<close>

locale kv_ops = mq: seg_queue Q qc + dq: seg_queue D dc + ev: event E act
  for Q :: "('q, 'k::linorder \<times> 'v) segq" and qc :: "'q \<Rightarrow> ('k \<times> 'v) list"
    and D :: "('d, 'k) segq" and dc :: "'d \<Rightarrow> 'k list"
    and E :: "('e, 'l) event_ops" and act :: "'e \<Rightarrow> 'l set"
begin

lemma pop_step_keys:
  assumes k: "keys_inv dc s" and o: "order_inv qc s"
    and st: "sync_pop_step Q D E (rpc s) (chan s) (rcv s) = Some (pc, c, r)"
  shows "keys_inv dc (s\<lparr>chan := c, rcv := r, rpc := pc\<rparr>) \<and> order_inv qc (s\<lparr>chan := c, rcv := r, rpc := pc\<rparr>)"
proof (cases "rpc s")
  case KDrop
  obtain x d where pop: "sq_pop D (drop_key_q (chan s)) = (x, d)" by force
  show ?thesis
  proof (cases x)
    case None
    with pop have "dc (drop_key_q (chan s)) = []" "dc d = []" by (auto dest: dq.pop_NoneD)
    with None pop KDrop st k o show ?thesis by (auto simp: keys_inv_def order_inv_def live_keys_def)
  next
    case (Some y)
    with pop have y: "dc (drop_key_q (chan s)) = y # dc d" by (auto dest: dq.pop_SomeD)
    with k have "y \<in># mset (map fst (using_keys (rcv s)))" by (simp add: keys_inv_def)
    then obtain w where w: "bt_get (using_keys (rcv s)) y = Some w" by (blast dest: mset_keys_mem)
    obtain pc' r' where rel: "release_key y (rcv s) = (pc', r')" by force
    have ok: "bt_ok (using_keys (rcv s))" using k by (simp add: keys_inv_def)
    have "\<forall>m \<in> set w. fst m = y" using order_inv_waiting [OF o w] by blast
    note rk = release_key_ok [OF ok w this rel]
    have "pc = pc'" "r = r'" "c = (chan s)\<lparr>drop_key_q := d\<rparr>"
      using KDrop Some pop rel st by auto
    with rk y k o KDrop show ?thesis
      by (auto simp: keys_inv_def order_inv_def live_keys_def simp del: append_assoc
          simp flip: append_assoc split: if_splits)
  qed
next
  case KPop
  obtain x d where pop: "sq_pop Q (msg_q (chan s)) = (x, d)" by force
  show ?thesis
  proof (cases x)
    case None
    with pop have "qc (msg_q (chan s)) = []" "qc d = []" by (auto dest: mq.pop_NoneD)
    with None pop KPop st k o show ?thesis by (auto simp: keys_inv_def order_inv_def live_keys_def)
  next
    case (Some y)
    obtain a v where a: "y = (a, v)" by force
    with Some pop have y: "qc (msg_q (chan s)) = (a, v) # qc d" by (auto dest: mq.pop_SomeD)
    obtain pc' r' where acc: "accept_msg a v (rcv s) = (pc', r')" by force
    have ok: "bt_ok (using_keys (rcv s))" using k by (simp add: keys_inv_def)
    note am = accept_msg_ok [OF ok acc]
    have "pc = pc'" "r = r'" "c = (chan s)\<lparr>msg_q := d\<rparr>"
      using KPop Some a pop acc st by auto
    with am y k o KPop show ?thesis
      by (auto simp: keys_inv_def order_inv_def live_keys_def)
  qed
qed (use k o st in \<open>auto simp: keys_inv_def order_inv_def live_keys_def split: if_splits option.splits prod.splits\<close>)

lemma live_keys_drop:
  assumes "i < length (live s)" "msg_k (live s ! i) = Some k"
  shows "mset (map (the \<circ> msg_k) (live s)) = add_mset k (mset (map (the \<circ> msg_k) (remove_nth i (live s))))"
proof -
  have "mset (live s) = add_mset (live s ! i) (mset (remove_nth i (live s)))"
    using assms(1) by (simp add: mset_remove_nth)
  then have "image_mset (the \<circ> msg_k) (mset (live s)) =
      add_mset k (image_mset (the \<circ> msg_k) (mset (remove_nth i (live s))))"
    using assms(2) by simp
  then show ?thesis by simp
qed

lemma ksys_rxE:
  assumes "ksys_next Q D E s KlRx = Some s'"
  obtains (ret) m where "rpc s = KRet m"
  | (step) pc c r where "sync_pop_step Q D E (rpc s) (chan s) (rcv s) = Some (pc, c, r)"
      "s' = s\<lparr>chan := c, rcv := r, rpc := pc\<rparr>"
proof (cases "\<exists>m. rpc s = KRet m")
  case False
  with assms obtain pc c r where "sync_pop_step Q D E (rpc s) (chan s) (rcv s) = Some (pc, c, r)"
      "s' = s\<lparr>chan := c, rcv := r, rpc := pc\<rparr>"
    by (cases "rpc s"; cases "sync_pop_step Q D E (rpc s) (chan s) (rcv s)")
      (auto simp del: sync_pop_step.simps)
  then show ?thesis by (rule step)
qed (auto intro: ret)

lemma keys_order_next:
  assumes k: "keys_inv dc s" and o: "order_inv qc s" and st: "ksys_next Q D E s l = Some s'"
  shows "keys_inv dc s' \<and> order_inv qc s'"
proof (cases l)
  case KlRx
  with st have "ksys_next Q D E s KlRx = Some s'" by simp
  then show ?thesis
  proof (cases rule: ksys_rxE)
    case (ret m)
    with KlRx st k o show ?thesis
      by (cases m) (auto simp: keys_inv_def order_inv_def live_keys_def message_new_def)
  next
    case (step pc c r)
    then show ?thesis using pop_step_keys [OF k o] by simp
  qed
next
  case (KlDropMsg i)
  show ?thesis
  proof (cases "i < length (live s)")
    case True
    then have "msg_k (live s ! i) \<noteq> None" using k by (simp add: keys_inv_def)
    then obtain a where a: "msg_k (live s ! i) = Some a" by blast
    with KlDropMsg True st k o live_keys_drop [OF True a] show ?thesis
      using set_remove_nth [of i "live s"]
      by (auto simp: keys_inv_def order_inv_def live_keys_def dq.contents_push)
  qed (use KlDropMsg st in simp)
next
  case (KlTx t)
  with st k o show ?thesis
    by (cases "spc s t") (auto simp: keys_inv_def order_inv_def live_keys_def mq.contents_push)
qed (use st k o in \<open>auto simp: keys_inv_def order_inv_def live_keys_def krfree_def split: if_splits krpc.splits\<close>)

end

section \<open>The listener and the wake-up\<close>

fun handed :: "('k, 'v, 'l) krpc \<Rightarrow> 'l option" where
  "handed (KWait l) = Some l"
| "handed _ = None"

definition the_listener :: "('k, 'v, 'q, 'd, 'e, 'l) ksys \<Rightarrow> 'l option" where
  "the_listener s = (case handed (rpc s) of Some l \<Rightarrow> Some l | None \<Rightarrow> event_listener (rcv s))"

definition listener_inv :: "('e \<Rightarrow> 'l set) \<Rightarrow> ('k, 'v, 'q, 'd, 'e, 'l) ksys \<Rightarrow> bool" where
  "listener_inv act s \<longleftrightarrow> act (wake_recv_event (chan s)) = set_option (the_listener s) \<and>
     (the_listener s = None \<longleftrightarrow> rpc s = KListen) \<and> rpc s \<noteq> KPanic \<and>
     (handed (rpc s) \<noteq> None \<longrightarrow> event_listener (rcv s) = None)"

definition signalled :: "('e, 'l) event_ops \<Rightarrow> ('k, 'v, 'q, 'd, 'e, 'l) ksys \<Rightarrow> bool" where
  "signalled E s \<longleftrightarrow> (\<exists>l. the_listener s = Some l \<and> ev_notified E (wake_recv_event (chan s)) l)"

text \<open>How far the checks before the wait have come.\<close>

fun checks :: "('k, 'v, 'l) krpc \<Rightarrow> nat" where
  "checks KDEmpty = 1"
| "checks KLoad = 2"
| "checks KTake = 3"
| "checks (KWait _) = 3"
| "checks _ = 0"

definition wake_inv :: "('q \<Rightarrow> ('k \<times> 'v) list) \<Rightarrow> ('d \<Rightarrow> 'k list) \<Rightarrow> ('e, 'l) event_ops \<Rightarrow>
    ('k, 'v, 'q, 'd, 'e, 'l) ksys \<Rightarrow> bool" where
  "wake_inv qc dc E s \<longleftrightarrow> signalled E s \<or>
     ((1 \<le> checks (rpc s) \<longrightarrow> qc (msg_q (chan s)) = [] \<or> (\<exists>t. spc s t = KsNotify)) \<and>
      (2 \<le> checks (rpc s) \<longrightarrow> dc (drop_key_q (chan s)) = [] \<or> 0 < closing s) \<and>
      (3 \<le> checks (rpc s) \<longrightarrow> \<not> senders_dropped (chan s) \<or> using_keys (rcv s) \<noteq> [] \<or>
        (\<exists>t. spc s t = KsDropNotify)))"

definition closed_inv :: "('k, 'v, 'q, 'd, 'e, 'l) ksys \<Rightarrow> bool" where
  "closed_inv s \<longleftrightarrow>
     (rpc s = KLoad \<or> rpc s = KRet None \<or> rpc s = KClosed \<longrightarrow> using_keys (rcv s) = []) \<and>
     (rpc s = KRet None \<or> rpc s = KClosed \<longrightarrow> senders_dropped (chan s))"

context kv_ops
begin

lemma notify_signals:
  assumes "listener_inv act s" "rpc s \<noteq> KListen"
  shows "\<exists>l. the_listener s = Some l \<and> ev_notified E (ev_notify E (wake_recv_event (chan s)) 1) l"
proof -
  from assms obtain l where l: "the_listener s = Some l" by (auto simp: listener_inv_def)
  with assms have "act (wake_recv_event (chan s)) = {l}" by (simp add: listener_inv_def)
  with l ev.notify_wakes [of "wake_recv_event (chan s)" l 1] show ?thesis by simp
qed

lemma listener_inv_cong:
  assumes "listener_inv act s" "rpc s \<noteq> KListen" "handed (rpc s) = None"
    and "wake_recv_event (chan s') = wake_recv_event (chan s)" "event_listener (rcv s') = event_listener (rcv s)"
    and "handed (rpc s') = None" "rpc s' \<noteq> KPanic" "rpc s' \<noteq> KListen"
  shows "listener_inv act s'"
  using assms by (simp add: listener_inv_def the_listener_def)

lemma pop_step_other:
  assumes "sync_pop_step Q D E pc c r = Some (pc', c', r')" "pc \<noteq> KListen" "pc \<noteq> KTake" "handed pc = None"
  shows "wake_recv_event c' = wake_recv_event c \<and> event_listener r' = event_listener r \<and>
    handed pc' = None \<and> pc' \<noteq> KListen"
  using assms
  by (cases pc) (auto simp: release_key_def accept_msg_def split: prod.splits option.splits list.splits if_splits)

lemma pop_step_listener:
  assumes li: "listener_inv act s" and st: "sync_pop_step Q D E (rpc s) (chan s) (rcv s) = Some (pc, c, r)"
    and np: "pc \<noteq> KPanic \<or> rpc s = KTake"
  shows "listener_inv act (s\<lparr>chan := c, rcv := r, rpc := pc\<rparr>)"
proof (cases "rpc s")
  case KTake
  then have t: "the_listener s = event_listener (rcv s)" by (simp add: the_listener_def)
  then obtain l where l: "event_listener (rcv s) = Some l" using li KTake by (auto simp: listener_inv_def)
  with KTake st have "pc = KWait l" "c = chan s" "r = (rcv s)\<lparr>event_listener := None\<rparr>" by auto
  with li t l show ?thesis by (simp add: listener_inv_def the_listener_def)
next
  case (KWait l)
  then have t: "the_listener s = Some l" by (simp add: the_listener_def)
  from KWait st have "pc = KListen" "r = rcv s"
    "c = (chan s)\<lparr>wake_recv_event := ev_consume E (wake_recv_event (chan s)) l\<rparr>"
    by (auto split: if_splits)
  with li t KWait show ?thesis by (simp add: listener_inv_def the_listener_def ev.active_consume)
next
  case KListen
  obtain l e where le: "ev_listen E (wake_recv_event (chan s)) = (l, e)" by force
  with KListen st have "pc = KDrop" "c = (chan s)\<lparr>wake_recv_event := e\<rparr>" "r = (rcv s)\<lparr>event_listener := Some l\<rparr>"
    by auto
  moreover have "act (wake_recv_event (chan s)) = {}" using li KListen by (simp add: listener_inv_def)
  ultimately show ?thesis using ev.listen_alone [OF le] by (simp add: listener_inv_def the_listener_def)
qed (use li np pop_step_other [OF st] in \<open>auto intro!: listener_inv_cong [OF li]\<close>)

lemma listener_inv_same:
  assumes "listener_inv act s" "act (wake_recv_event (chan s')) = act (wake_recv_event (chan s))"
    and "rcv s' = rcv s" "rpc s' = rpc s"
  shows "listener_inv act s'"
proof -
  have "the_listener s' = the_listener s" unfolding the_listener_def assms(3,4) by (rule refl)
  with assms show ?thesis by (simp add: listener_inv_def)
qed

lemma pop_step_no_panic:
  assumes k: "keys_inv dc s" and st: "sync_pop_step Q D E (rpc s) (chan s) (rcv s) = Some (pc, c, r)"
    and "rpc s \<noteq> KTake"
  shows "pc \<noteq> KPanic"
proof (cases "rpc s")
  case KDrop
  obtain x d where pop: "sq_pop D (drop_key_q (chan s)) = (x, d)" by force
  show ?thesis
  proof (cases x)
    case (Some y)
    with pop have "dc (drop_key_q (chan s)) = y # dc d" by (auto dest: dq.pop_SomeD)
    with k have "y \<in># mset (map fst (using_keys (rcv s)))" by (simp add: keys_inv_def)
    then obtain w where "bt_get (using_keys (rcv s)) y = Some w" by (blast dest: mset_keys_mem)
    with KDrop Some pop st show ?thesis by (auto simp: release_key_def split: list.splits)
  qed (use KDrop pop st in auto)
qed (use assms in \<open>auto simp: accept_msg_def split: prod.splits option.splits if_splits\<close>)

lemma ksend_step_event:
  "ksend_step Q E pc c = Some (pc', c') \<Longrightarrow> act (wake_recv_event c') = act (wake_recv_event c)"
  by (cases pc) (auto simp: ev.active_notify)

lemma listener_inv_next:
  assumes k: "keys_inv dc s" and li: "listener_inv act s" and st: "ksys_next Q D E s l = Some s'"
  shows "listener_inv act s'"
proof (cases l)
  case KlRx
  with st have "ksys_next Q D E s KlRx = Some s'" by simp
  then show ?thesis
  proof (cases rule: ksys_rxE)
    case (ret m)
    with KlRx st show ?thesis
      by (cases m) (auto intro: listener_inv_cong [OF li])
  next
    case (step pc c r)
    then show ?thesis using pop_step_listener [OF li step(1)] pop_step_no_panic [OF k step(1)] by auto
  qed
next
  case KlRecv
  with st show ?thesis
    by (cases "rpc s") (auto simp: krfree_def intro: listener_inv_cong [OF li])
next
  case KlDropRx
  with st show ?thesis
    by (cases "rpc s") (auto simp: krfree_def intro: listener_inv_cong [OF li])
next
  case (KlTx t)
  with st obtain pc c where c: "ksend_step Q E (spc s t) (chan s) = Some (pc, c)"
    and s': "s' = s\<lparr>chan := c, spc := (spc s)(t := pc)\<rparr>" by (auto split: option.splits)
  from ksend_step_event [OF c] show ?thesis by (intro listener_inv_same [OF li]) (simp_all add: s')
qed (use st in \<open>auto simp: ev.active_notify split: if_splits option.splits intro: listener_inv_same [OF li]\<close>)

text \<open>The steps of the receiver between the last check and the wait keep what has been checked.\<close>

lemma wake_inv_rx:
  assumes li: "listener_inv act s" and wk: "wake_inv qc dc E s" and cl: "closed_inv s"
    and st: "sync_pop_step Q D E (rpc s) (chan s) (rcv s) = Some (pc, c, r)"
  shows "wake_inv qc dc E (s\<lparr>chan := c, rcv := r, rpc := pc\<rparr>)"
proof (cases "checks pc = 0")
  case True
  then show ?thesis by (simp add: wake_inv_def)
next
  case False
  let ?s = "s\<lparr>chan := c, rcv := r, rpc := pc\<rparr>"
  have pc: "rpc s = KQEmpty \<or> rpc s = KDEmpty \<or> rpc s = KLoad \<or> rpc s = KTake"
    using st False
    by (cases "rpc s") (auto simp: release_key_def accept_msg_def split: prod.splits option.splits list.splits if_splits)
  then have c: "c = chan s" and u: "using_keys r = using_keys (rcv s)"
    using st by (auto split: if_splits option.splits)
  have "the_listener ?s = the_listener s"
    using pc st by (auto simp: the_listener_def split: if_splits option.splits)
  then have sg: "signalled E ?s = signalled E s" by (simp add: signalled_def c)
  from pc show ?thesis
  proof (elim disjE)
    assume "rpc s = KQEmpty"
    with st False have "pc = KDEmpty" "qc (msg_q (chan s)) = []" by (auto simp: mq.is_empty_iff split: if_splits)
    then show ?thesis by (simp add: wake_inv_def c)
  next
    assume p: "rpc s = KDEmpty"
    with st False have d: "dc (drop_key_q (chan s)) = []" "pc = (if using_keys (rcv s) = [] then KLoad else KTake)"
      by (auto simp: dq.is_empty_iff split: if_splits)
    from wk p have "signalled E s \<or> qc (msg_q (chan s)) = [] \<or> (\<exists>t. spc s t = KsNotify)" by (simp add: wake_inv_def)
    with d u show ?thesis unfolding wake_inv_def sg by (simp add: c)
  next
    assume p: "rpc s = KLoad"
    with st False have d: "\<not> senders_dropped (chan s)" "pc = KTake" by (auto split: if_splits)
    from wk p have "signalled E s \<or> (qc (msg_q (chan s)) = [] \<or> (\<exists>t. spc s t = KsNotify)) \<and>
      (dc (drop_key_q (chan s)) = [] \<or> 0 < closing s)" by (simp add: wake_inv_def)
    with d show ?thesis unfolding wake_inv_def sg by (simp add: c)
  next
    assume p: "rpc s = KTake"
    with st False obtain l where "pc = KWait l" by (auto split: option.splits)
    with wk p u show ?thesis unfolding wake_inv_def sg by (simp add: c)
  qed
qed

end

lemma pop_step_closed:
  assumes "sync_pop_step Q D E pc c r = Some (pc', c', r')"
  shows "(pc' = KLoad \<longrightarrow> using_keys r' = []) \<and> pc' \<noteq> KClosed \<and> pc' \<noteq> KGone \<and>
    (pc' = KRet None \<longrightarrow> pc = KLoad \<and> senders_dropped c' \<and> r' = r) \<and> receiver_dropped c' = receiver_dropped c \<and>
    senders_dropped c' = senders_dropped c"
  using assms
  by (cases pc) (auto simp: release_key_def accept_msg_def split: prod.splits option.splits list.splits if_splits)

context kv_ops
begin

text \<open>A notification reaches the receiver's listener unless it is just being replaced.\<close>

lemma wake_inv_notified:
  assumes li: "listener_inv act s" and "rcv s' = rcv s" "rpc s' = rpc s"
    and e: "wake_recv_event (chan s') = ev_notify E (wake_recv_event (chan s)) 1"
  shows "wake_inv qc dc E s'"
proof (cases "rpc s = KListen")
  case False
  have "the_listener s' = the_listener s" unfolding the_listener_def assms(2,3) by (rule refl)
  with notify_signals [OF li False] e have "signalled E s'" by (simp add: signalled_def)
  then show ?thesis by (simp add: wake_inv_def)
qed (simp add: wake_inv_def assms)

lemma wake_inv_mono:
  assumes wk: "wake_inv qc dc E s" and same: "rcv s' = rcv s" "rpc s' = rpc s"
    "wake_recv_event (chan s') = wake_recv_event (chan s)"
    and q: "qc (msg_q (chan s)) = [] \<or> (\<exists>t. spc s t = KsNotify) \<Longrightarrow> qc (msg_q (chan s')) = [] \<or> (\<exists>t. spc s' t = KsNotify)"
    and d: "dc (drop_key_q (chan s)) = [] \<or> 0 < closing s \<Longrightarrow> dc (drop_key_q (chan s')) = [] \<or> 0 < closing s'"
    and c: "\<not> senders_dropped (chan s) \<or> (\<exists>t. spc s t = KsDropNotify) \<Longrightarrow>
      \<not> senders_dropped (chan s') \<or> (\<exists>t. spc s' t = KsDropNotify)"
  shows "wake_inv qc dc E s'"
proof -
  have "the_listener s' = the_listener s" unfolding the_listener_def same by (rule refl)
  then have "signalled E s' = signalled E s" by (simp add: signalled_def same)
  with wk q d c show ?thesis unfolding wake_inv_def same by argo
qed

lemma kfree_not_notify: "kfree pc \<Longrightarrow> pc \<noteq> KsNotify \<and> pc \<noteq> KsDropNotify"
  by (auto simp: kfree_def)

lemma ksend_step_other:
  assumes "ksend_step Q E pc c = Some (pc', c')" "\<not> (pc = KsNotify \<or> pc = KsDropNotify)"
  shows "wake_recv_event c' = wake_recv_event c \<and> drop_key_q c' = drop_key_q c \<and>
    (pc' = KsNotify \<or> msg_q c' = msg_q c) \<and> (pc' = KsDropNotify \<or> senders_dropped c' = senders_dropped c)"
  using assms by (cases pc) auto

lemma wake_inv_next:
  assumes li: "listener_inv act s" and wk: "wake_inv qc dc E s" and cl: "closed_inv s"
    and st: "ksys_next Q D E s l = Some s'"
  shows "wake_inv qc dc E s'"
proof (cases l)
  case KlRx
  with st have "ksys_next Q D E s KlRx = Some s'" by simp
  then show ?thesis
  proof (cases rule: ksys_rxE)
    case (ret m)
    with KlRx st show ?thesis by (cases m) (auto simp: wake_inv_def)
  next
    case (step pc c r)
    then show ?thesis using wake_inv_rx [OF li wk cl step(1)] by simp
  qed
next
  case (KlTx t)
  then obtain pc c where c: "ksend_step Q E (spc s t) (chan s) = Some (pc, c)"
    and s': "s' = s\<lparr>chan := c, spc := (spc s)(t := pc)\<rparr>" using st by (auto split: option.splits)
  show ?thesis
  proof (cases "spc s t = KsNotify \<or> spc s t = KsDropNotify")
    case True
    with c s' show ?thesis by (intro wake_inv_notified [OF li]) auto
  next
    case False
    note o = ksend_step_other [OF c False]
    show ?thesis
    proof (rule wake_inv_mono [OF wk])
      assume "qc (msg_q (chan s)) = [] \<or> (\<exists>t. spc s t = KsNotify)"
      then show "qc (msg_q (chan s')) = [] \<or> (\<exists>t. spc s' t = KsNotify)"
        using False o s' ex_upd [of pc KsNotify "spc s" t] by (auto simp del: fun_upd_apply)
    next
      assume "\<not> senders_dropped (chan s) \<or> (\<exists>t. spc s t = KsDropNotify)"
      then show "\<not> senders_dropped (chan s') \<or> (\<exists>t. spc s' t = KsDropNotify)"
        using False o s' ex_upd [of pc KsDropNotify "spc s" t] by (auto simp del: fun_upd_apply)
    qed (use o s' in auto)
  qed
next
  case KlNotify
  with st show ?thesis by (intro wake_inv_notified [OF li]) (auto split: if_splits)
next
  case (KlDropTx t)
  with st have f: "kfree (spc s t)" and s': "s' = s\<lparr>owns := (owns s)(t := False), strong := strong s - 1,
        spc := (spc s)(t := if strong s = 1 then KsStore else KsIdle)\<rparr>" by (auto split: if_splits)
  show ?thesis
    using kfree_not_notify [OF f] ex_upd [of _ _ "spc s" t]
    by (intro wake_inv_mono [OF wk]) (auto simp: s' simp del: fun_upd_apply)
next
  case (KlSend t k v)
  with st have f: "kfree (spc s t)" and s': "s' = s\<lparr>spc := (spc s)(t := KsCheck k v)\<rparr>" by (auto split: if_splits)
  show ?thesis
    using kfree_not_notify [OF f] ex_upd [of _ _ "spc s" t]
    by (intro wake_inv_mono [OF wk]) (auto simp: s' simp del: fun_upd_apply)
next
  case (KlClone t u)
  with st show ?thesis by (auto intro!: wake_inv_mono [OF wk] split: if_splits)
next
  case (KlDropMsg i)
  with st show ?thesis by (auto intro!: wake_inv_mono [OF wk] split: if_splits option.splits)
qed (use st in \<open>auto simp: wake_inv_def split: if_splits\<close>)

lemma closed_inv_mono:
  "closed_inv s \<Longrightarrow> rcv s' = rcv s \<Longrightarrow> rpc s' = rpc s \<Longrightarrow>
    (senders_dropped (chan s) \<Longrightarrow> senders_dropped (chan s')) \<Longrightarrow> closed_inv s'"
  by (simp add: closed_inv_def)

lemma closed_inv_next:
  assumes cl: "closed_inv s" and st: "ksys_next Q D E s l = Some s'"
  shows "closed_inv s'"
proof (cases l)
  case KlRx
  with st have "ksys_next Q D E s KlRx = Some s'" by simp
  then show ?thesis
  proof (cases rule: ksys_rxE)
    case (ret m)
    with KlRx st cl show ?thesis by (cases m) (auto simp: closed_inv_def)
  next
    case (step pc c r)
    with cl pop_step_closed [OF step(1)] show ?thesis by (simp add: closed_inv_def) blast
  qed
next
  case (KlTx t)
  with st obtain pc c where c: "ksend_step Q E (spc s t) (chan s) = Some (pc, c)"
    and s': "s' = s\<lparr>chan := c, spc := (spc s)(t := pc)\<rparr>" by (auto split: option.splits)
  have "senders_dropped (chan s) \<Longrightarrow> senders_dropped c" using c by (cases "spc s t") auto
  then show ?thesis by (intro closed_inv_mono [OF cl]) (simp_all add: s')
next
  case KlRecv
  with st show ?thesis by (auto simp: closed_inv_def split: if_splits)
next
  case KlDropRx
  with st show ?thesis by (auto simp: closed_inv_def split: if_splits)
qed (use st in \<open>auto intro!: closed_inv_mono [OF cl] split: if_splits option.splits\<close>)

end

section \<open>Sender handles\<close>

fun ksending :: "('k, 'v) kspc \<Rightarrow> bool" where
  "ksending (KsCheck _ _) = True"
| "ksending (KsPush _ _) = True"
| "ksending KsNotify = True"
| "ksending _ = False"

definition khandle_inv :: "('k, 'v, 'q, 'd, 'e, 'l) ksys \<Rightarrow> bool" where
  "khandle_inv s \<longleftrightarrow> finite {t. owns s t} \<and> strong s = card {t. owns s t} \<and>
     (senders_dropped (chan s) \<longrightarrow> strong s = 0) \<and>
     (\<forall>t. spc s t = KsStore \<or> spc s t = KsDropNotify \<longrightarrow> strong s = 0) \<and>
     (\<forall>t. ksending (spc s t) \<longrightarrow> owns s t) \<and>
     (\<forall>t. spc s t = KsDone False \<longrightarrow> receiver_dropped (chan s)) \<and>
     (receiver_dropped (chan s) \<longleftrightarrow> rpc s = KGone) \<and>
     (strong s = 0 \<and> \<not> senders_dropped (chan s) \<longrightarrow> (\<exists>t. spc s t = KsStore))"

lemma khandle_strong: "khandle_inv s \<Longrightarrow> owns s t \<Longrightarrow> 0 < strong s"
  by (auto simp: khandle_inv_def card_gt_0_iff)


lemma ksend_step_handle:
  assumes "ksend_step Q E pc c = Some (pc', c')"
  shows "(ksending pc' \<longrightarrow> ksending pc) \<and> pc' \<noteq> KsStore \<and> (pc' = KsDropNotify \<longrightarrow> pc = KsStore) \<and>
    (senders_dropped c' \<longleftrightarrow> senders_dropped c \<or> pc = KsStore) \<and>
    (pc' = KsDone False \<longrightarrow> receiver_dropped c) \<and> receiver_dropped c' = receiver_dropped c"
  using assms by (cases pc) (auto split: if_splits)

lemma kfree_simps: "kfree pc \<Longrightarrow> \<not> ksending pc \<and> pc \<noteq> KsStore \<and> pc \<noteq> KsDropNotify"
  by (cases pc) (auto simp: kfree_def)

lemma khandle_cong:
  assumes "khandle_inv s" "owns s' = owns s" "strong s' = strong s" "spc s' = spc s"
    "senders_dropped (chan s') = senders_dropped (chan s)" "receiver_dropped (chan s') = receiver_dropped (chan s)"
    "rpc s' = KGone \<longleftrightarrow> rpc s = KGone"
  shows "khandle_inv s'"
  using assms(1) unfolding khandle_inv_def assms(2-7) .

lemma khandle_inv_next:
  assumes inv: "khandle_inv s" and st: "ksys_next Q D E s l = Some s'"
  shows "khandle_inv s'"
proof (cases l)
  case (KlTx t)
  with st obtain pc c where ts: "ksend_step Q E (spc s t) (chan s) = Some (pc, c)"
    and s': "s' = s\<lparr>chan := c, spc := (spc s)(t := pc)\<rparr>" by (auto split: option.splits)
  note h = ksend_step_handle [OF ts]
  have z: "strong s = 0" if "spc s v = KsStore \<or> spc s v = KsDropNotify" for v
    using inv that by (auto simp: khandle_inv_def)
  have 1: "strong s = 0" if "spc s' v = KsStore \<or> spc s' v = KsDropNotify" for v
    using that h z [of v] z [of t] s' by (cases "v = t") auto
  have 2: "owns s v" if "ksending (spc s' v)" for v
    using that h inv s' by (cases "v = t") (auto simp: khandle_inv_def)
  have 3: "receiver_dropped (chan s)" if "spc s' v = KsDone False" for v
    using that h inv s' by (cases "v = t") (auto simp: khandle_inv_def)
  have 4: "\<exists>v. spc s' v = KsStore" if n: "strong s = 0" "\<not> senders_dropped c"
  proof -
    from n h inv obtain v where v: "spc s v = KsStore" by (auto simp: khandle_inv_def)
    with n h have "v \<noteq> t" by auto
    with v s' show ?thesis by (intro exI [of _ v]) simp
  qed
  have 5: "strong s = 0" if "senders_dropped c" using that h z [of t] inv by (auto simp: khandle_inv_def)
  show ?thesis
    unfolding khandle_inv_def
    using inv 1 2 3 4 5 h s' by (simp add: khandle_inv_def)
next
  case KlRx
  then show ?thesis
  proof (cases "\<exists>m. rpc s = KRet m")
    case True
    then obtain m where "rpc s = KRet m" by blast
    with KlRx st obtain x y where "s' = s\<lparr>rpc := x, live := y\<rparr> \<and> x \<noteq> KGone \<or> s' = s\<lparr>rpc := x\<rparr> \<and> x \<noteq> KGone"
      by (cases m) auto
    with \<open>rpc s = KRet m\<close> show ?thesis by (intro khandle_cong [OF inv]) auto
  next
    case False
    with KlRx st obtain pc c r where ts: "sync_pop_step Q D E (rpc s) (chan s) (rcv s) = Some (pc, c, r)"
      and s': "s' = s\<lparr>chan := c, rcv := r, rpc := pc\<rparr>"
      by (cases "rpc s"; cases "sync_pop_step Q D E (rpc s) (chan s) (rcv s)")
        (auto simp del: sync_pop_step.simps)
    have "rpc s \<noteq> KGone" using ts by auto
    with pop_step_closed [OF ts] s' show ?thesis by (intro khandle_cong [OF inv]) auto
  qed
next
  case (KlClone t u)
  with st have own: "owns s t" "\<not> owns s u" and s': "s' = s\<lparr>owns := (owns s)(u := True), strong := Suc (strong s)\<rparr>"
    by (auto split: if_splits)
  have set: "{v. ((owns s)(u := True)) v} = insert u {v. owns s v}" by auto
  have "0 < strong s" using khandle_strong [OF inv own(1)] .
  with inv own s' set show ?thesis by (auto simp: khandle_inv_def simp del: fun_upd_apply)
next
  case (KlDropTx t)
  with st have own: "owns s t" "kfree (spc s t)" and s': "s' = s\<lparr>owns := (owns s)(t := False), strong := strong s - 1,
        spc := (spc s)(t := if strong s = 1 then KsStore else KsIdle)\<rparr>"
    by (auto split: if_splits)
  have set: "{v. ((owns s)(t := False)) v} = {v. owns s v} - {t}" by auto
  have "0 < strong s" using khandle_strong [OF inv own(1)] .
  then have fl: "\<not> senders_dropped (chan s)" "\<forall>v. spc s v \<noteq> KsStore \<and> spc s v \<noteq> KsDropNotify"
    using inv by (auto simp: khandle_inv_def)
  have f: "chan s' = chan s" "rpc s' = rpc s" "strong s' = strong s - 1" "owns s' = (owns s)(t := False)"
    "spc s' = (spc s)(t := if strong s = 1 then KsStore else KsIdle)" by (simp_all add: s')
  have "finite {v. owns s' v}" "strong s' = card {v. owns s' v}"
    unfolding f set using inv own by (auto simp: khandle_inv_def)
  moreover have "\<not> senders_dropped (chan s')" using fl f by simp
  moreover have "strong s' = 0" if "spc s' v = KsStore \<or> spc s' v = KsDropNotify" for v
    using that fl f by (cases "v = t") (auto split: if_splits)
  moreover have "owns s' v" if "ksending (spc s' v)" for v
    using that inv f by (cases "v = t") (auto simp: khandle_inv_def split: if_splits)
  moreover have "receiver_dropped (chan s')" if "spc s' v = KsDone False" for v
    using that inv f by (cases "v = t") (auto simp: khandle_inv_def split: if_splits)
  moreover have "\<exists>v. spc s' v = KsStore" if "strong s' = 0"
    using that \<open>0 < strong s\<close> f by (intro exI [of _ t]) simp
  moreover have "receiver_dropped (chan s') \<longleftrightarrow> rpc s' = KGone"
    using inv unfolding khandle_inv_def f by (elim conjE)
  ultimately show ?thesis unfolding khandle_inv_def by blast
next
  case (KlSend t k v)
  with st have own: "owns s t" "kfree (spc s t)" and s': "s' = s\<lparr>spc := (spc s)(t := KsCheck k v)\<rparr>"
    by (auto split: if_splits)
  from khandle_strong [OF inv own(1)] inv own s' kfree_simps [OF own(2)] show ?thesis
    by (auto simp: khandle_inv_def)
next
  case KlRecv
  with st show ?thesis by (cases "rpc s") (auto simp: krfree_def intro!: khandle_cong [OF inv])
next
  case (KlDropMsg i)
  with st show ?thesis by (auto intro!: khandle_cong [OF inv] split: if_splits option.splits)
next
  case KlNotify
  with st show ?thesis by (auto intro!: khandle_cong [OF inv] split: if_splits)
next
  case KlDropRx
  with st have s': "s' = s\<lparr>chan := (chan s)\<lparr>receiver_dropped := True\<rparr>, rpc := KGone\<rparr>" by (auto split: if_splits)
  from inv show ?thesis unfolding khandle_inv_def s' by (elim conjE) (intro conjI; simp)
qed

section \<open>The invariant of the channel\<close>

definition ksys_inv :: "('q \<Rightarrow> ('k::linorder \<times> 'v) list) \<Rightarrow> ('d \<Rightarrow> 'k list) \<Rightarrow> ('e, 'l) event_ops \<Rightarrow> ('e \<Rightarrow> 'l set) \<Rightarrow>
    ('k, 'v, 'q, 'd, 'e, 'l) ksys \<Rightarrow> bool" where
  "ksys_inv qc dc E act s \<longleftrightarrow> keys_inv dc s \<and> order_inv qc s \<and> listener_inv act s \<and> wake_inv qc dc E s \<and>
     closed_inv s \<and> khandle_inv s"

lemma ksys_invD:
  assumes "ksys_inv qc dc E act s"
  shows "keys_inv dc s" "order_inv qc s" "listener_inv act s" "wake_inv qc dc E s" "closed_inv s" "khandle_inv s"
  using assms by (simp_all add: ksys_inv_def)

sublocale kv_ops \<subseteq> kch: lts_invariant "ksys_next Q D E" "channel Q D E" "ksys_inv qc dc E act"
proof (unfold_locales, goal_cases)
  case 1
  obtain l e where le: "ev_listen E (ev_new E) = (l, e)" by force
  have "act e = {l}" by (rule ev.listen_alone [OF le]) (rule ev.active_new)
  with le show ?case
    by (simp add: channel_def kreceiver_new_def kchan_new_def ksys_inv_def keys_inv_def order_inv_def
        listener_inv_def wake_inv_def closed_inv_def khandle_inv_def live_keys_def the_listener_def
        waiting_def mq.contents_new dq.contents_new)
next
  case (2 s l s')
  note inv = ksys_invD [OF 2(1)]
  show ?case
    unfolding ksys_inv_def
    using keys_order_next [OF inv(1,2) 2(2)] listener_inv_next [OF inv(1,3) 2(2)]
      wake_inv_next [OF inv(3,4,5) 2(2)] closed_inv_next [OF inv(5) 2(2)] khandle_inv_next [OF inv(6) 2(2)]
    by simp
qed

context kv_ops
begin

lemmas ksys_reaches_inv = kch.inv_reaches

end

lemma kv_opsI: "seg_queue Q qc \<Longrightarrow> seg_queue D dc \<Longrightarrow> event E act \<Longrightarrow> kv_ops Q qc D dc E act"
  by (simp add: kv_ops_def)

interpretation lkv: kv_ops list_segq id list_segq id list_event list_event_active
  by (rule kv_opsI [OF seg_queue_list seg_queue_list event_list])

section \<open>The properties\<close>

text \<open>A thread that takes no step keeps its program point.\<close>

fun kacts :: "nat \<Rightarrow> ('k, 'v) klabel \<Rightarrow> bool" where
  "kacts t (KlDropTx u) = (t = u)"
| "kacts t (KlSend u k v) = (t = u)"
| "kacts t (KlTx u) = (t = u)"
| "kacts t _ = False"

lemma spc_idle_thread:
  "exec (ksys_next Q D E) s ls = Some s' \<Longrightarrow> list_all (\<lambda>l. \<not> kacts t l) ls \<Longrightarrow> spc s' t = spc s t"
proof (induction ls arbitrary: s)
  case (Cons l ls)
  then obtain s1 where s1: "ksys_next Q D E s l = Some s1" "exec (ksys_next Q D E) s1 ls = Some s'"
    by (auto split: option.splits)
  then have "spc s1 t = spc s t" using Cons.prems(2)
    by (cases l) (auto split: option.splits if_splits krpc.splits)
  with Cons s1 show ?case by simp
qed simp

type_synonym list_ksys =
  "(nat, nat, (nat \<times> nat) list, nat list, nat list \<times> nat list, nat) ksys"

text \<open>
  C12: key exclusion.  In every reachable state the live messages have pairwise different keys, and
  none of these keys is waiting to be released: while a message is held, no other message with
  its key is delivered, whatever the interleaving of senders, receiver and drops.
\<close>

theorem kv_key_exclusive:
  assumes "seg_queue Q qc" "seg_queue D dc" "event E act"
    and "reaches (ksys_next Q D E) (channel Q D E) s"
  shows "distinct (live_keys s @ dc (drop_key_q (chan s)) @ ret_keys (rpc s))"
proof -
  have "keys_inv dc s" using kv_ops.ksys_reaches_inv [OF kv_opsI [OF assms(1-3)] assms(4)] by (rule ksys_invD(1))
  then have ok: "bt_ok (using_keys (rcv s))"
    and m: "mset (map fst (using_keys (rcv s))) = mset (live_keys s @ dc (drop_key_q (chan s)) @ ret_keys (rpc s))"
    by (auto simp: keys_inv_def)
  show ?thesis using bt_ok_distinct [OF ok] mset_eq_imp_distinct_iff [OF m] by blast
qed

theorem kv_key_exclusive_witness:
  "\<exists>s :: list_ksys. reaches (ksys_next list_segq list_segq list_event) (channel list_segq list_segq list_event) s \<and>
     live s = [message_new 71 5, message_new 73 6] \<and> distinct (live_keys s)"
proof -
  let ?ls = "[KlSend 0 5 71, KlTx 0, KlTx 0, KlTx 0, KlSend 0 5 72, KlTx 0, KlTx 0, KlTx 0, KlSend 0 6 73, KlTx 0, KlTx 0,
    KlTx 0, KlRecv, KlRx, KlRx, KlRx, KlRecv, KlRx, KlRx, KlRx, KlRx, KlRx] :: (nat, nat) klabel list"
  let ?P = "\<lambda>s :: list_ksys. live s = [message_new 71 5, message_new 73 6]"
  have "run_ok (ksys_next list_segq list_segq list_event) (channel list_segq list_segq list_event) ?ls ?P" by code_simp
  then obtain s where e: "exec (ksys_next list_segq list_segq list_event) (channel list_segq list_segq list_event) ?ls = Some s"
    and p: "?P s" by (blast dest: run_ok_exec)
  have "distinct (live_keys s)"
    using kv_key_exclusive [OF seg_queue_list seg_queue_list event_list reachesI [OF e]] by simp
  with p reachesI [OF e] show ?thesis by blast
qed

text \<open>
  C22: no operation panics: \<open>sync_pop\<close> finds every released key in its map and always has its listener,
  and the drop of a message always finds its key.
\<close>

theorem kv_never_panics:
  assumes "seg_queue Q qc" "seg_queue D dc" "event E act"
    and "reaches (ksys_next Q D E) (channel Q D E) s"
  shows "rpc s \<noteq> KPanic \<and> \<not> drop_panic s"
proof -
  note inv = kv_ops.ksys_reaches_inv [OF kv_opsI [OF assms(1-3)] assms(4)]
  from ksys_invD(1,3) [OF inv] show ?thesis by (simp add: keys_inv_def listener_inv_def)
qed

theorem kv_never_panics_witness:
  "\<exists>s :: list_ksys. reaches (ksys_next list_segq list_segq list_event) (channel list_segq list_segq list_event) s \<and>
     live s = [message_new 71 5, message_new 73 6] \<and> rpc s \<noteq> KPanic"
proof -
  let ?ls = "[KlSend 0 5 71, KlTx 0, KlTx 0, KlTx 0, KlSend 0 5 72, KlTx 0, KlTx 0, KlTx 0, KlSend 0 6 73, KlTx 0, KlTx 0,
    KlTx 0, KlRecv, KlRx, KlRx, KlRx, KlRecv, KlRx, KlRx, KlRx, KlRx, KlRx] :: (nat, nat) klabel list"
  let ?P = "\<lambda>s :: list_ksys. live s = [message_new 71 5, message_new 73 6]"
  have "run_ok (ksys_next list_segq list_segq list_event) (channel list_segq list_segq list_event) ?ls ?P" by code_simp
  then obtain s where e: "exec (ksys_next list_segq list_segq list_event) (channel list_segq list_segq list_event) ?ls = Some s"
    and p: "?P s" by (blast dest: run_ok_exec)
  with p reachesI [OF e] kv_never_panics [OF seg_queue_list seg_queue_list event_list reachesI [OF e]]
  show ?thesis by blast
qed

text \<open>
  C13: the messages of one key are delivered in the order in which they were pushed, and none is lost
  or duplicated: those pushed are those delivered, followed by those waiting for the key, followed
  by those still in the queue.
\<close>

theorem kv_fifo_per_key:
  assumes "seg_queue Q qc" "seg_queue D dc" "event E act"
    and "reaches (ksys_next Q D E) (channel Q D E) s"
  shows "of_key k (sent (chan s)) =
    of_key k (delivered (rcv s)) @ waiting (using_keys (rcv s)) k @ of_key k (qc (msg_q (chan s)))"
proof -
  note inv = kv_ops.ksys_reaches_inv [OF kv_opsI [OF assms(1-3)] assms(4)]
  from ksys_invD(2) [OF inv] show ?thesis by (simp add: order_inv_def)
qed

theorem kv_fifo_per_key_witness:
  "\<exists>s :: list_ksys. reaches (ksys_next list_segq list_segq list_event) (channel list_segq list_segq list_event) s \<and>
     delivered (rcv s) = [(5, 71), (6, 73)] \<and> of_key 5 (sent (chan s)) = (5, 71) # waiting (using_keys (rcv s)) 5"
proof -
  let ?ls = "[KlSend 0 5 71, KlTx 0, KlTx 0, KlTx 0, KlSend 0 5 72, KlTx 0, KlTx 0, KlTx 0, KlSend 0 6 73, KlTx 0, KlTx 0,
    KlTx 0, KlRecv, KlRx, KlRx, KlRx, KlRecv, KlRx, KlRx, KlRx, KlRx, KlRx] :: (nat, nat) klabel list"
  let ?P = "\<lambda>s :: list_ksys. delivered (rcv s) = [(5, 71), (6, 73)] \<and> msg_q (chan s) = []"
  have "run_ok (ksys_next list_segq list_segq list_event) (channel list_segq list_segq list_event) ?ls ?P" by code_simp
  then obtain s where e: "exec (ksys_next list_segq list_segq list_event) (channel list_segq list_segq list_event) ?ls = Some s"
    and p: "?P s" by (blast dest: run_ok_exec)
  have "of_key 5 (sent (chan s)) = (5, 71) # waiting (using_keys (rcv s)) 5"
    using kv_fifo_per_key [OF seg_queue_list seg_queue_list event_list reachesI [OF e], of 5] p by simp
  with p reachesI [OF e] show ?thesis by blast
qed

text \<open>
  C14: no lost wake-up.  When the receiver sleeps in \<open>wait\<close>, has not been notified, and no thread is
  between its push (or its store of the flag) and its \<open>notify\<close>, then both queues are empty, and the
  sleep is justified: a sender handle is left or being closed, or the user still holds a message.
\<close>

theorem kv_sleep_justified:
  assumes ops: "seg_queue Q qc" "seg_queue D dc" "event E act"
    and r: "reaches (ksys_next Q D E) (channel Q D E) s"
    and w: "rpc s = KWait l" "\<not> ev_notified E (wake_recv_event (chan s)) l"
    and n: "\<forall>t. spc s t \<noteq> KsNotify \<and> spc s t \<noteq> KsDropNotify" "closing s = 0"
  shows "qc (msg_q (chan s)) = [] \<and> dc (drop_key_q (chan s)) = [] \<and>
    (0 < strong s \<or> (\<exists>t. spc s t = KsStore) \<or> live s \<noteq> [])"
proof -
  note inv = ksys_invD [OF kv_ops.ksys_reaches_inv [OF kv_opsI [OF ops] r]]
  have "\<not> signalled E s" using w by (simp add: signalled_def the_listener_def)
  with inv(4) w n have e: "qc (msg_q (chan s)) = []" "dc (drop_key_q (chan s)) = []"
    and u: "\<not> senders_dropped (chan s) \<or> using_keys (rcv s) \<noteq> []"
    by (auto simp: wake_inv_def)
  have "live s \<noteq> []" if "using_keys (rcv s) \<noteq> []"
    using inv(1) e that w by (auto simp: keys_inv_def live_keys_def)
  moreover from inv(6) have "strong s = 0 \<and> \<not> senders_dropped (chan s) \<longrightarrow> (\<exists>t. spc s t = KsStore)"
    unfolding khandle_inv_def by (elim conjE)
  then have "0 < strong s \<or> (\<exists>t. spc s t = KsStore)" if "\<not> senders_dropped (chan s)"
    using that by (cases "strong s") auto
  ultimately show ?thesis using e u by blast
qed

theorem kv_sleep_justified_witness:
  "\<exists>s :: list_ksys. reaches (ksys_next list_segq list_segq list_event) (channel list_segq list_segq list_event) s \<and>
     (\<exists>l. rpc s = KWait l) \<and> msg_q (chan s) = []"
proof -
  let ?ls = "KlRecv # replicate 6 KlRx :: (nat, nat) klabel list"
  let ?P = "\<lambda>s :: list_ksys. (case rpc s of KWait l \<Rightarrow> \<not> ev_notified list_event (wake_recv_event (chan s)) l | _ \<Rightarrow> False) \<and> closing s = 0"
  have "run_ok (ksys_next list_segq list_segq list_event) (channel list_segq list_segq list_event) ?ls ?P" by code_simp
  then obtain s where e: "exec (ksys_next list_segq list_segq list_event) (channel list_segq list_segq list_event) ?ls = Some s"
    and p: "?P s" by (blast dest: run_ok_exec)
  from p obtain l where l: "rpc s = KWait l" "\<not> ev_notified list_event (wake_recv_event (chan s)) l"
    by (auto split: krpc.splits)
  have i: "spc s t = KsIdle" for t
    using spc_idle_thread [OF e, of t] by (simp add: list_all_iff channel_def kreceiver_new_def kchan_new_def)
  have "id (msg_q (chan s)) = []"
    using kv_sleep_justified [OF seg_queue_list seg_queue_list event_list reachesI [OF e] l] p i by simp
  with l reachesI [OF e] show ?thesis by auto
qed

text \<open>
  when \<open>recv\<close> has answered \<open>Closed\<close>, every sender handle is gone and no key is in use: no message
  is live and no release is queued.
\<close>

theorem kv_closed_means_idle:
  assumes ops: "seg_queue Q qc" "seg_queue D dc" "event E act"
    and r: "reaches (ksys_next Q D E) (channel Q D E) s" and c: "rpc s = KClosed"
  shows "strong s = 0 \<and> live s = [] \<and> dc (drop_key_q (chan s)) = []"
proof -
  note inv = ksys_invD [OF kv_ops.ksys_reaches_inv [OF kv_opsI [OF ops] r]]
  have "senders_dropped (chan s)" "using_keys (rcv s) = []" using inv(5) c by (auto simp: closed_inv_def)
  with inv(1,6) show ?thesis by (auto simp: keys_inv_def live_keys_def khandle_inv_def)
qed

theorem kv_closed_means_idle_witness:
  "\<exists>s :: list_ksys. reaches (ksys_next list_segq list_segq list_event) (channel list_segq list_segq list_event) s \<and>
     rpc s = KClosed \<and> strong s = 0"
proof -
  let ?ls = "[KlDropTx 0, KlTx 0, KlTx 0, KlRecv] @ replicate 6 KlRx :: (nat, nat) klabel list"
  let ?P = "\<lambda>s :: list_ksys. rpc s = KClosed"
  have "run_ok (ksys_next list_segq list_segq list_event) (channel list_segq list_segq list_event) ?ls ?P" by code_simp
  then obtain s where e: "exec (ksys_next list_segq list_segq list_event) (channel list_segq list_segq list_event) ?ls = Some s"
    and p: "?P s" by (blast dest: run_ok_exec)
  from kv_closed_means_idle [OF seg_queue_list seg_queue_list event_list reachesI [OF e] p] p reachesI [OF e]
  show ?thesis by blast
qed

text \<open>
  \<open>send\<close> fails only after the receiver was dropped.
\<close>

theorem kv_send_error_means_dropped:
  assumes ops: "seg_queue Q qc" "seg_queue D dc" "event E act"
    and r: "reaches (ksys_next Q D E) (channel Q D E) s" and c: "spc s t = KsDone False"
  shows "receiver_dropped (chan s) \<and> rpc s = KGone"
proof -
  note inv = ksys_invD [OF kv_ops.ksys_reaches_inv [OF kv_opsI [OF ops] r]]
  from inv(6) c show ?thesis by (auto simp: khandle_inv_def)
qed

theorem kv_send_error_means_dropped_witness:
  "\<exists>s :: list_ksys. reaches (ksys_next list_segq list_segq list_event) (channel list_segq list_segq list_event) s \<and>
     spc s 0 = KsDone False \<and> receiver_dropped (chan s)"
proof -
  let ?ls = "[KlDropRx, KlSend 0 5 71, KlTx 0] :: (nat, nat) klabel list"
  let ?P = "\<lambda>s :: list_ksys. spc s 0 = KsDone False"
  have "run_ok (ksys_next list_segq list_segq list_event) (channel list_segq list_segq list_event) ?ls ?P" by code_simp
  then obtain s where e: "exec (ksys_next list_segq list_segq list_event) (channel list_segq list_segq list_event) ?ls = Some s"
    and p: "?P s" by (blast dest: run_ok_exec)
  from kv_send_error_means_dropped [OF seg_queue_list seg_queue_list event_list reachesI [OF e] p] p reachesI [OF e]
  show ?thesis by blast
qed

text \<open>
  \<open>recv\<close> can answer \<open>Closed\<close> although a message is queued: the receiver finds the queue empty twice,
  then the last sender pushes and drops its handle, then the receiver reads the flag.
\<close>

theorem kv_closed_drops_queued:
  "\<exists>s :: list_ksys. reaches (ksys_next list_segq list_segq list_event) (channel list_segq list_segq list_event) s \<and>
     (rpc s = KClosed \<and> msg_q (chan s) = [(5, 71)])"
proof (rule run_ok_reaches)
  show "run_ok (ksys_next list_segq list_segq list_event) (channel list_segq list_segq list_event :: list_ksys)
    ([KlRecv, KlRx, KlRx, KlRx, KlRx, KlSend 0 5 71, KlTx 0, KlTx 0, KlTx 0, KlDropTx 0, KlTx 0, KlTx 0, KlRx, KlRx])
    (\<lambda>s. rpc s = KClosed \<and> msg_q (chan s) = [(5, 71)])"
    by code_simp
qed

end
