(* ===== verification/Simulation.thy ===== *)
theory Simulation imports Prelude begin

text \<open>
  Proof rules for transition systems.  A system implements an abstract one when each of its steps
  is either invisible (the abstract state stays) or is an event that the abstract system performs; then
  the trace of every run is a run of the abstract system.  A step repeated by one thread reaches a
  goal when each of its steps is enabled and decreases a rank.
\<close>

section \<open>Simulation\<close>

text \<open>The events along a run: \<open>ev s l\<close> is what the step \<open>l\<close> taken in \<open>s\<close> shows to the outside.\<close>

fun trace :: "('s \<Rightarrow> 'l \<Rightarrow> 's option) \<Rightarrow> ('s \<Rightarrow> 'l \<Rightarrow> 'e option) \<Rightarrow> 's \<Rightarrow> 'l list \<Rightarrow> 'e list" where
  "trace f ev s [] = []"
| "trace f ev s (l # ls) = (case f s l of
     None \<Rightarrow> []
   | Some t \<Rightarrow> (case ev s l of None \<Rightarrow> trace f ev t ls | Some e \<Rightarrow> e # trace f ev t ls))"

definition sim_step :: "('a \<Rightarrow> 'e \<Rightarrow> 'a option) \<Rightarrow> 'a \<Rightarrow> 'e option \<Rightarrow> 'a \<Rightarrow> bool" where
  "sim_step f a e b \<longleftrightarrow> (case e of None \<Rightarrow> b = a | Some x \<Rightarrow> f a x = Some b)"

lemma sim_step_simps [simp]:
  "sim_step f a None b \<longleftrightarrow> b = a" "sim_step f a (Some x) b \<longleftrightarrow> f a x = Some b"
  by (simp_all add: sim_step_def)

text \<open>The part of a system that stays in the states with a property, one that is never regained.\<close>

definition surviving :: "('s \<Rightarrow> bool) \<Rightarrow> ('s \<Rightarrow> 'l \<Rightarrow> 's option) \<Rightarrow> 's \<Rightarrow> 'l \<Rightarrow> 's option" where
  "surviving G f s l = (case f s l of None \<Rightarrow> None | Some t \<Rightarrow> if G t then Some t else None)"

lemma survivingD: "surviving G f s l = Some t \<Longrightarrow> f s l = Some t \<and> G t"
  by (simp add: surviving_def split: option.splits if_splits)

lemma exec_surviving:
  assumes stays: "\<And>s l t. f s l = Some t \<Longrightarrow> G t \<Longrightarrow> G s"
  shows "exec f s ls = Some t \<Longrightarrow> G t \<Longrightarrow>
    G s \<and> exec (surviving G f) s ls = Some t \<and> trace (surviving G f) ev s ls = trace f ev s ls"
proof (induction ls arbitrary: s)
  case (Cons l ls)
  then obtain u where u: "f s l = Some u" "exec f u ls = Some t" by (auto split: option.splits)
  from Cons.IH [OF u(2) Cons.prems(2)] have IH: "G u" "exec (surviving G f) u ls = Some t"
    "trace (surviving G f) ev u ls = trace f ev u ls" by blast+
  moreover have "surviving G f s l = Some u" using u(1) IH(1) by (simp add: surviving_def)
  ultimately show ?case using u(1) stays [OF u(1)] by (simp split: option.splits)
qed simp

lemma trace_guarded: "list_all P ls \<Longrightarrow> trace (guarded P f) ev s ls = trace f ev s ls"
  by (induction ls arbitrary: s) (auto simp: guarded_def split: option.splits)

text \<open>
  Forward simulation by a relation, for an abstract state that remembers more than the concrete one;
  \<open>simulation\<close> is the case where the abstract state is a function of the concrete state.
\<close>

locale forward_simulation =
  fixes nxt :: "'s \<Rightarrow> 'l \<Rightarrow> 's option" and init :: 's and anxt :: "'a \<Rightarrow> 'e \<Rightarrow> 'a option" and ainit :: 'a
    and Rel :: "'s \<Rightarrow> 'a \<Rightarrow> bool" and ev :: "'s \<Rightarrow> 'l \<Rightarrow> 'e option"
  assumes rel_init: "Rel init ainit"
    and rel_next: "Rel s a \<Longrightarrow> nxt s l = Some t \<Longrightarrow> \<exists>b. sim_step anxt a (ev s l) b \<and> Rel t b"
begin

lemma rel_exec:
  "Rel s a \<Longrightarrow> exec nxt s ls = Some t \<Longrightarrow> \<exists>b. exec anxt a (trace nxt ev s ls) = Some b \<and> Rel t b"
proof (induction ls arbitrary: s a)
  case (Cons l ls)
  then obtain u where u: "nxt s l = Some u" "exec nxt u ls = Some t" by (auto split: option.splits)
  obtain b where b: "sim_step anxt a (ev s l) b" "Rel u b" using rel_next [OF Cons.prems(1) u(1)] by blast
  obtain d where "exec anxt b (trace nxt ev u ls) = Some d" "Rel t d" using Cons.IH [OF b(2) u(2)] by blast
  then show ?case using u(1) b(1) by (cases "ev s l") simp_all
qed simp

theorem rel_runs: "exec nxt init ls = Some s \<Longrightarrow> \<exists>a. exec anxt ainit (trace nxt ev init ls) = Some a \<and> Rel s a"
  by (rule rel_exec [OF rel_init])

end

locale simulation = lts_invariant nxt init Inv
  for nxt :: "'s \<Rightarrow> 'l \<Rightarrow> 's option" and init :: 's and Inv :: "'s \<Rightarrow> bool" +
  fixes anxt :: "'a \<Rightarrow> 'e \<Rightarrow> 'a option" and ainit :: 'a
    and abst :: "'s \<Rightarrow> 'a" and ev :: "'s \<Rightarrow> 'l \<Rightarrow> 'e option"
  assumes sim_init: "abst init = ainit"
    and sim_next: "Inv s \<Longrightarrow> nxt s l = Some t \<Longrightarrow> sim_step anxt (abst s) (ev s l) (abst t)"

sublocale simulation \<subseteq> fwd: forward_simulation nxt init anxt ainit "\<lambda>s a. Inv s \<and> a = abst s" ev
proof (unfold_locales, goal_cases)
  case 1
  show ?case by (simp add: inv_init sim_init)
next
  case (2 s a l t)
  then show ?case using sim_next inv_step by blast
qed

context simulation
begin

theorem sim_runs: "exec nxt init ls = Some s \<Longrightarrow> exec anxt ainit (trace nxt ev init ls) = Some (abst s)"
  using fwd.rel_runs by blast

end

section \<open>Progress\<close>

locale progress =
  fixes nxt :: "'s \<Rightarrow> 'l \<Rightarrow> 's option" and lab :: 'l and Inv Goal :: "'s \<Rightarrow> bool" and rank :: "'s \<Rightarrow> nat"
  assumes pr_step: "Inv s \<Longrightarrow> \<not> Goal s \<Longrightarrow> \<exists>t. nxt s lab = Some t \<and> (Goal t \<or> Inv t \<and> rank t < rank s)"
begin

lemma pr_reach:
  "Inv s \<or> Goal s \<Longrightarrow> \<exists>n t. n \<le> Suc (rank s) \<and> exec nxt s (replicate n lab) = Some t \<and> Goal t"
proof (induction "rank s" arbitrary: s rule: less_induct)
  case less
  show ?case
  proof (cases "Goal s")
    case True
    then have "exec nxt s (replicate 0 lab) = Some s \<and> Goal s" by simp
    then show ?thesis by blast
  next
    case False
    with less.prems pr_step [of s] obtain t where t: "nxt s lab = Some t" "Goal t \<or> Inv t \<and> rank t < rank s" by blast
    show ?thesis
    proof (cases "Goal t")
      case True
      then have "exec nxt s (replicate 1 lab) = Some t \<and> Goal t" using t(1) by simp
      then show ?thesis by (metis One_nat_def Suc_le_mono le0)
    next
      case False
      with t(2) have i: "Inv t" "rank t < rank s" by auto
      from less.hyps [OF i(2)] i(1) obtain n u where n: "n \<le> Suc (rank t)" "exec nxt t (replicate n lab) = Some u" "Goal u"
        by blast
      then have "exec nxt s (replicate (Suc n) lab) = Some u" "Suc n \<le> Suc (rank s)" using t(1) i(2) by auto
      with n(3) show ?thesis by blast
    qed
  qed
qed

end

text \<open>
  Termination whatever the others do: a step of the observed party decreases the rank, a step of another does
  not increase it, and the observed party can go on until it has finished.
\<close>

locale terminating =
  fixes nxt :: "'s \<Rightarrow> 'l \<Rightarrow> 's option" and own :: "'l \<Rightarrow> bool" and Inv Fin :: "'s \<Rightarrow> bool" and rank :: "'s \<Rightarrow> nat"
  assumes tm_inv: "Inv s \<Longrightarrow> nxt s l = Some t \<Longrightarrow> Inv t"
    and tm_rank: "Inv s \<Longrightarrow> nxt s l = Some t \<Longrightarrow> rank t + (if own l then 1 else 0) \<le> rank s"
    and tm_enabled: "Inv s \<Longrightarrow> \<not> Fin s \<Longrightarrow> \<exists>l. own l \<and> nxt s l \<noteq> None"
begin

lemma tm_bound:
  "Inv s \<Longrightarrow> exec nxt s ls = Some t \<Longrightarrow> Inv t \<and> length (filter own ls) + rank t \<le> rank s"
proof (induction ls arbitrary: s)
  case (Cons l ls)
  then obtain u where u: "nxt s l = Some u" "exec nxt u ls = Some t" by (auto split: option.splits)
  have "Inv t \<and> length (filter own ls) + rank t \<le> rank u" by (rule Cons.IH [OF tm_inv [OF Cons.prems(1) u(1)] u(2)])
  then show ?case using tm_rank [OF Cons.prems(1) u(1)] by (auto split: if_splits)
qed simp

end

end
