(* ===== verification/KvSpec.thy ===== *)
theory KvSpec imports KvMpscProofs Simulation begin

text \<open>
  An abstract specification of a keyed channel and the proof that \<open>kv_mpsc.rs\<close> implements it.  The
  abstract channel has for each key a first-in first-out queue, and a set of busy keys; receiving
  takes the head of the queue of a key that is not busy and makes the key busy, in one step.  Every
  interleaving of the code shows a sequence of events that the abstract channel performs.
\<close>

section \<open>The abstract channel\<close>

record ('k, 'v) kspec =
  pending :: "'k \<Rightarrow> 'v list"
  busy :: "'k set"
  handles :: nat
  rx_gone :: bool

datatype ('k, 'v) kevent =
    EvClone
  | EvDropTx
  | EvSend 'k 'v
  | EvSendErr        \<comment> \<open>\<open>send\<close> answers \<open>Err(SendResFail::Closed)\<close>\<close>
  | EvRecv 'k 'v
  | EvClosed         \<comment> \<open>\<open>recv\<close> answers \<open>Err(RecvResFails::Closed)\<close>\<close>
  | EvDropRx
  | EvRelease 'k     \<comment> \<open>the user drops a message with this key\<close>

definition kspec_init :: "('k, 'v) kspec" where
  "kspec_init = \<lparr>pending = (\<lambda>_. []), busy = {}, handles = 1, rx_gone = False\<rparr>"

fun kspec_next :: "('k, 'v) kspec \<Rightarrow> ('k, 'v) kevent \<Rightarrow> ('k, 'v) kspec option" where
  "kspec_next a EvClone = (if 0 < handles a then Some (a\<lparr>handles := Suc (handles a)\<rparr>) else None)"
| "kspec_next a EvDropTx = (if 0 < handles a then Some (a\<lparr>handles := handles a - 1\<rparr>) else None)"
| "kspec_next a (EvSend k v) =
     (if 0 < handles a then Some (a\<lparr>pending := (pending a)(k := pending a k @ [v])\<rparr>) else None)"
| "kspec_next a EvSendErr = (if 0 < handles a \<and> rx_gone a then Some a else None)"
| "kspec_next a (EvRecv k v) =
     (if k \<in> busy a \<or> rx_gone a then None
      else case pending a k of
        [] \<Rightarrow> None
      | x # xs \<Rightarrow> if x = v then Some (a\<lparr>pending := (pending a)(k := xs), busy := insert k (busy a)\<rparr>) else None)"
| "kspec_next a EvClosed = (if handles a = 0 \<and> busy a = {} \<and> \<not> rx_gone a then Some a else None)"
| "kspec_next a EvDropRx = (if rx_gone a then None else Some (a\<lparr>rx_gone := True\<rparr>))"
| "kspec_next a (EvRelease k) = (if k \<in> busy a then Some (a\<lparr>busy := busy a - {k}\<rparr>) else None)"

section \<open>Events and abstraction\<close>

text \<open>
  What a step of the code shows: a send takes effect at its push, a receive where \<open>sync_pop\<close> decides to
  return the message, a release where the drop of the message pushes its key.
\<close>

definition kv_event :: "('q, 'k \<times> 'v) segq \<Rightarrow> ('d, 'k::linorder) segq \<Rightarrow> ('e, 'l) event_ops \<Rightarrow>
    ('k, 'v, 'q, 'd, 'e, 'l) ksys \<Rightarrow> ('k, 'v) klabel \<Rightarrow> ('k, 'v) kevent option" where
  "kv_event Q D E s l = (case l of
     KlClone t u \<Rightarrow> Some EvClone
   | KlDropTx t \<Rightarrow> Some EvDropTx
   | KlTx t \<Rightarrow> (case spc s t of
       KsCheck k v \<Rightarrow> if receiver_dropped (chan s) then Some EvSendErr else None
     | KsPush k v \<Rightarrow> Some (EvSend k v)
     | _ \<Rightarrow> None)
   | KlRx \<Rightarrow> (case ksys_next Q D E s KlRx of
       None \<Rightarrow> None
     | Some t \<Rightarrow> (case rpc t of
         KRet None \<Rightarrow> Some EvClosed
       | KRet (Some (k, v)) \<Rightarrow> Some (EvRecv k v)
       | _ \<Rightarrow> None))
   | KlDropRx \<Rightarrow> Some EvDropRx
   | KlDropMsg i \<Rightarrow> map_option EvRelease (msg_k (live s ! i))
   | _ \<Rightarrow> None)"

definition kv_abs :: "('q \<Rightarrow> ('k \<times> 'v) list) \<Rightarrow> ('k::linorder, 'v, 'q, 'd, 'e, 'l) ksys \<Rightarrow> ('k, 'v) kspec" where
  "kv_abs qc s =
     \<lparr>pending = (\<lambda>k. map snd (waiting (using_keys (rcv s)) k @ of_key k (qc (msg_q (chan s))))),
      busy = set (live_keys s) \<union> set (ret_keys (rpc s)), handles = strong s, rx_gone = receiver_dropped (chan s)\<rparr>"

section \<open>The simulation\<close>

lemma keys_inv_distinct:
  assumes "keys_inv dc s"
  shows "distinct (live_keys s @ dc (drop_key_q (chan s)) @ ret_keys (rpc s))"
    and "set (map fst (using_keys (rcv s))) = set (live_keys s @ dc (drop_key_q (chan s)) @ ret_keys (rpc s))"
proof -
  have ok: "bt_ok (using_keys (rcv s))"
    and m: "mset (map fst (using_keys (rcv s))) = mset (live_keys s @ dc (drop_key_q (chan s)) @ ret_keys (rpc s))"
    using assms by (auto simp: keys_inv_def)
  show "distinct (live_keys s @ dc (drop_key_q (chan s)) @ ret_keys (rpc s))"
    using bt_ok_distinct [OF ok] mset_eq_imp_distinct_iff [OF m] by blast
  show "set (map fst (using_keys (rcv s))) = set (live_keys s @ dc (drop_key_q (chan s)) @ ret_keys (rpc s))"
    by (rule mset_eq_setD [OF m])
qed

context kv_ops
begin

lemma khandleD:
  assumes "khandle_inv s"
  shows "ksending (spc s t) \<Longrightarrow> 0 < strong s" "receiver_dropped (chan s) \<longleftrightarrow> rpc s = KGone"
    "senders_dropped (chan s) \<Longrightarrow> strong s = 0" "owns s t \<Longrightarrow> 0 < strong s"
  using assms khandle_strong [OF assms] by (auto simp: khandle_inv_def)

lemma sim_pop_step:
  assumes i: "ksys_inv qc dc E act s"
    and st: "sync_pop_step Q D E (rpc s) (chan s) (rcv s) = Some (pc, c, r)"
  shows "sim_step kspec_next (kv_abs qc s)
    (case pc of KRet None \<Rightarrow> Some EvClosed | KRet (Some (k, v)) \<Rightarrow> Some (EvRecv k v) | _ \<Rightarrow> None)
    (kv_abs qc (s\<lparr>chan := c, rcv := r, rpc := pc\<rparr>))"
proof -
  note inv = ksys_invD [OF i] and kd = keys_inv_distinct [OF ksys_invD(1) [OF i]]
  have ok: "bt_ok (using_keys (rcv s))" using inv(1) by (simp add: keys_inv_def)
  have g: "receiver_dropped (chan s) \<longleftrightarrow> rpc s = KGone" using khandleD(2) [OF inv(6)] .
  show ?thesis
  proof (cases "rpc s")
    case KDrop
    obtain x d where pop: "sq_pop D (drop_key_q (chan s)) = (x, d)" by force
    show ?thesis
    proof (cases x)
      case None
      then show ?thesis using KDrop pop st by (auto simp: kv_abs_def live_keys_def)
    next
      case (Some k)
      have k: "k \<in> set (dc (drop_key_q (chan s)))" using pop Some by (auto dest: dq.pop_SomeD)
      then have nb: "k \<notin> set (live_keys s) \<union> set (ret_keys (rpc s))" using kd(1) by auto
      have "k \<in> set (map fst (using_keys (rcv s)))" using k kd(2) by simp
      then obtain w where w: "bt_get (using_keys (rcv s)) k = Some w"
        using mset_keys_mem [of k "using_keys (rcv s)"] by (metis set_mset_mset)
      show ?thesis
      proof (cases w)
        case Nil
        then have "pc = KDrop" "c = (chan s)\<lparr>drop_key_q := d\<rparr>"
            "r = (rcv s)\<lparr>using_keys := bt_remove k (using_keys (rcv s))\<rparr>"
          using KDrop pop Some st w by (auto simp: release_key_def)
        moreover have "waiting (bt_remove k (using_keys (rcv s))) j = waiting (using_keys (rcv s)) j" for j
          using w Nil by (simp add: waiting_cases)
        ultimately show ?thesis using KDrop by (simp add: kv_abs_def live_keys_def del: waiting_remove)
      next
        case (Cons m ms)
        then have e: "pc = KRet (Some m)" "c = (chan s)\<lparr>drop_key_q := d\<rparr>"
            "r = (rcv s)\<lparr>using_keys := bt_update k (\<lambda>_. ms) (using_keys (rcv s)), delivered := delivered (rcv s) @ [m]\<rparr>"
          using KDrop pop Some st w by (auto simp: release_key_def)
        have fm: "fst m = k" using order_inv_waiting [OF inv(2) w] Cons by simp
        then obtain v where m: "m = (k, v)" by (cases m) auto
        show ?thesis using e m nb g KDrop w Cons
          by (auto simp: kv_abs_def live_keys_def waiting_cases fun_eq_iff)
      qed
    qed
  next
    case KPop
    obtain x d where pop: "sq_pop Q (msg_q (chan s)) = (x, d)" by force
    show ?thesis
    proof (cases x)
      case None
      then have "qc d = []" "qc (msg_q (chan s)) = []" using pop by (auto dest: mq.pop_NoneD)
      then show ?thesis using KPop pop None st by (auto simp: kv_abs_def live_keys_def)
    next
      case (Some y)
      obtain k v where y: "y = (k, v)" by force
      have q: "qc (msg_q (chan s)) = (k, v) # qc d" using pop Some y by (auto dest: mq.pop_SomeD)
      show ?thesis
      proof (cases "bt_get (using_keys (rcv s)) k")
        case None
        then have e: "pc = KRet (Some (k, v))" "c = (chan s)\<lparr>msg_q := d\<rparr>"
            "r = (rcv s)\<lparr>using_keys := bt_insert k [] (using_keys (rcv s)), delivered := delivered (rcv s) @ [(k, v)]\<rparr>"
          using KPop pop Some y st by (auto simp: accept_msg_def)
        have "k \<notin> set (map fst (using_keys (rcv s)))" using None by (simp add: map_of_eq_None_iff)
        then have "k \<notin> set (live_keys s) \<union> set (ret_keys (rpc s))" using kd(2) by auto
        then show ?thesis using e g KPop q None ok
          by (auto simp: kv_abs_def live_keys_def waiting_cases fun_eq_iff)
      next
        case (Some w)
        then have e: "pc = KDrop" "c = (chan s)\<lparr>msg_q := d\<rparr>"
            "r = (rcv s)\<lparr>using_keys := bt_update k (\<lambda>w. w @ [(k, v)]) (using_keys (rcv s))\<rparr>"
          using KPop pop \<open>x = Some y\<close> y st by (auto simp: accept_msg_def)
        then show ?thesis using KPop q Some by (auto simp: kv_abs_def live_keys_def waiting_cases fun_eq_iff)
      qed
    qed
  next
    case KLoad
    have u: "using_keys (rcv s) = []" using inv(5) KLoad by (simp add: closed_inv_def)
    then have "live_keys s = []" "ret_keys (rpc s) = []" using kd(2) by simp_all
    then show ?thesis using KLoad st g khandleD(3) [OF inv(6)] by (auto simp: kv_abs_def live_keys_def)
  qed (use st in \<open>auto simp: kv_abs_def live_keys_def split: if_splits option.splits prod.splits\<close>)
qed

lemma sim_sys_step:
  assumes i: "ksys_inv qc dc E act s" and st: "ksys_next Q D E s l = Some s'"
  shows "sim_step kspec_next (kv_abs qc s) (kv_event Q D E s l) (kv_abs qc s')"
proof (cases l)
  case KlRx
  then have rx: "ksys_next Q D E s KlRx = Some s'" using st by simp
  then show ?thesis
  proof (cases rule: ksys_rxE)
    case (ret m)
    then show ?thesis using rx KlRx
      by (cases m) (auto simp: kv_event_def kv_abs_def live_keys_def message_new_def)
  next
    case (step pc c r)
    then have "kv_event Q D E s l =
        (case pc of KRet None \<Rightarrow> Some EvClosed | KRet (Some (k, v)) \<Rightarrow> Some (EvRecv k v) | _ \<Rightarrow> None)"
      using rx KlRx by (simp add: kv_event_def)
    then show ?thesis using sim_pop_step [OF i step(1)] step(2) by simp
  qed
next
  case (KlTx t)
  note h = khandleD [OF ksys_invD(6) [OF i]]
  show ?thesis using st KlTx h(1) [of t]
    by (cases "spc s t") (auto simp: kv_event_def kv_abs_def live_keys_def mq.contents_push fun_eq_iff)
next
  case (KlDropMsg j)
  note inv = ksys_invD [OF i]
  show ?thesis
  proof (cases "j < length (live s)")
    case True
    then have "msg_k (live s ! j) \<noteq> None" using inv(1) by (simp add: keys_inv_def)
    then obtain k where k: "msg_k (live s ! j) = Some k" by blast
    let ?r = "map (the \<circ> msg_k) (remove_nth j (live s))"
    have m: "mset (live_keys s) = add_mset k (mset ?r)"
      using live_keys_drop [OF True k] by (simp add: live_keys_def)
    have d: "distinct (live_keys s @ ret_keys (rpc s))" using keys_inv_distinct(1) [OF inv(1)] by auto
    have "distinct (k # ?r)" using m d mset_eq_imp_distinct_iff [of "live_keys s" "k # ?r"] by simp
    moreover have "set (live_keys s) = insert k (set ?r)" using mset_eq_setD [of "live_keys s" "k # ?r"] m by simp
    ultimately have b: "set ?r \<union> set (ret_keys (rpc s)) = set (live_keys s) \<union> set (ret_keys (rpc s)) - {k}"
        "k \<in> set (live_keys s)"
      using d by auto
    have "s' = s\<lparr>chan := (chan s)\<lparr>drop_key_q := sq_push D (drop_key_q (chan s)) k\<rparr>,
        live := remove_nth j (live s), closing := Suc (closing s)\<rparr>"
      using st KlDropMsg True k by simp
    then show ?thesis using b KlDropMsg k by (simp add: kv_event_def kv_abs_def live_keys_def)
  qed (use KlDropMsg st in simp)
next
  case (KlClone t u)
  then show ?thesis using st khandleD(4) [OF ksys_invD(6) [OF i], of t]
    by (auto simp: kv_event_def kv_abs_def live_keys_def split: if_splits)
next
  case (KlDropTx t)
  then show ?thesis using st khandleD(4) [OF ksys_invD(6) [OF i], of t]
    by (auto simp: kv_event_def kv_abs_def live_keys_def split: if_splits)
next
  case KlDropRx
  then show ?thesis using st khandleD(2) [OF ksys_invD(6) [OF i]]
    by (cases "rpc s") (auto simp: kv_event_def kv_abs_def live_keys_def krfree_def split: if_splits)
next
  case KlRecv
  then show ?thesis using st
    by (cases "rpc s") (auto simp: kv_event_def kv_abs_def live_keys_def krfree_def split: if_splits)
qed (use st in \<open>auto simp: kv_event_def kv_abs_def live_keys_def split: if_splits\<close>)

end

sublocale kv_ops \<subseteq> ksim: simulation "ksys_next Q D E" "channel Q D E" "ksys_inv qc dc E act"
  kspec_next kspec_init "kv_abs qc" "kv_event Q D E"
proof (unfold_locales, goal_cases)
  case 1
  show ?case
    by (simp add: channel_def kreceiver_new_def kchan_new_def kv_abs_def kspec_init_def live_keys_def
        waiting_def mq.contents_new split: prod.splits)
next
  case (2 s l t)
  then show ?case by (rule sim_sys_step)
qed

context kv_ops
begin

lemmas kv_sim_runs = ksim.sim_runs

end

text \<open>
  C5: refinement.  Every interleaving of senders, receiver and drops of messages, seen through its events,
  is a run of the abstract channel: a receive takes the oldest pending message of a key that is not
  held, a send fails only when the receiver is gone, \<open>recv\<close> answers \<open>Closed\<close> only when no handle is left
  and no message is held.
\<close>

theorem kv_refines:
  assumes ops: "seg_queue Q qc" "seg_queue D dc" "event E act"
    and run: "exec (ksys_next Q D E) (channel Q D E) ls = Some s"
  shows "exec kspec_next kspec_init (trace (ksys_next Q D E) (kv_event Q D E) (channel Q D E) ls) = Some (kv_abs qc s)"
  by (rule kv_ops.kv_sim_runs [OF kv_opsI [OF ops] run])

theorem kv_refines_witness:
  "exec kspec_next kspec_init [EvSend 5 71, EvSend 5 72, EvRecv 5 71, EvRelease 5, EvRecv (5 :: nat) (72 :: nat)] \<noteq> None"
proof -
  let ?ls = "[KlSend 0 5 71, KlTx 0, KlTx 0, KlTx 0, KlSend 0 5 72, KlTx 0, KlTx 0, KlTx 0,
    KlRecv, KlRx, KlRx, KlRx, KlDropMsg 0, KlNotify, KlRecv, KlRx, KlRx, KlRx, KlRx] :: (nat, nat) klabel list"
  let ?n = "ksys_next list_segq list_segq list_event :: list_ksys \<Rightarrow> _"
  let ?c = "channel list_segq list_segq list_event :: list_ksys"
  have "run_ok ?n ?c ?ls (\<lambda>s. True)" by code_simp
  then obtain s where e: "exec ?n ?c ?ls = Some s" by (blast dest: run_ok_exec)
  have "trace ?n (kv_event list_segq list_segq list_event) ?c ?ls =
      [EvSend 5 71, EvSend 5 72, EvRecv 5 71, EvRelease 5, EvRecv 5 72]" by code_simp
  then show ?thesis using kv_refines [OF seg_queue_list seg_queue_list event_list e] by simp
qed

end
