(* ===== verification/KvProgress.thy ===== *)
theory KvProgress imports KvSpec begin

text \<open>
  Progress of \<open>recv\<close>: when the abstract channel has a pending message of a key that is not held, a
  receiver that runs alone returns a message after a number of its steps bounded by the lengths of the
  two queues.
\<close>

definition deliverable :: "('k, 'v) kspec \<Rightarrow> bool" where
  "deliverable a \<longleftrightarrow> (\<exists>k. pending a k \<noteq> [] \<and> k \<notin> busy a)"

definition kv_returned :: "('k, 'v, 'q, 'd, 'e, 'l) ksys \<Rightarrow> bool" where
  "kv_returned s \<longleftrightarrow> (\<exists>m. rpc s = KRet (Some m))"

text \<open>The points of the loop from which the receiver looks at both queues before it can sleep or give up.\<close>

definition kv_looking :: "('d \<Rightarrow> 'k list) \<Rightarrow> ('e, 'l) event_ops \<Rightarrow> ('k, 'v, 'q, 'd, 'e, 'l) ksys \<Rightarrow> bool" where
  "kv_looking dc E s \<longleftrightarrow> (case rpc s of
     KDrop \<Rightarrow> True | KPop \<Rightarrow> True | KQEmpty \<Rightarrow> True | KListen \<Rightarrow> True
   | KDEmpty \<Rightarrow> dc (drop_key_q (chan s)) \<noteq> []
   | KWait l \<Rightarrow> ev_notified E (wake_recv_event (chan s)) l
   | _ \<Rightarrow> False)"

definition kv_queued :: "('q \<Rightarrow> ('k \<times> 'v) list) \<Rightarrow> ('d \<Rightarrow> 'k list) \<Rightarrow> ('k, 'v, 'q, 'd, 'e, 'l) ksys \<Rightarrow> nat" where
  "kv_queued qc dc s = length (qc (msg_q (chan s))) + length (dc (drop_key_q (chan s)))"

definition kv_rank :: "('q \<Rightarrow> ('k \<times> 'v) list) \<Rightarrow> ('d \<Rightarrow> 'k list) \<Rightarrow> ('k, 'v, 'q, 'd, 'e, 'l) ksys \<Rightarrow> nat" where
  "kv_rank qc dc s = 2 * kv_queued qc dc s +
     (case rpc s of
        KDrop \<Rightarrow> 1 | KPop \<Rightarrow> (if qc (msg_q (chan s)) = [] then 4 else 0) | KQEmpty \<Rightarrow> 3 | KDEmpty \<Rightarrow> 2
      | KListen \<Rightarrow> 2 | KWait l \<Rightarrow> 3 | _ \<Rightarrow> 0)"

lemma release_pc: "release_key k r = (pc, r') \<Longrightarrow> pc = KDrop \<or> pc = KPanic \<or> (\<exists>m. pc = KRet (Some m))"
  by (auto simp: release_key_def split: option.splits list.splits)

lemma accept_pc: "accept_msg k v r = (pc, r') \<Longrightarrow> pc = KDrop \<or> (\<exists>m. pc = KRet (Some m))"
  by (auto simp: accept_msg_def split: option.splits)

context kv_ops
begin

text \<open>A deliverable message is queued, or the release of its key is.\<close>

lemma deliverable_queued:
  assumes "keys_inv dc s" "deliverable (kv_abs qc s)"
  shows "qc (msg_q (chan s)) \<noteq> [] \<or> dc (drop_key_q (chan s)) \<noteq> []"
proof (rule ccontr)
  assume n: "\<not> ?thesis"
  then obtain k where k: "waiting (using_keys (rcv s)) k \<noteq> []" "k \<notin> set (live_keys s) \<union> set (ret_keys (rpc s))"
    using assms(2) by (auto simp: deliverable_def kv_abs_def)
  then obtain w where "bt_get (using_keys (rcv s)) k = Some w" by (auto simp: waiting_def split: option.splits)
  then have "k \<in> set (map fst (using_keys (rcv s)))" by (auto dest!: map_of_SomeD intro: rev_image_eqI)
  then show False using keys_inv_distinct(2) [OF assms(1)] k(2) n by auto
qed

lemma looking_enabled:
  assumes "kv_looking dc E s"
  shows "\<exists>pc c r. sync_pop_step Q D E (rpc s) (chan s) (rcv s) = Some (pc, c, r) \<and>
    ksys_next Q D E s KlRx = Some (s\<lparr>chan := c, rcv := r, rpc := pc\<rparr>)"
  using assms by (cases "rpc s") (auto simp: kv_looking_def split: prod.splits option.splits)

text \<open>A step that shows no event keeps the abstract state, so what was deliverable still is.\<close>

lemma looking_step:
  assumes i: "ksys_inv qc dc E act s" and l: "kv_looking dc E s" and d: "deliverable (kv_abs qc s)"
    and st: "sync_pop_step Q D E (rpc s) (chan s) (rcv s) = Some (pc, c, r)"
  defines "t \<equiv> s\<lparr>chan := c, rcv := r, rpc := pc\<rparr>"
  assumes np: "pc \<noteq> KPanic"
  shows "kv_returned t \<or> kv_looking dc E t \<and> deliverable (kv_abs qc t) \<and> kv_rank qc dc t < kv_rank qc dc s"
proof -
  have nr: "(\<exists>m. pc = KRet (Some m)) \<or> deliverable (kv_abs qc t)" if "pc \<noteq> KRet None"
    using sim_pop_step [OF i st] d that unfolding t_def by (cases pc) (auto split: option.splits)
  have q: "qc (msg_q (chan s)) \<noteq> [] \<or> dc (drop_key_q (chan s)) \<noteq> []"
    by (rule deliverable_queued [OF ksys_invD(1) [OF i] d])
  consider "rpc s = KDrop" | "rpc s = KPop" | "rpc s = KQEmpty" | "rpc s = KListen" | "rpc s = KDEmpty"
      "dc (drop_key_q (chan s)) \<noteq> []" | l where "rpc s = KWait l" "ev_notified E (wake_recv_event (chan s)) l"
    using l by (cases "rpc s") (auto simp: kv_looking_def)
  then show ?thesis
  proof cases
    case 1
    obtain x e where pop: "sq_pop D (drop_key_q (chan s)) = (x, e)" by force
    show ?thesis
    proof (cases x)
      case None
      then have "pc = KPop" "c = (chan s)\<lparr>drop_key_q := e\<rparr>" "r = rcv s" "dc (drop_key_q (chan s)) = []" "dc e = []"
        using 1 pop st dq.pop_NoneD [of "drop_key_q (chan s)" e] by auto
      then show ?thesis using nr q 1 by (simp add: t_def kv_looking_def kv_rank_def kv_queued_def)
    next
      case (Some k)
      obtain pc' r' where rel: "release_key k (rcv s) = (pc', r')" by force
      have e: "pc = pc'" "c = (chan s)\<lparr>drop_key_q := e\<rparr>" "r = r'" using 1 pop Some rel st by auto
      have "dc (drop_key_q (chan s)) = k # dc e" using dq.pop_SomeD pop Some by blast
      then show ?thesis using release_pc [OF rel] nr np e 1
        by (auto simp: t_def kv_looking_def kv_rank_def kv_queued_def kv_returned_def)
    qed
  next
    case 2
    obtain x e where pop: "sq_pop Q (msg_q (chan s)) = (x, e)" by force
    show ?thesis
    proof (cases x)
      case None
      then have "pc = KQEmpty" "c = (chan s)\<lparr>msg_q := e\<rparr>" "r = rcv s" "qc (msg_q (chan s)) = []" "qc e = []"
        using 2 pop st mq.pop_NoneD [of "msg_q (chan s)" e] by auto
      then show ?thesis using nr 2 by (simp add: t_def kv_looking_def kv_rank_def kv_queued_def)
    next
      case (Some y)
      obtain k v where y: "y = (k, v)" by force
      obtain pc' r' where acc: "accept_msg k v (rcv s) = (pc', r')" by force
      have e: "pc = pc'" "c = (chan s)\<lparr>msg_q := e\<rparr>" "r = r'" using 2 pop Some y acc st by auto
      have "qc (msg_q (chan s)) = (k, v) # qc e" using mq.pop_SomeD pop Some y by blast
      then show ?thesis using accept_pc [OF acc] nr e 2
        by (auto simp: t_def kv_looking_def kv_rank_def kv_queued_def kv_returned_def)
    qed
  next
    case 3
    then show ?thesis using st nr q
      by (auto simp: t_def kv_looking_def kv_rank_def kv_queued_def mq.is_empty_iff split: if_splits)
  next
    case 4
    then show ?thesis using st nr
      by (auto simp: t_def kv_looking_def kv_rank_def kv_queued_def split: prod.splits)
  next
    case 5
    then show ?thesis using st nr
      by (auto simp: t_def kv_looking_def kv_rank_def kv_queued_def dq.is_empty_iff split: if_splits)
  next
    case 6
    then show ?thesis using st nr
      by (auto simp: t_def kv_looking_def kv_rank_def kv_queued_def)
  qed
qed

end

sublocale kv_ops \<subseteq> kpr: progress "ksys_next Q D E" KlRx
  "\<lambda>s. ksys_inv qc dc E act s \<and> kv_looking dc E s \<and> deliverable (kv_abs qc s)" kv_returned "kv_rank qc dc"
proof (unfold_locales, goal_cases)
  case (1 s)
  then have i: "ksys_inv qc dc E act s" and l: "kv_looking dc E s" and d: "deliverable (kv_abs qc s)" by blast+
  obtain pc c r where st: "sync_pop_step Q D E (rpc s) (chan s) (rcv s) = Some (pc, c, r)"
    and n: "ksys_next Q D E s KlRx = Some (s\<lparr>chan := c, rcv := r, rpc := pc\<rparr>)"
    using looking_enabled [OF l] by blast
  have j: "ksys_inv qc dc E act (s\<lparr>chan := c, rcv := r, rpc := pc\<rparr>)" by (rule kch.inv_step [OF i n])
  then have "pc \<noteq> KPanic" using ksys_invD(3) [OF j] by (simp add: listener_inv_def)
  then show ?case using looking_step [OF i l d st] n j by blast
qed

context kv_ops
begin

lemmas kv_reach_return = kpr.pr_reach

lemma recv_start:
  assumes i: "ksys_inv qc dc E act s" and f: "krfree (rpc s)"
  shows "ksys_next Q D E s KlRecv = Some (s\<lparr>rpc := KDrop\<rparr>)" "ksys_inv qc dc E act (s\<lparr>rpc := KDrop\<rparr>)"
    "kv_abs qc (s\<lparr>rpc := KDrop\<rparr>) = kv_abs qc s"
proof -
  show n: "ksys_next Q D E s KlRecv = Some (s\<lparr>rpc := KDrop\<rparr>)" using f by simp
  show "ksys_inv qc dc E act (s\<lparr>rpc := KDrop\<rparr>)" by (rule kch.inv_step [OF i n])
  show "kv_abs qc (s\<lparr>rpc := KDrop\<rparr>) = kv_abs qc s"
    using f by (cases "rpc s") (simp_all add: krfree_def kv_abs_def live_keys_def)
qed

end

text \<open>
  C8: \<open>recv\<close> delivers.  When a message is pending whose key no held message has, a call of \<open>recv\<close> that is not
  interrupted returns a message, after a number of steps bounded by the lengths of the two queues.
\<close>

theorem kv_recv_delivers:
  assumes ops: "seg_queue Q qc" "seg_queue D dc" "event E act"
    and r: "reaches (ksys_next Q D E) (channel Q D E) s" and f: "krfree (rpc s)"
    and d: "pending (kv_abs qc s) k \<noteq> []" "k \<notin> busy (kv_abs qc s)"
  shows "\<exists>n t m. n \<le> 2 * (length (qc (msg_q (chan s))) + length (dc (drop_key_q (chan s)))) + 2 \<and>
    exec (ksys_next Q D E) s (KlRecv # replicate n KlRx) = Some t \<and> rpc t = KRet (Some m)"
proof -
  note kv = kv_opsI [OF ops]
  let ?s = "s\<lparr>rpc := KDrop\<rparr>"
  note st = kv_ops.recv_start [OF kv kv_ops.ksys_reaches_inv [OF kv r] f]
  have "deliverable (kv_abs qc ?s)" using d st(3) by (auto simp: deliverable_def)
  moreover have "kv_looking dc E ?s" by (simp add: kv_looking_def)
  ultimately obtain n t where "n \<le> Suc (kv_rank qc dc ?s)" "exec (ksys_next Q D E) ?s (replicate n KlRx) = Some t" "kv_returned t"
    using kv_ops.kv_reach_return [OF kv, of ?s] st(2) by blast
  then have "n \<le> 2 * (length (qc (msg_q (chan s))) + length (dc (drop_key_q (chan s)))) + 2 \<and>
      exec (ksys_next Q D E) s (KlRecv # replicate n KlRx) = Some t \<and> (\<exists>m. rpc t = KRet (Some m))"
    using st(1) by (simp add: kv_rank_def kv_queued_def kv_returned_def)
  then show ?thesis by blast
qed

theorem kv_recv_delivers_witness:
  "\<exists>(s :: list_ksys) n t m. reaches (ksys_next list_segq list_segq list_event) (channel list_segq list_segq list_event) s \<and>
     (n \<le> 6 \<and> exec (ksys_next list_segq list_segq list_event) s (KlRecv # replicate n KlRx) = Some t \<and> rpc t = KRet (Some m))"
proof -
  let ?ls = "[KlSend 0 5 71, KlTx 0, KlTx 0, KlTx 0, KlRecv, KlRx, KlRx, KlRx, KlSend 0 5 72, KlTx 0, KlTx 0, KlTx 0,
    KlDropMsg 0] :: (nat, nat) klabel list"
  let ?n = "ksys_next list_segq list_segq list_event :: list_ksys \<Rightarrow> _"
  let ?c = "channel list_segq list_segq list_event :: list_ksys"
  let ?P = "\<lambda>s :: list_ksys. rpc s = KIdle \<and> msg_q (chan s) = [(5, 72)] \<and> drop_key_q (chan s) = [5] \<and> live s = []"
  have "run_ok ?n ?c ?ls ?P" by code_simp
  then obtain s where e: "exec ?n ?c ?ls = Some s" and p: "?P s" by (blast dest: run_ok_exec)
  have d: "krfree (rpc s)" "pending (kv_abs id s) 5 \<noteq> []" "5 \<notin> busy (kv_abs id s)"
    using p by (simp_all add: krfree_def kv_abs_def live_keys_def)
  from kv_recv_delivers [OF seg_queue_list seg_queue_list event_list reachesI [OF e] d] p
  have "\<exists>n t m. n \<le> 6 \<and> exec ?n s (KlRecv # replicate n KlRx) = Some t \<and> rpc t = KRet (Some m)"
    by (simp del: exec.simps)
  with reachesI [OF e] show ?thesis by blast
qed

end
