(* ===== verification/KvClose.thy ===== *)
theory KvClose imports KvProgress begin

text \<open>
  Three consequences of the wake-up and the order of the keyed channel: a receiver that went to sleep
  before a message arrived returns it without any further help; a channel whose senders were all
  dropped hands out every message before a new \<open>recv\<close> answers \<open>Closed\<close>; and the consumer that calls
  \<open>recv\<close> and drops the message in a loop then reaches \<open>Closed\<close> in every interleaving, after a bounded number
  of its own steps and without sleeping (by the locale \<open>terminating\<close> of \<open>Simulation\<close>).
\<close>

section \<open>A sleeping receiver\<close>

context kv_ops
begin

lemma sleeper_signalled:
  assumes inv: "keys_inv dc s" "wake_inv qc dc E s" and w: "rpc s = KWait l"
    and n: "\<forall>t. spc s t \<noteq> KsNotify" "closing s = 0" and d: "deliverable (kv_abs qc s)"
  shows "ev_notified E (wake_recv_event (chan s)) l"
  using deliverable_queued [OF inv(1) d] inv(2) w n by (auto simp: wake_inv_def signalled_def the_listener_def)

end

text \<open>
  C9: a sleeping receiver is woken and delivers.  When a message is pending whose key no held message has,
  and every call of \<open>notify\<close> that was due has been made, the receiver inside \<open>wait\<close> returns a message after a
  bounded number of its own steps.
\<close>

theorem kv_sleeper_delivers:
  assumes ops: "seg_queue Q qc" "seg_queue D dc" "event E act"
    and r: "reaches (ksys_next Q D E) (channel Q D E) s" and w: "rpc s = KWait l"
    and d: "pending (kv_abs qc s) k \<noteq> []" "k \<notin> busy (kv_abs qc s)"
    and n: "\<forall>t. spc s t \<noteq> KsNotify" "closing s = 0"
  shows "\<exists>n t m. n \<le> 2 * (length (qc (msg_q (chan s))) + length (dc (drop_key_q (chan s)))) + 4 \<and>
    exec (ksys_next Q D E) s (replicate n KlRx) = Some t \<and> rpc t = KRet (Some m)"
proof -
  note kv = kv_opsI [OF ops]
  note i = kv_ops.ksys_reaches_inv [OF kv r]
  have d': "deliverable (kv_abs qc s)" using d by (auto simp: deliverable_def)
  have "kv_looking dc E s"
    using kv_ops.sleeper_signalled [OF kv ksys_invD(1,4) [OF i] w n d'] w by (simp add: kv_looking_def)
  then obtain n t where "n \<le> Suc (kv_rank qc dc s)" "exec (ksys_next Q D E) s (replicate n KlRx) = Some t" "kv_returned t"
    using kv_ops.kv_reach_return [OF kv, of s] i d' by blast
  then show ?thesis using w by (intro exI [of _ n] exI [of _ t]) (auto simp: kv_rank_def kv_queued_def kv_returned_def)
qed

theorem kv_sleeper_delivers_witness:
  "\<exists>(s :: list_ksys) n t m. reaches (ksys_next list_segq list_segq list_event) (channel list_segq list_segq list_event) s \<and>
     (\<exists>l. rpc s = KWait l) \<and> exec (ksys_next list_segq list_segq list_event) s (replicate n KlRx) = Some t \<and> rpc t = KRet (Some m)"
proof -
  let ?ls = "KlRecv # replicate 6 KlRx @ [KlSend 0 5 71, KlTx 0, KlTx 0, KlTx 0] :: (nat, nat) klabel list"
  let ?n = "ksys_next list_segq list_segq list_event :: list_ksys \<Rightarrow> _"
  let ?c = "channel list_segq list_segq list_event :: list_ksys"
  let ?P = "\<lambda>s :: list_ksys. (case rpc s of KWait l \<Rightarrow> True | _ \<Rightarrow> False) \<and> msg_q (chan s) = [(5, 71)] \<and>
    live s = [] \<and> closing s = 0 \<and> spc s 0 = KsDone True"
  have "run_ok ?n ?c ?ls ?P" by code_simp
  then obtain s where e: "exec ?n ?c ?ls = Some s" and p: "?P s" by (blast dest: run_ok_exec)
  from p obtain l where l: "rpc s = KWait l" by (auto split: krpc.splits)
  have i: "spc s t \<noteq> KsNotify" for t
    using spc_idle_thread [OF e, of t] p
    by (cases "t = 0") (simp_all add: list_all_iff channel_def kreceiver_new_def kchan_new_def)
  have d: "pending (kv_abs id s) 5 \<noteq> []" "5 \<notin> busy (kv_abs id s)" using p l by (simp_all add: kv_abs_def live_keys_def)
  have "\<exists>n t m. exec ?n s (replicate n KlRx) = Some t \<and> rpc t = KRet (Some m)"
    using kv_sleeper_delivers [OF seg_queue_list seg_queue_list event_list reachesI [OF e] l d] i p by (metis (no_types))
  with reachesI [OF e] l show ?thesis by blast
qed

section \<open>After the last sender\<close>

text \<open>The flag is set; a \<open>recv\<close> that is past its \<open>is_empty\<close> check has found the queue empty for good.\<close>

definition kv_draining :: "('q \<Rightarrow> ('k \<times> 'v) list) \<Rightarrow> ('k, 'v, 'q, 'd, 'e, 'l) ksys \<Rightarrow> bool" where
  "kv_draining qc s \<longleftrightarrow> senders_dropped (chan s) \<and>
     (rpc s = KQEmpty \<or> rpc s = KDEmpty \<or> rpc s = KLoad \<or> rpc s = KRet None \<or> rpc s = KClosed \<longrightarrow> qc (msg_q (chan s)) = [])"

context kv_ops
begin

lemma no_sender_left:
  assumes "khandle_inv s" "senders_dropped (chan s)"
  shows "\<not> owns s t" "\<not> ksending (spc s t)"
  using khandleD(4) [OF assms(1), of t] khandleD(1) [OF assms(1), of t] khandleD(3) [OF assms] by auto

lemma draining_pop:
  assumes "kv_draining qc s" "sync_pop_step Q D E (rpc s) (chan s) (rcv s) = Some (pc, c, r)"
  shows "kv_draining qc (s\<lparr>chan := c, rcv := r, rpc := pc\<rparr>)"
  using assms
  by (cases "rpc s") (auto simp: kv_draining_def mq.is_empty_iff release_key_def accept_msg_def dest: mq.pop_NoneD
      split: if_splits option.splits prod.splits list.splits)

lemma send_step_keeps:
  assumes "ksend_step Q E pc c = Some (pc', c')" "\<not> ksending pc"
  shows "msg_q c' = msg_q c \<and> drop_key_q c' = drop_key_q c \<and> sent c' = sent c \<and> (senders_dropped c \<longrightarrow> senders_dropped c')"
  using assms by (cases pc) auto

lemma draining_next:
  assumes i: "ksys_inv qc dc E act s" and d: "kv_draining qc s" and st: "ksys_next Q D E s l = Some s'"
  shows "kv_draining qc s'"
proof (cases l)
  case KlRx
  then have rx: "ksys_next Q D E s KlRx = Some s'" using st by simp
  then show ?thesis
  proof (cases rule: ksys_rxE)
    case (ret m)
    then show ?thesis using rx d by (cases m) (auto simp: kv_draining_def)
  next
    case (step pc c r)
    then show ?thesis using draining_pop [OF d step(1)] by simp
  qed
next
  case (KlTx t)
  have "\<not> ksending (spc s t)" using no_sender_left [OF ksys_invD(6) [OF i]] d by (simp add: kv_draining_def)
  obtain pc c where c: "ksend_step Q E (spc s t) (chan s) = Some (pc, c)" and s': "s' = s\<lparr>chan := c, spc := (spc s)(t := pc)\<rparr>"
    using st KlTx by (auto split: option.splits)
  show ?thesis using send_step_keeps [OF c \<open>\<not> ksending (spc s t)\<close>] d s' by (simp add: kv_draining_def)
next
  case (KlDropMsg j)
  then have "senders_dropped (chan s') = senders_dropped (chan s) \<and> msg_q (chan s') = msg_q (chan s) \<and> rpc s' = rpc s"
    using st by (cases "msg_k (live s ! j)") (auto split: if_splits)
  then show ?thesis using d by (simp add: kv_draining_def)
next
  case (KlClone t u)
  then have "chan s' = chan s \<and> rpc s' = rpc s" using st by (auto split: if_splits)
  then show ?thesis using d by (simp add: kv_draining_def)
next
  case (KlDropTx t)
  then have "chan s' = chan s \<and> rpc s' = rpc s" using st by (auto split: if_splits)
  then show ?thesis using d by (simp add: kv_draining_def)
next
  case (KlSend t k v)
  then have "chan s' = chan s \<and> rpc s' = rpc s" using st by (auto split: if_splits)
  then show ?thesis using d by (simp add: kv_draining_def)
next
  case KlRecv
  then have "chan s' = chan s \<and> rpc s' = KDrop" using st by (auto split: if_splits)
  then show ?thesis using d by (simp add: kv_draining_def)
next
  case KlDropRx
  then have "chan s' = (chan s)\<lparr>receiver_dropped := True\<rparr> \<and> rpc s' = KGone" using st by (auto split: if_splits)
  then show ?thesis using d by (simp add: kv_draining_def)
next
  case KlNotify
  then have "chan s' = (chan s)\<lparr>wake_recv_event := ev_notify E (wake_recv_event (chan s)) 1\<rparr> \<and> rpc s' = rpc s"
    using st by (auto split: if_splits)
  then show ?thesis using d by (simp add: kv_draining_def)
qed

lemma draining_exec:
  "ksys_inv qc dc E act s \<Longrightarrow> kv_draining qc s \<Longrightarrow> exec (ksys_next Q D E) s ls = Some t \<Longrightarrow>
    ksys_inv qc dc E act t \<and> kv_draining qc t"
proof (induction ls arbitrary: s)
  case (Cons l ls)
  then obtain u where u: "ksys_next Q D E s l = Some u" "exec (ksys_next Q D E) u ls = Some t" by (auto split: option.splits)
  show ?case by (rule Cons.IH [OF kch.inv_step [OF Cons.prems(1) u(1)] draining_next [OF Cons.prems(1,2) u(1)] u(2)])
qed simp

lemma closed_all_delivered:
  assumes "ksys_inv qc dc E act s" "kv_draining qc s" "exec (ksys_next Q D E) s ls = Some t" "rpc t = KClosed"
  shows "qc (msg_q (chan t)) = [] \<and> of_key k (delivered (rcv t)) = of_key k (sent (chan t))"
proof -
  have i: "ksys_inv qc dc E act t" and d: "kv_draining qc t" using draining_exec [OF assms(1-3)] by blast+
  have q: "qc (msg_q (chan t)) = []" using d assms(4) by (simp add: kv_draining_def)
  have "using_keys (rcv t) = []" using ksys_invD(5) [OF i] assms(4) by (simp add: closed_inv_def)
  then show ?thesis using ksys_invD(2) [OF i] q by (simp add: order_inv_def waiting_def)
qed

end

text \<open>
  C10: closing loses nothing that was sent before.  A call of \<open>recv\<close> that begins after the last sender set the flag
  answers \<open>Closed\<close> only when the queue is empty and every message was handed out, those of one key in the order
  of their sends; nothing else happens in between that could add one.
\<close>

theorem kv_close_loses_nothing:
  assumes ops: "seg_queue Q qc" "seg_queue D dc" "event E act"
    and r: "reaches (ksys_next Q D E) (channel Q D E) s" and s: "senders_dropped (chan s)" "rpc s = KIdle"
    and run: "exec (ksys_next Q D E) s ls = Some t" and c: "rpc t = KClosed"
  shows "qc (msg_q (chan t)) = [] \<and> of_key k (delivered (rcv t)) = of_key k (sent (chan t))"
proof -
  note kv = kv_opsI [OF ops]
  have "kv_draining qc s" using s by (simp add: kv_draining_def)
  from kv_ops.closed_all_delivered [OF kv kv_ops.ksys_reaches_inv [OF kv r] this run c] show ?thesis .
qed

theorem kv_close_loses_nothing_witness:
  "\<exists>(s :: list_ksys) (t :: list_ksys). reaches (ksys_next list_segq list_segq list_event) (channel list_segq list_segq list_event) s \<and>
     msg_q (chan s) = [(5, 71)] \<and> of_key 5 (delivered (rcv t)) = [(5, 71)]"
proof -
  let ?n = "ksys_next list_segq list_segq list_event :: list_ksys \<Rightarrow> _"
  let ?c = "channel list_segq list_segq list_event :: list_ksys"
  let ?as = "[KlSend 0 5 71, KlTx 0, KlTx 0, KlTx 0, KlDropTx 0, KlTx 0, KlTx 0] :: (nat, nat) klabel list"
  let ?bs = "[KlRecv, KlRx, KlRx, KlRx, KlDropMsg 0, KlNotify, KlRecv] @ replicate 7 KlRx :: (nat, nat) klabel list"
  let ?P = "\<lambda>s :: list_ksys. senders_dropped (chan s) \<and> rpc s = KIdle \<and> msg_q (chan s) = [(5, 71)] \<and>
    run_ok ?n s ?bs (\<lambda>t. rpc t = KClosed \<and> sent (chan t) = [(5, 71)])"
  have "run_ok ?n ?c ?as ?P" by code_simp
  then obtain s where e: "exec ?n ?c ?as = Some s" and p: "?P s" by (blast dest: run_ok_exec)
  from p obtain t where b: "exec ?n s ?bs = Some t" and q: "rpc t = KClosed" "sent (chan t) = [(5, 71)]"
    by (blast dest: run_ok_exec)
  have "of_key 5 (delivered (rcv t)) = of_key 5 (sent (chan t))"
    using kv_close_loses_nothing [OF seg_queue_list seg_queue_list event_list reachesI [OF e] _ _ b q(1), of 5] p by blast
  then have "of_key 5 (delivered (rcv t)) = [(5, 71)]" using q(2) by (simp add: of_key_def)
  with reachesI [OF e] p show ?thesis by blast
qed

section \<open>The consumer\<close>

text \<open>
  The consumer is the loop \<open>while let Ok(m) = rx.recv() { drop(m) }\<close>: it calls \<open>recv\<close> again only when the drop of the
  message is over, its \<open>notify\<close> included, and it stops at \<open>Closed\<close>.  \<open>kv_consume_next\<close> is the whole system with
  this consumer: the threads that had senders go on as they like.
\<close>

definition kv_consume_next :: "('q, 'k \<times> 'v) segq \<Rightarrow> ('d, 'k::linorder) segq \<Rightarrow> ('e, 'l) event_ops \<Rightarrow>
    ('k, 'v, 'q, 'd, 'e, 'l) ksys \<Rightarrow> ('k, 'v) klabel \<Rightarrow> ('k, 'v, 'q, 'd, 'e, 'l) ksys option" where
  "kv_consume_next Q D E s l = (case l of
     KlRecv \<Rightarrow> if rpc s = KIdle \<and> live s = [] \<and> closing s = 0 then ksys_next Q D E s KlRecv else None
   | KlDropRx \<Rightarrow> None
   | _ \<Rightarrow> ksys_next Q D E s l)"

fun kv_consumer :: "('k, 'v) klabel \<Rightarrow> bool" where
  "kv_consumer KlRecv = True"
| "kv_consumer KlRx = True"
| "kv_consumer (KlDropMsg i) = True"
| "kv_consumer KlNotify = True"
| "kv_consumer _ = False"

lemma consume_nextD:
  "kv_consume_next Q D E s l = Some t \<Longrightarrow> ksys_next Q D E s l = Some t"
  "kv_consume_next Q D E s KlRecv = Some t \<Longrightarrow> rpc s = KIdle \<and> live s = [] \<and> closing s = 0"
  by (auto simp: kv_consume_next_def split: klabel.splits if_splits)

text \<open>Where the consumer is: inside \<open>recv\<close> it holds no message, and before the next \<open>recv\<close> at most one.\<close>

definition kv_loop :: "('d \<Rightarrow> 'k list) \<Rightarrow> ('k, 'v, 'q, 'd, 'e, 'l) ksys \<Rightarrow> bool" where
  "kv_loop dc s \<longleftrightarrow> (case rpc s of
     KIdle \<Rightarrow> length (live s) + closing s \<le> 1
   | KDrop \<Rightarrow> live s = [] \<and> closing s = 0
   | KPop \<Rightarrow> live s = [] \<and> closing s = 0 \<and> dc (drop_key_q (chan s)) = []
   | KQEmpty \<Rightarrow> live s = [] \<and> closing s = 0 \<and> dc (drop_key_q (chan s)) = []
   | KDEmpty \<Rightarrow> live s = [] \<and> closing s = 0 \<and> dc (drop_key_q (chan s)) = []
   | KLoad \<Rightarrow> live s = [] \<and> closing s = 0 \<and> dc (drop_key_q (chan s)) = []
   | KRet m \<Rightarrow> live s = [] \<and> closing s = 0
   | KClosed \<Rightarrow> live s = [] \<and> closing s = 0
   | _ \<Rightarrow> False)"

definition kv_undelivered :: "('k, 'v, 'q, 'd, 'e, 'l) ksys \<Rightarrow> nat" where
  "kv_undelivered s = length (sent (chan s)) - length (delivered (rcv s))"

fun kv_stage :: "('k, 'v, 'l) krpc \<Rightarrow> nat" where
  "kv_stage KDrop = 6"
| "kv_stage KPop = 5"
| "kv_stage KQEmpty = 4"
| "kv_stage KDEmpty = 3"
| "kv_stage KLoad = 2"
| "kv_stage (KRet None) = 1"
| "kv_stage (KRet (Some m)) = 17"
| "kv_stage KIdle = 7"
| "kv_stage _ = 0"

definition kv_left :: "('q \<Rightarrow> ('k \<times> 'v) list) \<Rightarrow> ('d \<Rightarrow> 'k list) \<Rightarrow> ('k, 'v, 'q, 'd, 'e, 'l) ksys \<Rightarrow> nat" where
  "kv_left qc dc s = 6 * kv_undelivered s + 7 * kv_queued qc dc s + kv_stage (rpc s) + 9 * length (live s) + closing s"

lemma count_of_key: "count (mset (of_key k xs)) (k, v) = count (mset xs) (k, v)"
  by (induction xs) (auto simp: of_key_def)

lemma delivered_le_sent:
  assumes "order_inv qc s"
  shows "length (delivered (rcv s)) \<le> length (sent (chan s))"
proof -
  have "count (mset (delivered (rcv s))) x \<le> count (mset (sent (chan s))) x" for x
  proof (cases x)
    case (Pair k v)
    have "mset (of_key k (delivered (rcv s))) \<subseteq># mset (of_key k (sent (chan s)))"
      using assms by (simp add: order_inv_def)
    then show ?thesis using Pair count_of_key [of k _ v] by (metis mset_subset_eq_count)
  qed
  then have "mset (delivered (rcv s)) \<subseteq># mset (sent (chan s))" by (rule mset_subset_eqI)
  then show ?thesis using size_mset_mono by fastforce
qed

lemma release_delivered:
  assumes "release_key k r = (pc, r')" "pc \<noteq> KPanic"
  shows "pc = KDrop \<and> delivered r' = delivered r \<or> (\<exists>m. pc = KRet (Some m) \<and> length (delivered r') = Suc (length (delivered r)))"
  using assms by (auto simp: release_key_def split: option.splits list.splits)

lemma accept_delivered:
  assumes "accept_msg k v r = (pc, r')"
  shows "pc = KDrop \<and> delivered r' = delivered r \<or> (\<exists>m. pc = KRet (Some m) \<and> length (delivered r') = Suc (length (delivered r)))"
  using assms by (auto simp: accept_msg_def split: option.splits)

context kv_ops
begin

text \<open>What a step of the loop that took a key or a message leads to.\<close>

lemma loop_took:
  assumes t: "t = s\<lparr>chan := c, rcv := r, rpc := pc\<rparr>" and lv: "live s = []" "closing s = 0"
    and snt: "sent c = sent (chan s)" and o: "order_inv qc t"
    and res: "pc = KDrop \<and> delivered r = delivered (rcv s) \<or> (\<exists>m. pc = KRet (Some m) \<and> length (delivered r) = Suc (length (delivered (rcv s))))"
    and q: "Suc (kv_queued qc dc t) = kv_queued qc dc s" and pc: "5 \<le> kv_stage (rpc s)"
  shows "kv_loop dc t \<and> kv_left qc dc t < kv_left qc dc s"
  using res
proof (elim disjE exE conjE)
  assume "pc = KDrop" "delivered r = delivered (rcv s)"
  then show ?thesis using t lv snt q pc by (simp add: kv_loop_def kv_left_def kv_undelivered_def)
next
  fix m assume m: "pc = KRet (Some m)" "length (delivered r) = Suc (length (delivered (rcv s)))"
  have "length (delivered r) \<le> length (sent c)" using delivered_le_sent [OF o] t by simp
  then have "Suc (kv_undelivered t) = kv_undelivered s" using m(2) snt t by (simp add: kv_undelivered_def)
  then show ?thesis using t lv m q pc by (simp add: kv_loop_def kv_left_def)
qed

lemma loop_pop:
  assumes i: "ksys_inv qc dc E act s" and d: "kv_draining qc s" and l: "kv_loop dc s"
    and st: "sync_pop_step Q D E (rpc s) (chan s) (rcv s) = Some (pc, c, r)"
    and t: "t = s\<lparr>chan := c, rcv := r, rpc := pc\<rparr>" and j: "ksys_inv qc dc E act t"
  shows "kv_loop dc t \<and> kv_left qc dc t < kv_left qc dc s"
proof -
  have np: "pc \<noteq> KPanic" using ksys_invD(3) [OF j] by (simp add: listener_inv_def t)
  note took = loop_took [OF t _ _ _ ksys_invD(2) [OF j]]
  note defs = kv_loop_def kv_left_def kv_undelivered_def kv_queued_def
  consider "rpc s = KDrop" | "rpc s = KPop" | "rpc s = KQEmpty" | "rpc s = KDEmpty" | "rpc s = KLoad"
    using l st by (cases "rpc s") (auto simp: kv_loop_def)
  then show ?thesis
  proof cases
    case 1
    obtain x e where pop: "sq_pop D (drop_key_q (chan s)) = (x, e)" by force
    show ?thesis
    proof (cases x)
      case None
      then have "pc = KPop" "c = (chan s)\<lparr>drop_key_q := e\<rparr>" "r = rcv s" "dc (drop_key_q (chan s)) = []" "dc e = []"
        using 1 pop st dq.pop_NoneD [of "drop_key_q (chan s)" e] by auto
      then show ?thesis using 1 l by (simp add: t defs)
    next
      case (Some k)
      obtain pc' r' where rel: "release_key k (rcv s) = (pc', r')" by force
      have e: "pc = pc'" "c = (chan s)\<lparr>drop_key_q := e\<rparr>" "r = r'" using 1 pop Some rel st by auto
      have "dc (drop_key_q (chan s)) = k # dc e" using dq.pop_SomeD pop Some by blast
      then show ?thesis using 1 l e(2)
        by (intro took [OF _ _ _ release_delivered [OF rel [folded e(1,3)] np]]) (simp_all add: t kv_queued_def kv_loop_def)
    qed
  next
    case 2
    obtain x e where pop: "sq_pop Q (msg_q (chan s)) = (x, e)" by force
    show ?thesis
    proof (cases x)
      case None
      then have "pc = KQEmpty" "c = (chan s)\<lparr>msg_q := e\<rparr>" "r = rcv s" "qc (msg_q (chan s)) = []" "qc e = []"
        using 2 pop st mq.pop_NoneD [of "msg_q (chan s)" e] by auto
      then show ?thesis using 2 l by (simp add: t defs)
    next
      case (Some y)
      obtain k v where y: "y = (k, v)" by force
      obtain pc' r' where acc: "accept_msg k v (rcv s) = (pc', r')" by force
      have e: "pc = pc'" "c = (chan s)\<lparr>msg_q := e\<rparr>" "r = r'" using 2 pop Some y acc st by auto
      have "qc (msg_q (chan s)) = (k, v) # qc e" using mq.pop_SomeD pop Some y by blast
      then show ?thesis using 2 l e(2)
        by (intro took [OF _ _ _ accept_delivered [OF acc [folded e(1,3)]]]) (simp_all add: t kv_queued_def kv_loop_def)
    qed
  next
    case 3
    have "qc (msg_q (chan s)) = []" using d 3 by (simp add: kv_draining_def)
    then have "pc = KDEmpty" "c = chan s" "r = rcv s" using 3 st by (simp_all add: mq.is_empty_iff)
    then show ?thesis using 3 l by (simp add: t defs)
  next
    case 4
    have "dc (drop_key_q (chan s)) = []" "live s = []" using 4 l by (simp_all add: kv_loop_def)
    moreover from this have "using_keys (rcv s) = []"
      using keys_inv_distinct(2) [OF ksys_invD(1) [OF i]] 4 by (simp add: live_keys_def)
    ultimately have "pc = KLoad" "c = chan s" "r = rcv s" using 4 st by (simp_all add: dq.is_empty_iff)
    then show ?thesis using 4 l by (simp add: t defs)
  next
    case 5
    have "senders_dropped (chan s)" using d by (simp add: kv_draining_def)
    then have "pc = KRet None" "c = chan s" "r = rcv s" using 5 st by simp_all
    then show ?thesis using 5 l by (simp add: t defs)
  qed
qed

lemma loop_next:
  assumes i: "ksys_inv qc dc E act s" and d: "kv_draining qc s" and l: "kv_loop dc s"
    and st: "kv_consume_next Q D E s x = Some t"
  shows "kv_loop dc t \<and> kv_left qc dc t + (if kv_consumer x then 1 else 0) \<le> kv_left qc dc s"
proof -
  note n = consume_nextD(1) [OF st]
  note ns = no_sender_left [OF ksys_invD(6) [OF i]] and defs = kv_loop_def kv_left_def kv_undelivered_def kv_queued_def
  have sd: "senders_dropped (chan s)" using d by (simp add: kv_draining_def)
  show ?thesis
  proof (cases x)
    case KlRx
    then have rx: "ksys_next Q D E s KlRx = Some t" using n by simp
    then show ?thesis
    proof (cases rule: ksys_rxE)
      case (ret m)
      then show ?thesis using rx l KlRx by (cases m) (auto simp: defs)
    next
      case (step pc c r)
      then show ?thesis using loop_pop [OF i d l step] kch.inv_step [OF i n] KlRx by simp
    qed
  next
    case (KlTx u)
    obtain pc c where c: "ksend_step Q E (spc s u) (chan s) = Some (pc, c)" and t: "t = s\<lparr>chan := c, spc := (spc s)(u := pc)\<rparr>"
      using n KlTx by (auto split: option.splits)
    show ?thesis using send_step_keeps [OF c ns(2) [OF sd]] l t KlTx by (cases "rpc s") (simp_all add: defs)
  next
    case (KlDropMsg j)
    then have j: "j < length (live s)" using n by (auto split: if_splits)
    then have r: "rpc s = KIdle" "length (live s) = 1" "closing s = 0" "j = 0"
      using l by (auto simp: kv_loop_def split: krpc.splits)
    then obtain m where m: "live s = [m]" by (cases "live s") auto
    obtain k where k: "msg_k m = Some k" using ksys_invD(1) [OF i] m by (auto simp: keys_inv_def)
    have "t = s\<lparr>chan := (chan s)\<lparr>drop_key_q := sq_push D (drop_key_q (chan s)) k\<rparr>, live := [], closing := 1\<rparr>"
      using n KlDropMsg r m k by (simp add: remove_nth_def)
    then show ?thesis using r m KlDropMsg by (simp add: defs dq.contents_push)
  next
    case KlRecv
    then have r: "rpc s = KIdle" "live s = []" "closing s = 0" using consume_nextD(2) st by blast+
    then have "t = s\<lparr>rpc := KDrop\<rparr>" using n KlRecv by (simp add: krfree_def)
    then show ?thesis using r KlRecv by (simp add: defs)
  next
    case KlNotify
    then have c: "0 < closing s" and t: "t = s\<lparr>chan := (chan s)\<lparr>wake_recv_event := ev_notify E (wake_recv_event (chan s)) 1\<rparr>,
        closing := closing s - 1\<rparr>" using n by (auto split: if_splits)
    have "rpc s = KIdle" using l c by (auto simp: kv_loop_def split: krpc.splits)
    then show ?thesis using l c t KlNotify by (simp add: defs)
  next
    case KlDropRx
    then show ?thesis using st by (simp add: kv_consume_next_def)
  qed (use n ns(1) [OF sd] in \<open>simp_all\<close>)
qed

lemma loop_enabled:
  assumes d: "kv_draining qc s" and l: "kv_loop dc s" and c: "rpc s \<noteq> KClosed"
  shows "\<exists>x. kv_consumer x \<and> kv_consume_next Q D E s x \<noteq> None"
proof (cases "rpc s = KIdle")
  case True
  consider "live s \<noteq> []" | "live s = []" "closing s = 0" | "0 < closing s" by blast
  then show ?thesis
  proof cases
    case 1
    then have "kv_consume_next Q D E s (KlDropMsg 0) \<noteq> None" by (simp add: kv_consume_next_def split: option.splits)
    then show ?thesis by (metis kv_consumer.simps(3))
  next
    case 2
    then have "kv_consume_next Q D E s KlRecv \<noteq> None" using True by (simp add: kv_consume_next_def krfree_def)
    then show ?thesis by (metis kv_consumer.simps(1))
  next
    case 3
    then have "kv_consume_next Q D E s KlNotify \<noteq> None" by (simp add: kv_consume_next_def)
    then show ?thesis by (metis kv_consumer.simps(4))
  qed
next
  case False
  then have "kv_consume_next Q D E s KlRx \<noteq> None"
    using l c by (cases "rpc s") (auto simp: kv_consume_next_def kv_loop_def split: option.splits prod.splits)
  then show ?thesis by (metis kv_consumer.simps(2))
qed

end

sublocale kv_ops \<subseteq> kdr: terminating "kv_consume_next Q D E" kv_consumer
  "\<lambda>s. ksys_inv qc dc E act s \<and> kv_draining qc s \<and> kv_loop dc s" "\<lambda>s. rpc s = KClosed" "kv_left qc dc"
proof (unfold_locales, goal_cases)
  case (1 s x t)
  then show ?case using loop_next kch.inv_step draining_next consume_nextD(1) by blast
next
  case (2 s x t)
  then show ?case using loop_next by blast
next
  case (3 s)
  then show ?case using loop_enabled by blast
qed

context kv_ops
begin

lemmas kv_consume_bound = kdr.tm_bound and kv_consume_enabled = kdr.tm_enabled

lemma consume_exec: "exec (kv_consume_next Q D E) s ls = Some t \<Longrightarrow> exec (ksys_next Q D E) s ls = Some t"
  by (induction ls arbitrary: s) (auto split: option.splits dest: consume_nextD(1))

end

text \<open>
  C7: draining terminates.  When the last sender has set the flag and no message is held, the loop that
  calls \<open>recv\<close> and drops the message until \<open>Closed\<close> ends in every interleaving with the remaining steps of the
  threads that had senders: its steps are bounded by the numbers of undelivered messages and queued
  entries, it never stands in \<open>wait\<close>, it can always take its next step until \<open>Closed\<close>, and at \<open>Closed\<close> every
  message was handed out, those of one key in the order of their sends.
\<close>

theorem kv_drains:
  assumes ops: "seg_queue Q qc" "seg_queue D dc" "event E act"
    and r: "reaches (ksys_next Q D E) (channel Q D E) s"
    and s: "senders_dropped (chan s)" "rpc s = KIdle" "live s = []" "closing s = 0"
    and run: "exec (kv_consume_next Q D E) s ls = Some t"
  shows "length (filter kv_consumer ls) \<le> 6 * (length (sent (chan s)) - length (delivered (rcv s))) +
      7 * (length (qc (msg_q (chan s))) + length (dc (drop_key_q (chan s)))) + 7 \<and>
    (\<forall>l. rpc t \<noteq> KWait l) \<and>
    (if rpc t = KClosed then \<forall>k. of_key k (delivered (rcv t)) = of_key k (sent (chan t))
     else \<exists>x. kv_consumer x \<and> kv_consume_next Q D E t x \<noteq> None)"
proof -
  note kv = kv_opsI [OF ops]
  note i = kv_ops.ksys_reaches_inv [OF kv r]
  have d: "kv_draining qc s" and l: "kv_loop dc s" using s by (simp_all add: kv_draining_def kv_loop_def)
  note B = kv_ops.kv_consume_bound [OF kv _ run]
  have "kv_loop dc t" "length (filter kv_consumer ls) \<le> kv_left qc dc s" using B i d l by auto
  moreover have "\<exists>x. kv_consumer x \<and> kv_consume_next Q D E t x \<noteq> None" if "rpc t \<noteq> KClosed"
    using kv_ops.kv_consume_enabled [OF kv _ that] B i d l by blast
  moreover have "of_key k (delivered (rcv t)) = of_key k (sent (chan t))" if "rpc t = KClosed" for k
    using kv_ops.closed_all_delivered [OF kv i d kv_ops.consume_exec [OF kv run] that] by blast
  ultimately show ?thesis using s by (auto simp: kv_loop_def kv_left_def kv_undelivered_def kv_queued_def)
qed

theorem kv_drains_witness:
  "\<exists>(s :: list_ksys) ls t. reaches (ksys_next list_segq list_segq list_event) (channel list_segq list_segq list_event) s \<and>
     msg_q (chan s) = [(5, 71), (5, 72)] \<and> exec (kv_consume_next list_segq list_segq list_event) s ls = Some t \<and>
     rpc t = KClosed \<and> of_key 5 (delivered (rcv t)) = of_key 5 (sent (chan t))"
proof -
  let ?n = "ksys_next list_segq list_segq list_event :: list_ksys \<Rightarrow> _"
  let ?c = "channel list_segq list_segq list_event :: list_ksys"
  let ?as = "[KlSend 0 5 71, KlTx 0, KlTx 0, KlTx 0, KlSend 0 5 72, KlTx 0, KlTx 0, KlTx 0, KlDropTx 0, KlTx 0]
    :: (nat, nat) klabel list"
  let ?bs = "[KlRecv, KlRx, KlRx, KlTx 0, KlRx, KlDropMsg 0, KlNotify, KlRecv, KlRx, KlRx, KlRx, KlRx,
    KlDropMsg 0, KlNotify, KlRecv] @ replicate 7 KlRx :: (nat, nat) klabel list"
  let ?P = "\<lambda>s :: list_ksys. senders_dropped (chan s) \<and> rpc s = KIdle \<and> live s = [] \<and> closing s = 0 \<and>
    msg_q (chan s) = [(5, 71), (5, 72)] \<and> run_ok (kv_consume_next list_segq list_segq list_event) s ?bs (\<lambda>t. rpc t = KClosed)"
  have "run_ok ?n ?c ?as ?P" by code_simp
  then obtain s where e: "exec ?n ?c ?as = Some s" and p: "?P s" by (blast dest: run_ok_exec)
  from p obtain t where b: "exec (kv_consume_next list_segq list_segq list_event) s ?bs = Some t" and q: "rpc t = KClosed"
    by (blast dest: run_ok_exec)
  have "of_key 5 (delivered (rcv t)) = of_key 5 (sent (chan t))"
    using kv_drains [OF seg_queue_list seg_queue_list event_list reachesI [OF e] _ _ _ _ b] p q by simp
  with reachesI [OF e] p b q show ?thesis by blast
qed

end
