(* ===== verification/ConflictManager.thy ===== *)
theory ConflictManager imports BTreeMaps begin

text \<open>
  The conflict manager of \<open>kv_mpsc_multik.rs\<close>: messages with several keys; a message with a key in use
  waits.  Key states and waiting messages are shared objects (\<open>Rc<RefCell<..>>\<close>), so both live in a
  heap indexed by addresses; a waiting message is freed when it leaves the manager's map, and a
  \<open>Weak\<close> reference to it is its address.  \<open>HashMap\<close> is an association list; the order in which the
  map of a key state is iterated is the argument \<open>it\<close>, which depends on the address of the key state as well
  as on the entries: each map has its own \<open>RandomState\<close>.  Every assertion, \<open>unwrap\<close> and \<open>panic!\<close> is a branch.
\<close>

section \<open>Hash maps and objects\<close>

type_synonym ('k, 'v) hmap = "('k \<times> 'v) list"
type_synonym addr = nat

definition hm_insert :: "'k \<Rightarrow> 'v \<Rightarrow> ('k, 'v) hmap \<Rightarrow> ('k, 'v) hmap" where
  "hm_insert k v m = (k, v) # filter (\<lambda>x. fst x \<noteq> k) m"

definition hm_remove :: "'k \<Rightarrow> ('k, 'v) hmap \<Rightarrow> ('k, 'v) hmap" where
  "hm_remove k m = filter (\<lambda>x. fst x \<noteq> k) m"

record 'k key_state =
  ks_key :: "'k option"
  ks_using :: bool
  ks_waiting :: "(i32, addr) hmap"

record 'v waiting_msg =
  wm_ks_v :: "(addr list \<times> 'v) option"
  wm_id :: i32

record ('k, 'v) cmanager =
  cm_waitingmsgs :: "(i32, addr) hmap"
  keys_states :: "('k, addr) btree"
  next_id :: i32
  khp :: "addr \<Rightarrow> 'k key_state"
  knext :: addr
  whp :: "addr \<Rightarrow> 'v waiting_msg option"
  wnext :: addr

definition key_state_new :: "'k \<Rightarrow> 'k key_state" where
  "key_state_new k = \<lparr>ks_key = Some k, ks_using = False, ks_waiting = []\<rparr>"

definition cm_new :: "('k, 'v) cmanager" where
  "cm_new = \<lparr>cm_waitingmsgs = [], keys_states = [], next_id = 0,
     khp = (\<lambda>_. \<lparr>ks_key = None, ks_using = False, ks_waiting = []\<rparr>), knext = 0,
     whp = (\<lambda>_. None), wnext = 0\<rparr>"

definition upd_ks :: "addr \<Rightarrow> ('k key_state \<Rightarrow> 'k key_state) \<Rightarrow> ('k, 'v) cmanager \<Rightarrow> ('k, 'v) cmanager" where
  "upd_ks a f cm = cm\<lparr>khp := (khp cm)(a := f (khp cm a))\<rparr>"

section \<open>Operations of a key state\<close>

definition key_using :: "('k, 'v) cmanager \<Rightarrow> addr \<Rightarrow> bool" where
  "key_using cm a = ks_using (khp cm a)"

definition set_use :: "addr \<Rightarrow> ('k, 'v) cmanager \<Rightarrow> panic + ('k, 'v) cmanager" where
  "set_use a cm = (if key_using cm a then Inl AssertFailed else Inr (upd_ks a (\<lambda>s. s\<lparr>ks_using := True\<rparr>) cm))"

definition set_unuse :: "addr \<Rightarrow> ('k, 'v) cmanager \<Rightarrow> panic + ('k, 'v) cmanager" where
  "set_unuse a cm = (if key_using cm a then Inr (upd_ks a (\<lambda>s. s\<lparr>ks_using := False\<rparr>) cm) else Inl AssertFailed)"

text \<open>\<open>try_set_use\<close>: the state \<open>self\<close> is borrowed by the caller's loop, so \<open>try_borrow_mut\<close> on it fails.\<close>

definition try_set_use :: "addr \<Rightarrow> addr \<Rightarrow> ('k, 'v) cmanager \<Rightarrow> panic + ('k, 'v) cmanager" where
  "try_set_use self a cm = (if a = self then Inr cm else set_use a cm)"

fun try_set_use_all :: "addr \<Rightarrow> addr list \<Rightarrow> ('k, 'v) cmanager \<Rightarrow> panic + ('k, 'v) cmanager" where
  "try_set_use_all self [] cm = Inr cm"
| "try_set_use_all self (a # as) cm = bindE (try_set_use self a cm) (try_set_use_all self as)"

definition add_waitingmsg :: "addr \<Rightarrow> addr \<Rightarrow> ('k, 'v) cmanager \<Rightarrow> panic + ('k, 'v) cmanager" where
  "add_waitingmsg a w cm = (case whp cm w of
     None \<Rightarrow> Inl ExplicitPanic
   | Some b \<Rightarrow> Inr (upd_ks a (\<lambda>s. s\<lparr>ks_waiting := hm_insert (wm_id b) w (ks_waiting s)\<rparr>) cm))"

definition remove_waitingmsg :: "addr \<Rightarrow> i32 \<Rightarrow> ('k, 'v) cmanager \<Rightarrow> panic + ('k, 'v) cmanager" where
  "remove_waitingmsg a i cm = (case map_of (ks_waiting (khp cm a)) i of
     None \<Rightarrow> Inl AssertFailed
   | Some _ \<Rightarrow> Inr (upd_ks a (\<lambda>s. s\<lparr>ks_waiting := hm_remove i (ks_waiting s)\<rparr>) cm))"

text \<open>The search loop of \<open>try_get_stop_waiting_msg\<close>: the first waiting message none of whose keys is in use.\<close>

fun find_free :: "addr \<Rightarrow> (i32 \<times> addr) list \<Rightarrow> ('k, 'v) cmanager \<Rightarrow> panic + (i32 option \<times> ('k, 'v) cmanager)" where
  "find_free self [] cm = Inr (None, cm)"
| "find_free self ((i, w) # ws) cm = (case whp cm w of
     None \<Rightarrow> Inl ExplicitPanic
   | Some m \<Rightarrow> (case wm_ks_v m of
       None \<Rightarrow> Inl ExplicitPanic
     | Some (as, v) \<Rightarrow>
         if list_ex (key_using cm) as then find_free self ws cm
         else bindE (try_set_use_all self as cm) (\<lambda>cm. Inr (Some i, cm))))"

definition try_get_stop_waiting_msg :: "(addr \<Rightarrow> (i32 \<times> addr) list \<Rightarrow> (i32 \<times> addr) list) \<Rightarrow> addr \<Rightarrow>
    ('k, 'v) cmanager \<Rightarrow> panic + (i32 option \<times> ('k, 'v) cmanager)" where
  "try_get_stop_waiting_msg it a cm =
     bindE (find_free a (it a (ks_waiting (khp cm a))) cm) (\<lambda>(r, cm). case r of
       None \<Rightarrow> Inr (None, cm)
     | Some i \<Rightarrow> bindE (set_use a cm) (\<lambda>cm. bindE (remove_waitingmsg a i cm) (\<lambda>cm. Inr (Some i, cm))))"

section \<open>Operations of a waiting message\<close>

text \<open>\<open>take_kv\<close> pops the key states from the back.\<close>

fun take_keys :: "('k, 'v) cmanager \<Rightarrow> addr list \<Rightarrow> panic + 'k list" where
  "take_keys cm [] = Inr []"
| "take_keys cm (a # as) = (case ks_key (khp cm a) of
     None \<Rightarrow> Inl ExplicitPanic
   | Some k \<Rightarrow> bindE (take_keys cm as) (\<lambda>ks. Inr (k # ks)))"

definition take_kv :: "('k, 'v) cmanager \<Rightarrow> 'v waiting_msg \<Rightarrow> panic + ('k list \<times> 'v)" where
  "take_kv cm m = (case wm_ks_v m of
     None \<Rightarrow> Inl ExplicitPanic
   | Some (as, v) \<Rightarrow> bindE (take_keys cm (rev as)) (\<lambda>ks. Inr (ks, v)))"

definition add_kstate :: "addr \<Rightarrow> addr \<Rightarrow> ('k, 'v) cmanager \<Rightarrow> panic + ('k, 'v) cmanager" where
  "add_kstate w a cm = (case whp cm w of
     None \<Rightarrow> Inl UseAfterFree
   | Some m \<Rightarrow> (case wm_ks_v m of
       None \<Rightarrow> Inl ExplicitPanic
     | Some (as, v) \<Rightarrow> Inr (cm\<lparr>whp := (whp cm)(w \<mapsto> m\<lparr>wm_ks_v := Some (as @ [a], v)\<rparr>)\<rparr>)))"

section \<open>Operations of the manager\<close>

text \<open>
  The body of the loop of \<open>unuse_all_droped_key\<close> for one released key.  A message returned leaves the
  map of waiting messages, its last strong reference, so its object is freed.
\<close>

definition unuse_droped_key :: "(addr \<Rightarrow> (i32 \<times> addr) list \<Rightarrow> (i32 \<times> addr) list) \<Rightarrow> 'k::linorder \<Rightarrow>
    ('k, 'v) cmanager \<Rightarrow> panic + (('k list \<times> 'v) option \<times> ('k, 'v) cmanager)" where
  "unuse_droped_key it k cm = (case bt_get (keys_states cm) k of
     None \<Rightarrow> Inl ExplicitPanic
   | Some a \<Rightarrow> bindE (set_unuse a cm) (\<lambda>cm. bindE (try_get_stop_waiting_msg it a cm) (\<lambda>(r, cm).
       case r of
         Some i \<Rightarrow> (case map_of (cm_waitingmsgs cm) i of
             None \<Rightarrow> Inl ExplicitPanic
           | Some w \<Rightarrow> (case whp cm w of
               None \<Rightarrow> Inl UseAfterFree
             | Some m \<Rightarrow> bindE (take_kv cm m) (\<lambda>kv. Inr (Some kv,
                 cm\<lparr>cm_waitingmsgs := hm_remove i (cm_waitingmsgs cm), whp := (whp cm)(w := None)\<rparr>))))
       | None \<Rightarrow> Inr (None, if ks_waiting (khp cm a) = []
           then cm\<lparr>keys_states := bt_remove k (keys_states cm)\<rparr> else cm))))"

definition waitingmsgs_exist :: "('k, 'v) cmanager \<Rightarrow> bool" where
  "waitingmsgs_exist cm \<longleftrightarrow> cm_waitingmsgs cm \<noteq> []"

text \<open>\<open>new_waiting_msg\<close> and its \<open>Rc::new\<close>; \<open>oc\<close> says whether the build checks integer overflow.\<close>

definition new_waiting_msg :: "bool \<Rightarrow> 'v \<Rightarrow> ('k, 'v) cmanager \<Rightarrow> panic + (addr \<times> ('k, 'v) cmanager)" where
  "new_waiting_msg oc v cm =
     (if oc \<and> next_id cm = 2 ^ 31 - 1 then Inl ArithOverflow
      else Inr (wnext cm, cm\<lparr>next_id := next_id cm + 1, wnext := Suc (wnext cm),
        whp := (whp cm)(wnext cm \<mapsto> \<lparr>wm_ks_v = Some ([], v), wm_id = next_id cm\<rparr>)\<rparr>))"

text \<open>\<open>keys_states.entry(k).or_insert_with(|| KeyStateShared::new(k))\<close>.\<close>

definition key_entry :: "'k::linorder \<Rightarrow> ('k, 'v) cmanager \<Rightarrow> addr \<times> ('k, 'v) cmanager" where
  "key_entry k cm = (case bt_get (keys_states cm) k of
     Some a \<Rightarrow> (a, cm)
   | None \<Rightarrow> (knext cm, cm\<lparr>keys_states := bt_insert k (knext cm) (keys_states cm),
       khp := (khp cm)(knext cm := key_state_new k), knext := Suc (knext cm)\<rparr>))"

text \<open>The loop that registers the waiting message \<open>w\<close> under its keys; the keys in the order popped.\<close>

fun register_waiting :: "addr \<Rightarrow> 'k::linorder list \<Rightarrow> ('k, 'v) cmanager \<Rightarrow> panic + ('k, 'v) cmanager" where
  "register_waiting w [] cm = Inr cm"
| "register_waiting w (k # ks) cm = (case key_entry k cm of (a, cm) \<Rightarrow>
     bindE (add_kstate w a cm) (\<lambda>cm. bindE (add_waitingmsg a w cm) (register_waiting w ks)))"

fun use_all :: "'k::linorder list \<Rightarrow> ('k, 'v) cmanager \<Rightarrow> panic + ('k, 'v) cmanager" where
  "use_all [] cm = Inr cm"
| "use_all (k # ks) cm = (case key_entry k cm of (a, cm) \<Rightarrow> bindE (set_use a cm) (use_all ks))"

definition key_in_use :: "('k::linorder, 'v) cmanager \<Rightarrow> 'k \<Rightarrow> bool" where
  "key_in_use cm k = (case bt_get (keys_states cm) k of None \<Rightarrow> False | Some a \<Rightarrow> key_using cm a)"

definition handle_new_msg :: "bool \<Rightarrow> 'k::linorder list \<Rightarrow> 'v \<Rightarrow> ('k, 'v) cmanager \<Rightarrow>
    panic + (('k list \<times> 'v) option \<times> ('k, 'v) cmanager)" where
  "handle_new_msg oc ks v cm =
     (if list_ex (key_in_use cm) ks then
        bindE (new_waiting_msg oc v cm) (\<lambda>(w, cm). bindE (register_waiting w (rev ks) cm) (\<lambda>cm.
          case whp cm w of
            None \<Rightarrow> Inl UseAfterFree
          | Some m \<Rightarrow> if map_of (cm_waitingmsgs cm) (wm_id m) \<noteq> None then Inl AssertFailed
              else Inr (None, cm\<lparr>cm_waitingmsgs := hm_insert (wm_id m) w (cm_waitingmsgs cm)\<rparr>)))
      else bindE (use_all ks cm) (\<lambda>cm. Inr (Some (ks, v), cm)))"

end
