(* ===== verification/ConflictProofs.thy ===== *)
theory ConflictProofs imports ConflictManager begin

text \<open>
  Correctness of the conflict manager for runs that do not panic: the keys in use are exactly those of
  the messages handed out, a message is handed out only when none of its keys is in use, every
  waiting message has a key in use, and no message is lost.  (That it does not panic with messages of
  a single key is in theory \<open>SingleKey\<close>.)
\<close>

section \<open>Elementary facts\<close>

lemma upd_ks_simps [simp]:
  "khp (upd_ks a f cm) = (khp cm)(a := f (khp cm a))"
  "cm_waitingmsgs (upd_ks a f cm) = cm_waitingmsgs cm"
  "keys_states (upd_ks a f cm) = keys_states cm"
  "next_id (upd_ks a f cm) = next_id cm"
  "knext (upd_ks a f cm) = knext cm"
  "whp (upd_ks a f cm) = whp cm"
  "wnext (upd_ks a f cm) = wnext cm"
  by (simp_all add: upd_ks_def)

lemma set_hm_insert: "set (hm_insert k v m) = insert (k, v) {x \<in> set m. fst x \<noteq> k}"
  by (auto simp: hm_insert_def)

lemma set_hm_remove: "set (hm_remove k m) = {x \<in> set m. fst x \<noteq> k}"
  by (auto simp: hm_remove_def)

lemma distinct_hm [simp]:
  "distinct (map fst m) \<Longrightarrow> distinct (map fst (hm_insert k v m))"
  "distinct (map fst m) \<Longrightarrow> distinct (map fst (hm_remove k m))"
  by (auto simp: hm_insert_def hm_remove_def distinct_map_filter)

lemma mem_map_of: "distinct (map fst m) \<Longrightarrow> (k, v) \<in> set m \<longleftrightarrow> map_of m k = Some v"
  by (auto intro: map_of_is_SomeI dest: map_of_SomeD)

section \<open>The invariant\<close>

text \<open>
  \<open>wm_ok cm i w\<close>: the waiting message \<open>w\<close> with id \<open>i\<close> is allocated, its key states are registered objects
  that know it, each once.  \<open>cm_inv\<close>: the map of key states is well formed; waiting messages are
  well formed and each has a key in use; an allocated message is in the map; an entry of a key state
  that still refers to an allocated message refers to one with that id and that key (the entry may
  also be stale: refer to a message that is gone).
\<close>

definition wm_ok :: "('k::linorder, 'v) cmanager \<Rightarrow> i32 \<Rightarrow> addr \<Rightarrow> bool" where
  "wm_ok cm i w \<longleftrightarrow> (\<exists>as v. whp cm w = Some \<lparr>wm_ks_v = Some (as, v), wm_id = i\<rparr> \<and> distinct as \<and>
     (\<forall>a \<in> set as. a \<in> snd ` set (keys_states cm) \<and> (i, w) \<in> set (ks_waiting (khp cm a))))"

definition wm_blocked :: "('k, 'v) cmanager \<Rightarrow> addr \<Rightarrow> bool" where
  "wm_blocked cm w \<longleftrightarrow> (\<exists>m as v. whp cm w = Some m \<and> wm_ks_v m = Some (as, v) \<and> list_ex (key_using cm) as)"

definition keys_ok :: "('k::linorder, 'v) cmanager \<Rightarrow> bool" where
  "keys_ok cm \<longleftrightarrow> bt_ok (keys_states cm) \<and>
     (\<forall>(k, a) \<in> set (keys_states cm). a < knext cm \<and> ks_key (khp cm a) = Some k)"

definition entries_ok :: "('k, 'v) cmanager \<Rightarrow> bool" where
  "entries_ok cm \<longleftrightarrow> (\<forall>a. \<forall>(i, w) \<in> set (ks_waiting (khp cm a)). w < wnext cm \<and>
     (\<forall>m. whp cm w = Some m \<longrightarrow> wm_id m = i \<and> (\<forall>as v. wm_ks_v m = Some (as, v) \<longrightarrow> a \<in> set as)))"

definition cm_inv :: "('k::linorder, 'v) cmanager \<Rightarrow> bool" where
  "cm_inv cm \<longleftrightarrow> keys_ok cm \<and> entries_ok cm \<and> distinct (map fst (cm_waitingmsgs cm)) \<and>
     (\<forall>(i, w) \<in> set (cm_waitingmsgs cm). wm_ok cm i w \<and> wm_blocked cm w) \<and>
     (\<forall>w m. whp cm w = Some m \<longrightarrow> w < wnext cm \<and> (wm_id m, w) \<in> set (cm_waitingmsgs cm))"

definition used :: "('k::linorder, 'v) cmanager \<Rightarrow> 'k set" where
  "used cm = {k. key_in_use cm k}"

definition msg_of :: "('k, 'v) cmanager \<Rightarrow> addr \<Rightarrow> ('k list \<times> 'v)" where
  "msg_of cm w = (case whp cm w of Some m \<Rightarrow> (case wm_ks_v m of Some (as, v) \<Rightarrow>
     (map (\<lambda>a. the (ks_key (khp cm a))) (rev as), v)))"

definition waiting_items :: "('k, 'v) cmanager \<Rightarrow> ('k list \<times> 'v) multiset" where
  "waiting_items cm = mset (map (\<lambda>x. msg_of cm (snd x)) (cm_waitingmsgs cm))"

lemma cm_inv_new: "cm_inv cm_new" "used cm_new = {}" "waiting_items cm_new = {#}"
  by (simp_all add: cm_inv_def cm_new_def keys_ok_def entries_ok_def used_def key_in_use_def waiting_items_def)

lemma keys_ok_get:
  "keys_ok cm \<Longrightarrow> bt_get (keys_states cm) k = Some a \<longleftrightarrow> (k, a) \<in> set (keys_states cm)"
  by (simp add: keys_ok_def bt_ok_mem_get)

lemma keys_ok_addr:
  "keys_ok cm \<Longrightarrow> (k, a) \<in> set (keys_states cm) \<Longrightarrow> (k', a) \<in> set (keys_states cm) \<Longrightarrow> k = k'"
proof -
  assume "keys_ok cm" "(k, a) \<in> set (keys_states cm)" "(k', a) \<in> set (keys_states cm)"
  then have "ks_key (khp cm a) = Some k" "ks_key (khp cm a) = Some k'" by (auto simp: keys_ok_def)
  then show ?thesis by simp
qed

lemma used_iff: "keys_ok cm \<Longrightarrow> k \<in> used cm \<longleftrightarrow> (\<exists>a. (k, a) \<in> set (keys_states cm) \<and> key_using cm a)"
  by (auto simp: used_def key_in_use_def keys_ok_get [symmetric] split: option.splits)

section \<open>Setting and clearing \<open>using\<close>\<close>

text \<open>
  \<open>same_but_using cm cm'\<close>: the two managers differ in the \<open>using\<close> flags only.
\<close>

definition same_but_using :: "('k, 'v) cmanager \<Rightarrow> ('k, 'v) cmanager \<Rightarrow> bool" where
  "same_but_using cm cm' \<longleftrightarrow> cm_waitingmsgs cm' = cm_waitingmsgs cm \<and> keys_states cm' = keys_states cm \<and>
     next_id cm' = next_id cm \<and> knext cm' = knext cm \<and> whp cm' = whp cm \<and> wnext cm' = wnext cm \<and>
     (\<forall>a. ks_key (khp cm' a) = ks_key (khp cm a) \<and> ks_waiting (khp cm' a) = ks_waiting (khp cm a))"

lemma same_refl [simp]: "same_but_using cm cm"
  by (simp add: same_but_using_def)

lemma same_trans: "same_but_using cm cm' \<Longrightarrow> same_but_using cm' cm'' \<Longrightarrow> same_but_using cm cm''"
  by (simp add: same_but_using_def)

lemma same_keys_ok: "same_but_using cm cm' \<Longrightarrow> keys_ok cm' = keys_ok cm"
  by (simp add: same_but_using_def keys_ok_def)

lemma same_entries_ok: "same_but_using cm cm' \<Longrightarrow> entries_ok cm' = entries_ok cm"
  by (simp add: same_but_using_def entries_ok_def)

lemma same_wm_ok: "same_but_using cm cm' \<Longrightarrow> wm_ok cm' i w = wm_ok cm i w"
  by (simp add: same_but_using_def wm_ok_def)

lemma same_msg_of: "same_but_using cm cm' \<Longrightarrow> msg_of cm' = msg_of cm"
  by (auto simp: same_but_using_def msg_of_def fun_eq_iff split: option.splits)

lemma same_waiting_items: "same_but_using cm cm' \<Longrightarrow> waiting_items cm' = waiting_items cm"
  by (simp add: waiting_items_def same_msg_of) (simp add: same_but_using_def)

lemma set_use_ok:
  assumes "set_use a cm = Inr cm'"
  shows "same_but_using cm cm' \<and> \<not> key_using cm a \<and> key_using cm' = (key_using cm)(a := True)"
  using assms by (auto simp: set_use_def same_but_using_def key_using_def fun_eq_iff split: if_splits)

lemma set_unuse_ok:
  assumes "set_unuse a cm = Inr cm'"
  shows "same_but_using cm cm' \<and> key_using cm a \<and> key_using cm' = (key_using cm)(a := False)"
  using assms by (auto simp: set_unuse_def same_but_using_def key_using_def fun_eq_iff split: if_splits)

lemma try_set_use_all_ok:
  "try_set_use_all self as cm = Inr cm' \<Longrightarrow> distinct as \<Longrightarrow>
    same_but_using cm cm' \<and> key_using cm' = (\<lambda>a. a \<noteq> self \<and> a \<in> set as \<or> key_using cm a)"
proof (induction as arbitrary: cm)
  case (Cons a as)
  from Cons.prems obtain c where c: "try_set_use self a cm = Inr c" "try_set_use_all self as c = Inr cm'"
    by (auto simp: bindE_Inr_iff)
  have "same_but_using cm c \<and> key_using c = (\<lambda>b. b \<noteq> self \<and> b = a \<or> key_using cm b)"
    using c(1) set_use_ok [of a cm c] by (auto simp: try_set_use_def fun_eq_iff split: if_splits)
  with Cons.IH [OF c(2)] Cons.prems(2) show ?case by (auto simp: fun_eq_iff intro: same_trans)
qed auto

lemma find_free_ok:
  assumes "find_free self ws cm = Inr (r, cm')" "\<forall>(i, w) \<in> set ws. \<forall>m as v. whp cm w = Some m \<longrightarrow>
     wm_ks_v m = Some (as, v) \<longrightarrow> distinct as"
  shows "case r of
      None \<Rightarrow> cm' = cm \<and> (\<forall>(i, w) \<in> set ws. wm_blocked cm w)
    | Some i \<Rightarrow> same_but_using cm cm' \<and> (\<exists>w m as v. (i, w) \<in> set ws \<and> whp cm w = Some m \<and> wm_ks_v m = Some (as, v) \<and>
        \<not> list_ex (key_using cm) as \<and> key_using cm' = (\<lambda>a. a \<noteq> self \<and> a \<in> set as \<or> key_using cm a))"
  using assms
proof (induction self ws cm rule: find_free.induct)
  case (2 self i w ws cm)
  from "2.prems"(1) obtain m as v where m: "whp cm w = Some m" "wm_ks_v m = Some (as, v)"
    by (auto split: option.splits)
  show ?case
  proof (cases "list_ex (key_using cm) as")
    case True
    with m "2.prems" have f: "find_free self ws cm = Inr (r, cm')" by simp
    from 2(1) [OF m(1,2) refl True f] "2.prems"(2) True m show ?thesis
      by (fastforce simp: wm_blocked_def split: option.splits)
  next
    case False
    with m "2.prems" obtain c where "try_set_use_all self as cm = Inr c" "r = Some i" "cm' = c"
      by (auto simp: bindE_Inr_iff)
    with try_set_use_all_ok [of self as cm c] m False "2.prems"(2) show ?thesis by fastforce
  qed
qed simp

section \<open>Releasing a key\<close>

lemma keys_ok_key:
  "keys_ok cm \<Longrightarrow> b \<in> snd ` set (keys_states cm) \<Longrightarrow> (the (ks_key (khp cm b)), b) \<in> set (keys_states cm)"
  by (fastforce simp: keys_ok_def)

lemma msg_of_cong:
  "whp c' w = whp c w \<Longrightarrow> (\<And>a. ks_key (khp c' a) = ks_key (khp c a)) \<Longrightarrow> msg_of c' w = msg_of c w"
  by (auto simp: msg_of_def split: option.splits)

lemma entries_okD:
  assumes "entries_ok cm" "(i, w) \<in> set (ks_waiting (khp cm a))"
  shows "w < wnext cm" "whp cm w = Some m \<Longrightarrow> wm_id m = i"
    "whp cm w = Some m \<Longrightarrow> wm_ks_v m = Some (as, v) \<Longrightarrow> a \<in> set as"
  using assms unfolding entries_ok_def by fastforce+

lemma entries_ok_mono:
  assumes "entries_ok cm" "wnext cm \<le> wnext c'"
    and "\<And>a. set (ks_waiting (khp c' a)) \<subseteq> set (ks_waiting (khp cm a))"
    and "\<And>w m. whp c' w = Some m \<Longrightarrow> whp cm w = Some m"
  shows "entries_ok c'"
  unfolding entries_ok_def
proof (intro allI ballI, clarify)
  fix a i w assume "(i, w) \<in> set (ks_waiting (khp c' a))"
  with assms(3) have iw: "(i, w) \<in> set (ks_waiting (khp cm a))" by blast
  from entries_okD [OF assms(1) iw] assms(2,4)
  show "w < wnext c' \<and> (\<forall>m. whp c' w = Some m \<longrightarrow> wm_id m = i \<and> (\<forall>as v. wm_ks_v m = Some (as, v) \<longrightarrow> a \<in> set as))"
    by (meson order_less_le_trans)
qed

lemma keys_ok_unique:
  assumes "keys_ok cm" "(k, a) \<in> set (keys_states cm)" "(k, a') \<in> set (keys_states cm)"
  shows "a = a'"
  using assms keys_ok_get [OF assms(1), of k] by (metis option.inject)

lemma take_keys_ok: "take_keys cm as = Inr ks \<Longrightarrow> ks = map (\<lambda>a. the (ks_key (khp cm a))) as"
  by (induction as arbitrary: ks) (auto simp: bindE_Inr_iff split: option.splits)

lemma mset_hm_remove:
  "distinct (map fst m) \<Longrightarrow> (i, w) \<in> set m \<Longrightarrow> mset m = add_mset (i, w) (mset (hm_remove i m))"
proof (induction m)
  case (Cons x m)
  show ?case
  proof (cases "fst x = i")
    case True
    with Cons.prems have "i \<notin> fst ` set m" "x = (i, w)" by (auto simp: rev_image_eqI)
    moreover from this(1) have "hm_remove i m = m" by (auto simp: hm_remove_def filter_id_conv)
    ultimately show ?thesis by (simp add: hm_remove_def)
  next
    case False
    with Cons show ?thesis by (auto simp: hm_remove_def)
  qed
qed simp

lemma cm_invD:
  assumes "cm_inv cm"
  shows "keys_ok cm" "entries_ok cm" "distinct (map fst (cm_waitingmsgs cm))"
    "(i, w) \<in> set (cm_waitingmsgs cm) \<Longrightarrow> wm_ok cm i w"
    "(i, w) \<in> set (cm_waitingmsgs cm) \<Longrightarrow> wm_blocked cm w"
    "whp cm w = Some m \<Longrightarrow> w < wnext cm"
    "whp cm w = Some m \<Longrightarrow> (wm_id m, w) \<in> set (cm_waitingmsgs cm)"
  using assms by (auto simp: cm_inv_def)

lemma wm_okD:
  assumes "wm_ok cm i w" "whp cm w = Some m" "wm_ks_v m = Some (as, v)"
  shows "wm_id m = i" "distinct as" "a \<in> set as \<Longrightarrow> a \<in> snd ` set (keys_states cm)"
    "a \<in> set as \<Longrightarrow> (i, w) \<in> set (ks_waiting (khp cm a))"
  using assms by (auto simp: wm_ok_def)

text \<open>After the flag of \<open>k\<close> is cleared and no waiting message is free, nothing waits on \<open>k\<close> alone.\<close>

lemma release_none:
  assumes inv: "cm_inv cm" and a: "(k, a) \<in> set (keys_states cm)"
    and s: "same_but_using cm c" and u: "key_using c = (key_using cm)(a := False)"
    and f: "\<forall>(i, w) \<in> set (ks_waiting (khp c a)). wm_blocked c w"
  shows "cm_inv c \<and> used c = used cm - {k}"
proof -
  note d = cm_invD [OF inv]
  have ko: "keys_ok c" using d(1) by (simp add: same_keys_ok [OF s])
  have sw: "whp c = whp cm" "ks_waiting (khp c b) = ks_waiting (khp cm b)" "cm_waitingmsgs c = cm_waitingmsgs cm"
    "wnext c = wnext cm" "keys_states c = keys_states cm" for b
    using s by (simp_all add: same_but_using_def)
  have "wm_blocked c w" if iw: "(i, w) \<in> set (cm_waitingmsgs cm)" for i w
  proof -
    from d(5) [OF iw] obtain m as v b where m: "whp cm w = Some m" "wm_ks_v m = Some (as, v)"
      and b: "b \<in> set as" "key_using cm b"
      by (auto simp: wm_blocked_def list_ex_iff)
    show ?thesis
    proof (cases "a \<in> set as")
      case True
      with wm_okD(4) [OF d(4) [OF iw] m] f sw show ?thesis by fastforce
    next
      case False
      with b have "key_using c b" by (auto simp: u)
      with m b show ?thesis by (auto simp: wm_blocked_def sw list_ex_iff)
    qed
  qed
  then have "cm_inv c" using d ko same_entries_ok [OF s] same_wm_ok [OF s]
    by (auto simp: cm_inv_def sw)
  moreover have "used c = used cm - {k}"
  proof (rule set_eqI)
    fix x
    show "x \<in> used c \<longleftrightarrow> x \<in> used cm - {k}"
      unfolding Diff_iff used_iff [OF ko] used_iff [OF d(1)] u sw singleton_iff fun_upd_apply
      using keys_ok_addr [OF d(1) a] keys_ok_unique [OF d(1) a] by metis
  qed
  ultimately show ?thesis by blast
qed

lemma release_remove:
  assumes inv: "cm_inv c" and a: "(k, a) \<in> set (keys_states c)" "\<not> key_using c a" "ks_waiting (khp c a) = []"
  defines "c' \<equiv> c\<lparr>keys_states := bt_remove k (keys_states c)\<rparr>"
  shows "cm_inv c' \<and> used c' = used c \<and> waiting_items c' = waiting_items c"
proof -
  note d = cm_invD [OF inv]
  have ks: "set (keys_states c') = {x \<in> set (keys_states c). fst x \<noteq> k}"
    by (auto simp: c'_def bt_remove_def)
  have sel: "khp c' = khp c" "whp c' = whp c" "cm_waitingmsgs c' = cm_waitingmsgs c" "wnext c' = wnext c"
    "knext c' = knext c"
    by (simp_all add: c'_def)
  have us: "key_using c' = key_using c" by (simp add: c'_def key_using_def fun_eq_iff)
  have ko: "keys_ok c'" using d(1) ks by (auto simp: keys_ok_def sel) (simp add: c'_def)
  have "wm_ok c' i w" if "wm_ok c i w" for i w
  proof -
    from that obtain as v where m: "whp c w = Some \<lparr>wm_ks_v = Some (as, v), wm_id = i\<rparr>" "distinct as"
      and as: "\<forall>b \<in> set as. b \<in> snd ` set (keys_states c) \<and> (i, w) \<in> set (ks_waiting (khp c b))"
      by (auto simp: wm_ok_def)
    have "b \<in> snd ` set (keys_states c')" if "b \<in> set as" for b
    proof -
      from as that obtain k' where k': "(k', b) \<in> set (keys_states c)" and "b \<noteq> a" using a(3) by force
      then have "k' \<noteq> k" using keys_ok_unique [OF d(1) a(1)] by blast
      with k' ks show ?thesis by force
    qed
    with m as show ?thesis by (auto simp: wm_ok_def sel)
  qed
  then have "cm_inv c'" using ko d by (auto simp: cm_inv_def entries_ok_def wm_blocked_def sel us)
  moreover have "used c' = used c"
  proof (rule set_eqI)
    fix x
    have "b = a" if "(k, b) \<in> set (keys_states c)" for b using keys_ok_unique [OF d(1) a(1) that] by simp
    with a(2) show "x \<in> used c' \<longleftrightarrow> x \<in> used c"
      unfolding used_iff [OF ko] used_iff [OF d(1)] us ks by auto
  qed
  moreover have "waiting_items c' = waiting_items c"
  proof -
    have "msg_of c' w = msg_of c w" for w by (rule msg_of_cong) (simp_all add: sel)
    then show ?thesis by (simp add: waiting_items_def sel)
  qed
  ultimately show ?thesis by blast
qed


text \<open>A free waiting message is taken: its keys become used, it leaves the map and is freed.\<close>

lemma release_some:
  assumes inv: "cm_inv cm" and a: "(k, a) \<in> set (keys_states cm)" "key_using cm a"
    and iw: "(i, w) \<in> set (ks_waiting (khp cm a))" and m: "whp cm w = Some m" "wm_ks_v m = Some (as, v)"
    and free: "\<forall>b \<in> set as. b = a \<or> \<not> key_using cm b"
    and s: "same_but_using cm c" and u: "key_using c = (\<lambda>b. b \<in> set as \<or> key_using cm b)"
    and kv: "ks = map (\<lambda>b. the (ks_key (khp cm b))) (rev as)"
  defines "c' \<equiv> (upd_ks a (\<lambda>s. s\<lparr>ks_waiting := hm_remove i (ks_waiting s)\<rparr>) c)
    \<lparr>cm_waitingmsgs := hm_remove i (cm_waitingmsgs cm), whp := (whp cm)(w := None)\<rparr>"
  shows "cm_inv c' \<and> (i, w) \<in> set (cm_waitingmsgs cm) \<and> distinct ks \<and> k \<in> set ks \<and> set ks \<inter> (used cm - {k}) = {} \<and>
    used c' = (used cm - {k}) \<union> set ks \<and> waiting_items cm = add_mset (ks, v) (waiting_items c')"
proof -
  note d = cm_invD [OF inv]
  have sw: "ks_key (khp c b) = ks_key (khp cm b)" "ks_waiting (khp c b) = ks_waiting (khp cm b)"
    "wnext c = wnext cm" "keys_states c = keys_states cm" "knext c = knext cm" for b
    using s by (simp_all add: same_but_using_def)
  have sel: "ks_key (khp c' b) = ks_key (khp cm b)" "key_using c' b = key_using c b"
    "ks_waiting (khp c' b) = (if b = a then hm_remove i (ks_waiting (khp cm b)) else ks_waiting (khp cm b))"
    "keys_states c' = keys_states cm" "knext c' = knext cm" "wnext c' = wnext cm" "whp c' = (whp cm)(w := None)"
    "cm_waitingmsgs c' = hm_remove i (cm_waitingmsgs cm)" for b
    by (simp_all add: c'_def sw key_using_def)
  from d(2) iw m have i: "wm_id m = i" and aas: "a \<in> set as"
    using entries_okD [OF d(2) iw] by blast+
  have iwm: "(i, w) \<in> set (cm_waitingmsgs cm)" using d(7) [OF m(1)] i by simp
  note wm = wm_okD [OF d(4) [OF iwm] m]
  have ko: "keys_ok c'" using d(1) by (simp add: keys_ok_def sel)
  have eo: "entries_ok c'" by (rule entries_ok_mono [OF d(2)]) (auto simp: sel set_hm_remove split: if_splits)
  have other: "j \<noteq> i \<and> x \<noteq> w" if jx: "(j, x) \<in> set (hm_remove i (cm_waitingmsgs cm))" for j x
  proof -
    from jx have j: "j \<noteq> i" "(j, x) \<in> set (cm_waitingmsgs cm)" by (auto simp: set_hm_remove)
    from d(4) [OF j(2)] have "x \<noteq> w" using j(1) i m(1) by (auto simp: wm_ok_def)
    with j show ?thesis by simp
  qed
  have wok: "wm_ok c' j x \<and> wm_blocked c' x" if jx: "(j, x) \<in> set (hm_remove i (cm_waitingmsgs cm))" for j x
  proof -
    note o = other [OF jx]
    from jx have j: "(j, x) \<in> set (cm_waitingmsgs cm)" by (auto simp: set_hm_remove)
    have "wm_ok c' j x" using d(4) [OF j] o by (fastforce simp: wm_ok_def sel set_hm_remove)
    moreover have "wm_blocked c' x" using d(5) [OF j] o by (auto simp: wm_blocked_def sel u list_ex_iff)
    ultimately show ?thesis by simp
  qed
  have uniq: "x = w" if "(i, x) \<in> set (cm_waitingmsgs cm)" for x
    using mem_map_of [OF d(3), of i] that iwm by (metis option.inject)
  have alloc: "x < wnext c' \<and> (wm_id n, x) \<in> set (cm_waitingmsgs c')" if n: "whp c' x = Some n" for x n
  proof -
    from n have x: "x \<noteq> w" "whp cm x = Some n" by (auto simp: sel split: if_splits)
    from d(7) [OF x(2)] uniq x(1) have "wm_id n \<noteq> i" by metis
    with d(6,7) [OF x(2)] show ?thesis by (simp add: sel set_hm_remove)
  qed
  have "distinct (map fst (cm_waitingmsgs c'))" using d(3) by (simp add: sel)
  then have "cm_inv c'"
    using ko eo wok alloc unfolding cm_inv_def sel(8) by blast
  moreover have ksa: "(the (ks_key (khp cm b)), b) \<in> set (keys_states cm)" if "b \<in> set as" for b
    using keys_ok_key [OF d(1)] wm(3) [OF that] by blast
  have kk: "the (ks_key (khp cm a)) = k" using a(1) d(1) by (auto simp: keys_ok_def)
  have inj: "inj_on (\<lambda>b. the (ks_key (khp cm b))) (set as)"
    by (rule inj_onI) (use ksa keys_ok_unique [OF d(1)] in metis)
  have "distinct ks" using inj wm(2) by (simp add: kv distinct_map)
  moreover have "k \<in> set ks" using kk aas by (auto simp: kv)
  moreover have "set ks \<inter> (used cm - {k}) = {}"
  proof -
    have False if "b \<in> set as" "the (ks_key (khp cm b)) \<in> used cm" "the (ks_key (khp cm b)) \<noteq> k" for b
    proof -
      from that(2) obtain b' where b': "(the (ks_key (khp cm b)), b') \<in> set (keys_states cm)" "key_using cm b'"
        unfolding used_iff [OF d(1)] by (elim exE conjE)
      have "b = b'" by (rule keys_ok_unique [OF d(1) ksa [OF that(1)] b'(1)])
      with free that(1) b'(2) have "b = a" by auto
      with that(3) kk show False by simp
    qed
    then show ?thesis by (auto simp: kv)
  qed
  moreover have "used c' = (used cm - {k}) \<union> set ks"
  proof (rule set_eqI)
    fix x
    have "x \<in> used c' \<longleftrightarrow> (\<exists>b. (x, b) \<in> set (keys_states cm) \<and> (b \<in> set as \<or> key_using cm b))"
      unfolding used_iff [OF ko] by (simp add: sel u)
    also have "\<dots> \<longleftrightarrow> x \<in> set ks \<or> x \<in> used cm"
      unfolding used_iff [OF d(1)] kv using ksa keys_ok_addr [OF d(1)]
      by (auto simp: image_iff) metis
    finally show "x \<in> used c' \<longleftrightarrow> x \<in> (used cm - {k}) \<union> set ks" using kk aas by (auto simp: kv)
  qed
  moreover have "waiting_items cm = add_mset (ks, v) (waiting_items c')"
  proof -
    have "msg_of cm w = (ks, v)" by (simp add: msg_of_def m kv)
    moreover have "msg_of c' (snd x) = msg_of cm (snd x)" if "x \<in> set (hm_remove i (cm_waitingmsgs cm))" for x
      using other [of "fst x" "snd x"] that by (intro msg_of_cong) (simp_all add: sel)
    then have "mset (map (\<lambda>x. msg_of c' (snd x)) (hm_remove i (cm_waitingmsgs cm))) =
        mset (map (\<lambda>x. msg_of cm (snd x)) (hm_remove i (cm_waitingmsgs cm)))"
      by (metis (no_types, lifting) map_cong)
    ultimately show ?thesis
      unfolding waiting_items_def sel mset_map
      by (simp add: mset_hm_remove [OF d(3) iwm])
  qed
  ultimately show ?thesis using iwm by blast
qed

text \<open>The beginning of a release: the flag is cleared, then the waiting messages are searched.\<close>

lemma unuse_search:
  assumes "unuse_droped_key it k cm = Inr (r, cm')"
  obtains a c1 r0 c2 where "bt_get (keys_states cm) k = Some a" "set_unuse a cm = Inr c1"
    "find_free a (it a (ks_waiting (khp c1 a))) c1 = Inr (r0, c2)" "r0 = None \<longleftrightarrow> r = None"
proof -
  from assms obtain a c1 where a: "bt_get (keys_states cm) k = Some a" "set_unuse a cm = Inr c1"
    by (auto simp: unuse_droped_key_def bindE_Inr_iff split: option.splits)
  with assms obtain r1 c3 where t: "try_get_stop_waiting_msg it a c1 = Inr (r1, c3)"
    by (auto simp: unuse_droped_key_def bindE_Inr_iff)
  then obtain r0 c2 where f: "find_free a (it a (ks_waiting (khp c1 a))) c1 = Inr (r0, c2)"
    by (auto simp: try_get_stop_waiting_msg_def bindE_Inr_iff)
  then have "r1 = r0" using t by (cases r0) (auto simp: try_get_stop_waiting_msg_def bindE_Inr_iff)
  moreover have "r1 = None \<longleftrightarrow> r = None"
    using assms a t by (cases r1) (auto simp: unuse_droped_key_def bindE_Inr_iff split: option.split_asm)
  ultimately show thesis using that a f by blast
qed

lemma unuse_distinct:
  assumes inv: "cm_inv cm" and u: "set_unuse a cm = Inr c1"
  shows "\<forall>(i, w) \<in> set ws. \<forall>m as v. whp c1 w = Some m \<longrightarrow> wm_ks_v m = Some (as, v) \<longrightarrow> distinct as"
proof -
  note d = cm_invD [OF inv]
  have "whp c1 = whp cm" using set_unuse_ok [OF u] by (simp add: same_but_using_def)
  then show ?thesis using d(4,7) wm_okD(2) by fastforce
qed

lemma unuse_droped_key_none:
  assumes inv: "cm_inv cm" and it: "\<And>a xs. set (it a xs) = set xs"
    and st: "unuse_droped_key it k cm = Inr (None, cm')"
  shows "cm_inv cm' \<and> k \<in> used cm \<and> used cm' = used cm - {k} \<and> waiting_items cm' = waiting_items cm"
proof -
  note d = cm_invD [OF inv]
  obtain a c1 c2 where ga: "bt_get (keys_states cm) k = Some a" and c1: "set_unuse a cm = Inr c1"
    and f: "find_free a (it a (ks_waiting (khp c1 a))) c1 = Inr (None, c2)"
    using unuse_search [OF st] by (metis (no_types))
  have a: "(k, a) \<in> set (keys_states cm)" using keys_ok_get [OF d(1)] ga by simp
  note u = set_unuse_ok [OF c1]
  have c2: "c2 = c1" and bl: "\<forall>(i, w) \<in> set (ks_waiting (khp c1 a)). wm_blocked c1 w"
    using find_free_ok [OF f unuse_distinct [OF inv c1]] it by auto
  have same: "same_but_using cm c1" using u by blast
  have rn: "cm_inv c1 \<and> used c1 = used cm - {k}" by (rule release_none [OF inv a same _ bl]) (use u in blast)
  have wi: "waiting_items c1 = waiting_items cm" by (rule same_waiting_items [OF same])
  have ku: "k \<in> used cm" using a u unfolding used_iff [OF d(1)] by blast
  have cm': "cm' = (if ks_waiting (khp c1 a) = [] then c1\<lparr>keys_states := bt_remove k (keys_states c1)\<rparr> else c1)"
    using st ga c1 f c2 by (auto simp: unuse_droped_key_def try_get_stop_waiting_msg_def split: if_splits)
  show ?thesis
  proof (cases "ks_waiting (khp c1 a) = []")
    case True
    have "(k, a) \<in> set (keys_states c1)" "\<not> key_using c1 a" using a same u by (simp_all add: same_but_using_def)
    from release_remove [OF conjunct1 [OF rn] this True] rn wi ku cm' True show ?thesis by simp
  qed (use rn wi ku cm' in simp)
qed

lemma unuse_found:
  assumes inv: "cm_inv cm" and it: "\<And>a xs. set (it a xs) = set xs"
    and st: "unuse_droped_key it k cm = Inr (Some (ks, v), cm')"
  obtains a i w m as c where "(k, a) \<in> set (keys_states cm)" "key_using cm a"
    "(i, w) \<in> set (ks_waiting (khp cm a))" "whp cm w = Some m" "wm_ks_v m = Some (as, v)"
    "\<forall>b \<in> set as. b = a \<or> \<not> key_using cm b" "same_but_using cm c" "key_using c = (\<lambda>b. b \<in> set as \<or> key_using cm b)"
    "ks = map (\<lambda>b. the (ks_key (khp cm b))) (rev as)"
    "cm' = (upd_ks a (\<lambda>s. s\<lparr>ks_waiting := hm_remove i (ks_waiting s)\<rparr>) c)
      \<lparr>cm_waitingmsgs := hm_remove i (cm_waitingmsgs cm), whp := (whp cm)(w := None)\<rparr>"
proof -
  note d = cm_invD [OF inv]
  obtain a c1 i c2 where ga: "bt_get (keys_states cm) k = Some a" and c1: "set_unuse a cm = Inr c1"
    and f: "find_free a (it a (ks_waiting (khp c1 a))) c1 = Inr (Some i, c2)"
    using unuse_search [OF st] by (metis (no_types) option.distinct(1) option.exhaust)
  have a: "(k, a) \<in> set (keys_states cm)" using keys_ok_get [OF d(1)] ga by simp
  note u = set_unuse_ok [OF c1]
  have sw: "whp c1 = whp cm" "ks_waiting (khp c1 b) = ks_waiting (khp cm b)" for b
    using u by (simp_all add: same_but_using_def)
  obtain w m as v0 where iw: "(i, w) \<in> set (ks_waiting (khp cm a))"
    and m: "whp cm w = Some m" "wm_ks_v m = Some (as, v0)"
    and nf: "\<not> list_ex (key_using c1) as" and s2: "same_but_using c1 c2"
    and u2: "key_using c2 = (\<lambda>b. b \<noteq> a \<and> b \<in> set as \<or> key_using c1 b)"
    using find_free_ok [OF f unuse_distinct [OF inv c1]] it by (auto simp: sw)
  from st ga c1 f obtain c3 c4 where c3: "set_use a c2 = Inr c3" and c4: "remove_waitingmsg a i c3 = Inr c4"
    by (auto simp: unuse_droped_key_def try_get_stop_waiting_msg_def bindE_Inr_iff)
  then have c4': "c4 = upd_ks a (\<lambda>s. s\<lparr>ks_waiting := hm_remove i (ks_waiting s)\<rparr>) c3"
    by (auto simp: remove_waitingmsg_def split: option.splits)
  note u3 = set_use_ok [OF c3]
  have same3: "same_but_using cm c3" using u s2 u3 same_trans by blast
  have aas: "a \<in> set as" using entries_okD(3) [OF d(2) iw m] .
  have u3': "key_using c3 = (\<lambda>b. b \<in> set as \<or> key_using cm b)"
    using u3 u2 u aas by (auto simp: fun_eq_iff)
  have free: "\<forall>b \<in> set as. b = a \<or> \<not> key_using cm b" using nf u by (auto simp: list_ex_iff)
  have ua: "key_using cm a" using u by blast
  have iwm: "map_of (cm_waitingmsgs cm) i = Some w"
    using release_some [OF inv a ua iw m free same3 u3' refl] mem_map_of [OF d(3)] by blast
  have sw3: "whp c4 = whp cm" "cm_waitingmsgs c4 = cm_waitingmsgs cm" "ks_key (khp c4 b) = ks_key (khp cm b)" for b
    using same3 by (simp_all add: c4' same_but_using_def)
  from st ga c1 f c3 c4 iwm m(1) sw3 have kv: "take_kv c4 m = Inr (ks, v)"
    and cm': "cm' = c4\<lparr>cm_waitingmsgs := hm_remove i (cm_waitingmsgs cm), whp := (whp cm)(w := None)\<rparr>"
    by (auto simp: unuse_droped_key_def try_get_stop_waiting_msg_def bindE_Inr_iff)
  from kv m(2) have tk: "take_keys c4 (rev as) = Inr ks" and v: "v0 = v" by (auto simp: take_kv_def bindE_Inr_iff)
  have "ks = map (\<lambda>b. the (ks_key (khp cm b))) (rev as)" using take_keys_ok [OF tk] by (simp add: sw3)
  then show thesis using that [OF a ua iw m(1) _ free same3 u3'] m(2) v cm' c4' by blast
qed

lemma unuse_droped_key_ok:
  assumes inv: "cm_inv cm" and it: "\<And>a xs. set (it a xs) = set xs"
    and st: "unuse_droped_key it k cm = Inr (r, cm')"
  shows "cm_inv cm' \<and> k \<in> used cm \<and> (case r of
      None \<Rightarrow> used cm' = used cm - {k} \<and> waiting_items cm' = waiting_items cm
    | Some (ks, v) \<Rightarrow> distinct ks \<and> k \<in> set ks \<and> set ks \<inter> (used cm - {k}) = {} \<and>
        used cm' = (used cm - {k}) \<union> set ks \<and> waiting_items cm = add_mset (ks, v) (waiting_items cm'))"
proof (cases r)
  case None
  then show ?thesis using unuse_droped_key_none [OF inv it] st by simp
next
  case (Some m)
  obtain ks v where m: "m = (ks, v)" by force
  have st': "unuse_droped_key it k cm = Inr (Some (ks, v), cm')" using st Some m by simp
  obtain a i w m' as c where f: "(k, a) \<in> set (keys_states cm)" "key_using cm a"
    "(i, w) \<in> set (ks_waiting (khp cm a))" "whp cm w = Some m'" "wm_ks_v m' = Some (as, v)"
    "\<forall>b \<in> set as. b = a \<or> \<not> key_using cm b" "same_but_using cm c" "key_using c = (\<lambda>b. b \<in> set as \<or> key_using cm b)"
    "ks = map (\<lambda>b. the (ks_key (khp cm b))) (rev as)"
    "cm' = (upd_ks a (\<lambda>s. s\<lparr>ks_waiting := hm_remove i (ks_waiting s)\<rparr>) c)
      \<lparr>cm_waitingmsgs := hm_remove i (cm_waitingmsgs cm), whp := (whp cm)(w := None)\<rparr>"
    by (rule unuse_found [OF inv it st'])
  have "k \<in> used cm" using f(1,2) unfolding used_iff [OF cm_invD(1) [OF inv]] by blast
  then show ?thesis using release_some [OF inv f(1-9)] f(10) Some m by simp
qed

section \<open>Dead references\<close>

text \<open>
  A waiting message that is delivered stays registered under its other keys, as a weak reference to an object
  that is gone.  A release of such a key cannot end without a message.
\<close>

definition dead_ref :: "('k::linorder, 'v) cmanager \<Rightarrow> 'k \<Rightarrow> bool" where
  "dead_ref cm k \<longleftrightarrow> (\<exists>a i w. bt_get (keys_states cm) k = Some a \<and> key_using cm a \<and>
     (i, w) \<in> set (ks_waiting (khp cm a)) \<and> whp cm w = None)"

lemma find_free_dead: "(i, w) \<in> set ws \<Longrightarrow> whp cm w = None \<Longrightarrow> find_free self ws cm \<noteq> Inr (None, c)"
proof (induction ws)
  case (Cons x ws)
  obtain j y where x: "x = (j, y)" by force
  show ?case
  proof (cases "whp cm y")
    case (Some m)
    with Cons have IH: "find_free self ws cm \<noteq> Inr (None, c)" by (auto simp: x)
    show ?thesis
    proof (cases "wm_ks_v m")
      case (Some av)
      then show ?thesis using IH \<open>whp cm y = Some m\<close> by (cases av) (auto simp: x bindE_Inr_iff)
    qed (simp add: x Some)
  qed (simp add: x)
qed simp

lemma unuse_leaves_dead:
  assumes inv: "cm_inv cm" and it: "\<And>a xs. set (it a xs) = set xs"
    and st: "unuse_droped_key it k cm = Inr (Some (ks, v), cm')" and k': "k' \<in> set ks" "k' \<noteq> k"
  shows "dead_ref cm' k'"
proof -
  note d = cm_invD [OF inv]
  obtain a i w m as c where f: "(k, a) \<in> set (keys_states cm)" "key_using cm a"
    "(i, w) \<in> set (ks_waiting (khp cm a))" "whp cm w = Some m" "wm_ks_v m = Some (as, v)"
    "\<forall>b \<in> set as. b = a \<or> \<not> key_using cm b" and same: "same_but_using cm c"
    and u: "key_using c = (\<lambda>b. b \<in> set as \<or> key_using cm b)"
    and ks: "ks = map (\<lambda>b. the (ks_key (khp cm b))) (rev as)"
    and cm': "cm' = (upd_ks a (\<lambda>s. s\<lparr>ks_waiting := hm_remove i (ks_waiting s)\<rparr>) c)
      \<lparr>cm_waitingmsgs := hm_remove i (cm_waitingmsgs cm), whp := (whp cm)(w := None)\<rparr>"
    by (rule unuse_found [OF inv it st])
  obtain b where b: "b \<in> set as" "k' = the (ks_key (khp cm b))" using k'(1) ks by auto
  have ok: "wm_ok cm (wm_id m) w" by (rule d(4) [OF d(7) [OF f(4)]])
  note wm = wm_okD [OF ok f(4,5)]
  have kb: "(k', b) \<in> set (keys_states cm)" using keys_ok_key [OF d(1) wm(3) [OF b(1)]] b(2) by simp
  then have ba: "b \<noteq> a" using keys_ok_addr [OF d(1) f(1)] k'(2) by blast
  have "bt_get (keys_states cm') k' = Some b" using kb keys_ok_get [OF d(1)] same by (simp add: cm' same_but_using_def)
  moreover have "key_using cm' b" using ba b(1) u by (simp add: cm' key_using_def [abs_def] fun_eq_iff)
  moreover have "(wm_id m, w) \<in> set (ks_waiting (khp cm' b))"
    using wm(4) [OF b(1)] ba same by (simp add: cm' same_but_using_def)
  moreover have "whp cm' w = None" by (simp add: cm')
  ultimately show ?thesis unfolding dead_ref_def by blast
qed

lemma unuse_dead:
  assumes it: "\<And>a xs. set (it a xs) = set xs" and dead: "dead_ref cm k"
  shows "unuse_droped_key it k cm \<noteq> Inr (None, cm')"
proof
  assume st: "unuse_droped_key it k cm = Inr (None, cm')"
  obtain a c1 c2 where ga: "bt_get (keys_states cm) k = Some a" and c1: "set_unuse a cm = Inr c1"
    and f: "find_free a (it a (ks_waiting (khp c1 a))) c1 = Inr (None, c2)"
    using unuse_search [OF st] by (metis (no_types))
  obtain i w where "(i, w) \<in> set (ks_waiting (khp cm a))" "whp cm w = None" using dead ga by (auto simp: dead_ref_def)
  then have "(i, w) \<in> set (it a (ks_waiting (khp c1 a)))" "whp c1 w = None"
    using set_unuse_ok [OF c1] it by (simp_all add: same_but_using_def)
  then show False using find_free_dead f by blast
qed

lemma unuse_dead_alone:
  assumes it: "\<And>a xs. set (it a xs) = set xs" and dead: "dead_ref cm k"
    and a: "bt_get (keys_states cm) k = Some a" "length (ks_waiting (khp cm a)) = 1"
  shows "unuse_droped_key it k cm = Inl ExplicitPanic"
proof -
  obtain i w where iw: "ks_waiting (khp cm a) = [(i, w)]" "whp cm w = None" "key_using cm a"
    using dead a by (auto simp: dead_ref_def length_Suc_conv)
  obtain x xs where x: "it a [(i, w)] = x # xs" using it [of a "[(i, w)]"] by (cases "it a [(i, w)]") auto
  then have "x = (i, w)" using it [of a "[(i, w)]"] by auto
  then show ?thesis using a(1) iw x
    by (simp add: unuse_droped_key_def set_unuse_def try_get_stop_waiting_msg_def)
qed

section \<open>Accepting a message\<close>

text \<open>\<open>cm_part X cm\<close>: the invariant, except that the messages in \<open>X\<close> are not in the map yet.\<close>

definition cm_part :: "addr set \<Rightarrow> ('k::linorder, 'v) cmanager \<Rightarrow> bool" where
  "cm_part X cm \<longleftrightarrow> keys_ok cm \<and> entries_ok cm \<and> distinct (map fst (cm_waitingmsgs cm)) \<and>
     (\<forall>(i, w) \<in> set (cm_waitingmsgs cm). wm_ok cm i w \<and> wm_blocked cm w \<and> w \<notin> X) \<and>
     (\<forall>w m. whp cm w = Some m \<longrightarrow> w < wnext cm \<and> (w \<in> X \<or> (wm_id m, w) \<in> set (cm_waitingmsgs cm)))"

lemma cm_part_empty: "cm_part {} cm = cm_inv cm"
  by (simp add: cm_part_def cm_inv_def)

text \<open>What the loops over the keys leave alone.\<close>

definition grown :: "('k::linorder, 'v) cmanager \<Rightarrow> ('k, 'v) cmanager \<Rightarrow> bool" where
  "grown cm c \<longleftrightarrow> cm_waitingmsgs c = cm_waitingmsgs cm \<and> wnext c = wnext cm \<and>
     set (keys_states cm) \<subseteq> set (keys_states c) \<and>
     (\<forall>a \<in> snd ` set (keys_states cm). ks_key (khp c a) = ks_key (khp cm a))"

lemma grown_refl [simp]: "grown cm cm"
  by (simp add: grown_def)

lemma grown_trans: "grown cm c \<Longrightarrow> grown c e \<Longrightarrow> grown cm e"
  by (auto simp: grown_def) (metis image_eqI snd_conv subsetD)

lemma key_entry_ok:
  assumes inv: "cm_part X cm" and e: "key_entry k cm = (a, c)"
  shows "cm_part X c \<and> grown cm c \<and> (k, a) \<in> set (keys_states c) \<and> used c = used cm \<and> whp c = whp cm \<and>
    (\<forall>b \<in> snd ` set (keys_states cm). khp c b = khp cm b)"
proof (cases "bt_get (keys_states cm) k")
  case (Some b)
  with e inv show ?thesis
    by (auto simp: key_entry_def cm_part_def keys_ok_get)
next
  case None
  with e have a: "a = knext cm" and c: "c = cm\<lparr>keys_states := bt_insert k a (keys_states cm),
      khp := (khp cm)(a := key_state_new k), knext := Suc a\<rparr>"
    by (auto simp: key_entry_def)
  have ko: "keys_ok cm" and eo: "entries_ok cm" using inv by (simp_all add: cm_part_def)
  have nk: "k \<notin> fst ` set (keys_states cm)" using None by (simp add: map_of_eq_None_iff)
  have old: "b \<noteq> a" if "b \<in> snd ` set (keys_states cm)" for b using that ko a by (auto simp: keys_ok_def)
  have ks: "set (keys_states c) = insert (k, a) (set (keys_states cm))"
    using ko bt_insert_split [of "keys_states cm" k a] nk by (auto simp: c keys_ok_def)
  have sel: "whp c = whp cm" "wnext c = wnext cm" "cm_waitingmsgs c = cm_waitingmsgs cm" "knext c = Suc a"
    "khp c b = (if b = a then key_state_new k else khp cm b)" for b
    by (simp_all add: c)
  have ko': "keys_ok c" using ko a ks by (auto simp: keys_ok_def sel key_state_new_def) (simp add: c)
  have eo': "entries_ok c" by (rule entries_ok_mono [OF eo]) (auto simp: sel key_state_new_def)
  have us: "key_using c b = (b \<noteq> a \<and> key_using cm b)" for b by (simp add: key_using_def sel key_state_new_def)
  have wok: "wm_ok c i w" if "wm_ok cm i w" for i w
    using that old by (fastforce simp: wm_ok_def sel ks)
  have bl: "wm_blocked c w" if "wm_ok cm i w" "wm_blocked cm w" for i w
    using that old by (fastforce simp: wm_ok_def wm_blocked_def sel us list_ex_iff)
  have "cm_part X c"
    using inv ko' eo' wok bl unfolding cm_part_def sel by blast
  moreover have "used c = used cm"
  proof (rule set_eqI)
    fix x show "x \<in> used c \<longleftrightarrow> x \<in> used cm"
      unfolding used_iff [OF ko'] used_iff [OF ko] ks us using old by force
  qed
  ultimately show ?thesis using old by (auto simp: grown_def sel ks)
qed

lemma set_use_inv:
  assumes inv: "cm_part X cm" and k: "(k, a) \<in> set (keys_states cm)" and st: "set_use a cm = Inr c"
  shows "cm_part X c \<and> k \<notin> used cm \<and> used c = insert k (used cm) \<and> waiting_items c = waiting_items cm \<and>
    same_but_using cm c"
proof -
  note u = set_use_ok [OF st]
  then have same: "same_but_using cm c" by blast
  have ko: "keys_ok cm" using inv by (simp add: cm_part_def)
  have ko': "keys_ok c" by (simp add: same_keys_ok [OF same] ko)
  have ks: "keys_states c = keys_states cm" using same by (simp add: same_but_using_def)
  have bl: "wm_blocked c w" if "wm_blocked cm w" for w
    using that u same by (auto simp: wm_blocked_def same_but_using_def list_ex_iff)
  have "cm_part X c"
    using inv ko' bl same_entries_ok [OF same] same_wm_ok [OF same] same
    by (auto simp: cm_part_def same_but_using_def)
  moreover have "k \<notin> used cm"
    unfolding used_iff [OF ko] using u keys_ok_unique [OF ko k] by blast
  moreover have "used c = insert k (used cm)"
  proof (rule set_eqI)
    fix x
    have "key_using c b \<longleftrightarrow> b = a \<or> key_using cm b" for b using u by simp
    then show "x \<in> used c \<longleftrightarrow> x \<in> insert k (used cm)"
      unfolding used_iff [OF ko'] insert_iff used_iff [OF ko] ks using k keys_ok_addr [OF ko k] by metis
  qed
  ultimately show ?thesis using same_waiting_items [OF same] same by blast
qed

lemma use_all_ok:
  "cm_inv cm \<Longrightarrow> use_all ks cm = Inr c \<Longrightarrow>
    cm_inv c \<and> distinct ks \<and> set ks \<inter> used cm = {} \<and> used c = used cm \<union> set ks \<and> waiting_items c = waiting_items cm"
proof (induction ks arbitrary: cm)
  case (Cons k ks)
  obtain a e where e: "key_entry k cm = (a, e)" by force
  from Cons.prems(2) e obtain f where f: "set_use a e = Inr f" "use_all ks f = Inr c"
    by (auto simp: bindE_Inr_iff)
  have "cm_part {} cm" using Cons.prems(1) by (simp add: cm_part_empty)
  note ke = key_entry_ok [OF this e]
  then have ka: "(k, a) \<in> set (keys_states e)" by blast
  note su = set_use_inv [OF conjunct1 [OF ke] ka f(1)]
  then have "cm_inv f" by (simp add: cm_part_empty)
  note IH = Cons.IH [OF this f(2)]
  have "waiting_items e = waiting_items cm"
  proof -
    have "msg_of e w = msg_of cm w" if iw: "(i, w) \<in> set (cm_waitingmsgs cm)" for i w
    proof -
      from cm_invD(4) [OF Cons.prems(1) iw] obtain as v where
        w: "whp cm w = Some \<lparr>wm_ks_v = Some (as, v), wm_id = i\<rparr>" "\<forall>b \<in> set as. b \<in> snd ` set (keys_states cm)"
        by (auto simp: wm_ok_def)
      have "khp e b = khp cm b" if "b \<in> set as" for b using ke w(2) that by blast
      with w ke show ?thesis by (simp add: msg_of_def)
    qed
    moreover have "cm_waitingmsgs e = cm_waitingmsgs cm" using ke by (simp add: grown_def)
    ultimately show ?thesis by (auto simp: waiting_items_def intro!: image_mset_cong)
  qed
  with IH su ke show ?case by auto
qed simp

text \<open>The waiting message under construction: its key states are registered and know it.\<close>

definition partial_wm :: "('k::linorder, 'v) cmanager \<Rightarrow> i32 \<Rightarrow> addr \<Rightarrow> addr list \<Rightarrow> 'v \<Rightarrow> bool" where
  "partial_wm cm i w as v \<longleftrightarrow> whp cm w = Some \<lparr>wm_ks_v = Some (as, v), wm_id = i\<rparr> \<and> i \<notin> fst ` set (cm_waitingmsgs cm) \<and>
     (\<forall>a \<in> set as. a \<in> snd ` set (keys_states cm) \<and> (i, w) \<in> set (ks_waiting (khp cm a)))"

definition addr_keys :: "('k, 'v) cmanager \<Rightarrow> addr list \<Rightarrow> 'k list" where
  "addr_keys cm as = map (\<lambda>a. the (ks_key (khp cm a))) as"

lemma register_step:
  assumes inv: "cm_part {w} cm" and p: "partial_wm cm i w as v" and e: "key_entry k cm = (a, e)"
    and f: "add_kstate w a e = Inr f" and c: "add_waitingmsg a w f = Inr c"
  shows "cm_part {w} c \<and> partial_wm c i w (as @ [a]) v \<and> addr_keys c (as @ [a]) = addr_keys cm as @ [k] \<and>
    used c = used cm \<and> grown cm c \<and> (\<forall>x. x \<noteq> w \<longrightarrow> whp c x = whp cm x)"
proof -
  note ke = key_entry_ok [OF inv e]
  then have pe: "cm_part {w} e" and ka: "(k, a) \<in> set (keys_states e)" and g: "grown cm e" by blast+
  have ko: "keys_ok e" and eo: "entries_ok e" using pe by (simp_all add: cm_part_def)
  have we: "whp e w = Some \<lparr>wm_ks_v = Some (as, v), wm_id = i\<rparr>" using p ke by (simp add: partial_wm_def)
  have f': "f = e\<lparr>whp := (whp e)(w \<mapsto> \<lparr>wm_ks_v = Some (as @ [a], v), wm_id = i\<rparr>)\<rparr>"
    using f we by (simp add: add_kstate_def)
  have c': "c = upd_ks a (\<lambda>s. s\<lparr>ks_waiting := hm_insert i w (ks_waiting s)\<rparr>) f"
    using c by (simp add: add_waitingmsg_def f')
  have sel: "keys_states c = keys_states e" "ks_key (khp c b) = ks_key (khp e b)" "knext c = knext e" "wnext c = wnext e"
    "cm_waitingmsgs c = cm_waitingmsgs e" "whp c = (whp e)(w \<mapsto> \<lparr>wm_ks_v = Some (as @ [a], v), wm_id = i\<rparr>)"
    "ks_waiting (khp c b) = (if b = a then hm_insert i w (ks_waiting (khp e a)) else ks_waiting (khp e b))"
    "key_using c b = key_using e b" for b
    by (simp_all add: c' f' key_using_def)
  have ko': "keys_ok c" using ko by (simp add: keys_ok_def sel)
  have wlt: "w < wnext e" using pe we by (simp add: cm_part_def)
  have eo': "entries_ok c"
    unfolding entries_ok_def
  proof (intro allI ballI, clarify)
    fix b j x assume "(j, x) \<in> set (ks_waiting (khp c b))"
    then consider "b = a" "j = i" "x = w" | "(j, x) \<in> set (ks_waiting (khp e b))"
      by (auto simp: sel set_hm_insert split: if_splits)
    then show "x < wnext c \<and> (\<forall>m. whp c x = Some m \<longrightarrow> wm_id m = j \<and> (\<forall>as v. wm_ks_v m = Some (as, v) \<longrightarrow> b \<in> set as))"
    proof cases
      case 1
      with wlt show ?thesis by (simp add: sel)
    next
      case 2
      show ?thesis
      proof (cases "x = w")
        case True
        with entries_okD [OF eo 2] we wlt show ?thesis by (simp add: sel)
      next
        case False
        with entries_okD [OF eo 2] show ?thesis by (simp add: sel)
      qed
    qed
  qed
  have wn: "i \<notin> fst ` set (cm_waitingmsgs e)" using p g by (simp add: partial_wm_def grown_def)
  have wok: "wm_ok c j x \<and> wm_blocked c x" if "(j, x) \<in> set (cm_waitingmsgs e)" for j x
  proof -
    from that pe have o: "wm_ok e j x" "wm_blocked e x" "x \<noteq> w" by (auto simp: cm_part_def)
    from wn that have "j \<noteq> i" by force
    with o(1,3) have "wm_ok c j x" by (fastforce simp: wm_ok_def sel set_hm_insert)
    moreover have "wm_blocked c x" using o(2,3) by (simp add: wm_blocked_def sel list_ex_iff)
    ultimately show ?thesis by blast
  qed
  have "cm_part {w} c"
    using pe ko' eo' wok wlt by (auto simp: cm_part_def sel)
  moreover have asr: "b \<in> snd ` set (keys_states cm)" if "b \<in> set as" for b using p that by (simp add: partial_wm_def)
  have "partial_wm c i w (as @ [a]) v"
  proof -
    have "b \<in> snd ` set (keys_states c) \<and> (i, w) \<in> set (ks_waiting (khp c b))" if "b \<in> set (as @ [a])" for b
    proof (cases "b = a")
      case True
      with ka show ?thesis by (force simp: sel set_hm_insert)
    next
      case False
      with that have b: "b \<in> set as" by simp
      then have "khp e b = khp cm b" using asr ke by blast
      with b p have "(i, w) \<in> set (ks_waiting (khp e b))" by (simp add: partial_wm_def)
      moreover have "b \<in> snd ` set (keys_states e)" using asr [OF b] g by (auto simp: grown_def)
      ultimately show ?thesis using False by (simp add: sel)
    qed
    then show ?thesis using wn by (simp add: partial_wm_def sel)
  qed
  moreover have "addr_keys c (as @ [a]) = addr_keys cm as @ [k]"
  proof -
    have "khp e b = khp cm b" if "b \<in> set as" for b using asr [OF that] ke by blast
    moreover have "ks_key (khp e a) = Some k" using ka ko by (auto simp: keys_ok_def)
    ultimately show ?thesis by (simp add: addr_keys_def sel)
  qed
  moreover have "used c = used cm"
  proof -
    have "used c = used e" by (auto simp: used_def key_in_use_def sel split: option.splits)
    with ke show ?thesis by simp
  qed
  moreover have "grown cm c" using g by (auto simp: grown_def sel)
  ultimately show ?thesis using ke by (auto simp: sel)
qed

lemma register_waiting_ok:
  "cm_part {w} cm \<Longrightarrow> partial_wm cm i w as v \<Longrightarrow> register_waiting w ks cm = Inr c \<Longrightarrow>
    \<exists>as'. cm_part {w} c \<and> partial_wm c i w as' v \<and> addr_keys c as' = addr_keys cm as @ ks \<and>
      used c = used cm \<and> grown cm c \<and> (\<forall>x. x \<noteq> w \<longrightarrow> whp c x = whp cm x)"
proof (induction ks arbitrary: cm as)
  case Nil
  then show ?case by auto
next
  case (Cons k ks)
  obtain a e where e: "key_entry k cm = (a, e)" by force
  from Cons.prems(3) e obtain f h where f: "add_kstate w a e = Inr f" "add_waitingmsg a w f = Inr h"
    "register_waiting w ks h = Inr c"
    by (auto simp: bindE_Inr_iff)
  note rs = register_step [OF Cons.prems(1,2) e f(1,2)]
  then have h: "cm_part {w} h" "partial_wm h i w (as @ [a]) v" by blast+
  from Cons.IH [OF h f(3)] obtain as' where IH: "cm_part {w} c" "partial_wm c i w as' v"
    "addr_keys c as' = addr_keys h (as @ [a]) @ ks" "used c = used h" "grown h c"
    "\<forall>x. x \<noteq> w \<longrightarrow> whp c x = whp h x" by blast
  have "addr_keys c as' = addr_keys cm as @ k # ks" using IH(3) rs by simp
  moreover have "grown cm c" using grown_trans IH(5) rs by blast
  ultimately show ?case using IH rs by (intro exI [of _ as']) auto
qed

lemma register_waiting_id:
  "register_waiting w ks cm = Inr c \<Longrightarrow> whp cm w = Some m \<Longrightarrow>
    cm_waitingmsgs c = cm_waitingmsgs cm \<and> (\<exists>m'. whp c w = Some m' \<and> wm_id m' = wm_id m)"
proof (induction ks arbitrary: cm m)
  case (Cons k ks)
  obtain a e where e: "key_entry k cm = (a, e)" by force
  from Cons.prems(1) e obtain f h where f: "add_kstate w a e = Inr f" "add_waitingmsg a w f = Inr h"
    "register_waiting w ks h = Inr c"
    by (auto simp: bindE_Inr_iff)
  have ee: "whp e = whp cm" "cm_waitingmsgs e = cm_waitingmsgs cm"
    using e by (auto simp: key_entry_def split: option.splits)
  from f(1) Cons.prems(2) obtain m1 where m1: "whp f w = Some m1" "wm_id m1 = wm_id m"
      "cm_waitingmsgs f = cm_waitingmsgs cm"
    by (auto simp: add_kstate_def ee split: option.splits)
  with f(2) have "whp h w = Some m1" "cm_waitingmsgs h = cm_waitingmsgs cm"
    by (auto simp: add_waitingmsg_def)
  with Cons.IH [OF f(3), of m1] m1 show ?case by auto
qed simp

lemma handle_new_msg_ok:
  assumes inv: "cm_inv cm" and ds: "distinct ks" and st: "handle_new_msg oc ks v cm = Inr (r, cm')"
  shows "cm_inv cm' \<and> (case r of
      None \<Rightarrow> used cm' = used cm \<and> set ks \<inter> used cm \<noteq> {} \<and> waiting_items cm' = add_mset (ks, v) (waiting_items cm)
    | Some kv \<Rightarrow> kv = (ks, v) \<and> set ks \<inter> used cm = {} \<and> used cm' = used cm \<union> set ks \<and>
        waiting_items cm' = waiting_items cm)"
proof (cases "list_ex (key_in_use cm) ks")
  case False
  with st obtain c where "use_all ks cm = Inr c" "r = Some (ks, v)" "cm' = c"
    by (auto simp: handle_new_msg_def bindE_Inr_iff)
  with use_all_ok [OF inv, of ks c] show ?thesis by simp
next
  case True
  note d = cm_invD [OF inv]
  let ?w = "wnext cm" and ?i = "next_id cm"
  let ?m = "\<lparr>wm_ks_v = Some ([], v), wm_id = ?i\<rparr>"
  let ?c = "cm\<lparr>next_id := ?i + 1, wnext := Suc ?w, whp := (whp cm)(?w \<mapsto> ?m)\<rparr>"
  from True st obtain c m where c: "register_waiting ?w (rev ks) ?c = Inr c" and m: "whp c ?w = Some m"
    and nc: "map_of (cm_waitingmsgs c) (wm_id m) = None" and r: "r = None"
    and cm': "cm' = c\<lparr>cm_waitingmsgs := hm_insert (wm_id m) ?w (cm_waitingmsgs c)\<rparr>"
    by (auto simp: handle_new_msg_def new_waiting_msg_def bindE_Inr_iff split: if_splits option.splits)
  have id: "cm_waitingmsgs c = cm_waitingmsgs cm" "wm_id m = ?i"
    using register_waiting_id [OF c, of ?m] m by auto
  have fresh: "?i \<notin> fst ` set (cm_waitingmsgs cm)" using nc id by (simp add: map_of_eq_None_iff)
  have wf: "x \<noteq> ?w" if "whp cm x = Some n" for x n using d(6) [OF that] by simp
  have wi: "x \<noteq> ?w" if "(j, x) \<in> set (cm_waitingmsgs cm)" for j x
    using d(4) [OF that] wf by (auto simp: wm_ok_def)
  have uc: "key_using ?c = key_using cm" by (simp add: key_using_def fun_eq_iff)
  have eo: "entries_ok ?c"
    unfolding entries_ok_def
  proof (intro allI ballI, clarify)
    fix b j x assume "(j, x) \<in> set (ks_waiting (khp ?c b))"
    then have jx: "(j, x) \<in> set (ks_waiting (khp cm b))" by simp
    from entries_okD [OF d(2) jx]
    show "x < wnext ?c \<and> (\<forall>m. whp ?c x = Some m \<longrightarrow> wm_id m = j \<and> (\<forall>as v. wm_ks_v m = Some (as, v) \<longrightarrow> b \<in> set as))"
      by auto
  qed
  have wo: "wm_ok ?c j x \<and> wm_blocked ?c x \<and> x \<notin> {?w}" if jx: "(j, x) \<in> set (cm_waitingmsgs cm)" for j x
    using d(4,5) [OF jx] wi [OF jx] by (auto simp: wm_ok_def wm_blocked_def uc)
  have "cm_part {?w} ?c"
    unfolding cm_part_def
  proof (intro conjI allI impI)
    show "keys_ok ?c" using d(1) by (simp add: keys_ok_def)
    show "\<forall>(i, w) \<in> set (cm_waitingmsgs ?c). wm_ok ?c i w \<and> wm_blocked ?c w \<and> w \<notin> {?w}" using wo by auto
    fix x n assume n: "whp ?c x = Some n"
    show "x < wnext ?c" using n d(6) by (auto split: if_splits intro: less_SucI)
    show "x \<in> {?w} \<or> (wm_id n, x) \<in> set (cm_waitingmsgs ?c)" using n d(7) by (auto split: if_splits)
  qed (use eo d(3) in simp_all)
  moreover have "partial_wm ?c ?i ?w [] v" using fresh by (simp add: partial_wm_def)
  ultimately obtain as where p: "cm_part {?w} c" "partial_wm c ?i ?w as v" "addr_keys c as = rev ks"
    and u: "used c = used ?c" and g: "grown ?c c" and o: "\<forall>x. x \<noteq> ?w \<longrightarrow> whp c x = whp ?c x"
    using register_waiting_ok [OF _ _ c] by (fastforce simp: addr_keys_def)
  have "used ?c = used cm" by (auto simp: used_def key_in_use_def uc split: option.splits)
  then have u': "used c = used cm" by (simp only: u)
  have ko: "keys_ok c" using p(1) by (simp add: cm_part_def)
  have pw: "whp c ?w = Some \<lparr>wm_ks_v = Some (as, v), wm_id = ?i\<rparr>"
    "b \<in> set as \<Longrightarrow> b \<in> snd ` set (keys_states c) \<and> (?i, ?w) \<in> set (ks_waiting (khp c b))" for b
    using p(2) by (auto simp: partial_wm_def)
  have das: "distinct as" using p(3) ds by (metis addr_keys_def distinct_map distinct_rev)
  have wok: "wm_ok c ?i ?w" using pw das by (auto simp: wm_ok_def)
  have blk: "wm_blocked c ?w"
  proof -
    from True obtain k where "k \<in> set ks" "k \<in> used cm" by (auto simp: list_ex_iff used_def)
    then have k: "k \<in> set ks" "k \<in> used c" by (simp_all only: u')
    then obtain b where b: "(k, b) \<in> set (keys_states c)" "key_using c b"
      unfolding used_iff [OF ko] by blast
    from k(1) p(3) have "k \<in> set (addr_keys c as)" by simp
    then obtain b' where b': "b' \<in> set as" "the (ks_key (khp c b')) = k" by (auto simp: addr_keys_def)
    have "(k, b') \<in> set (keys_states c)" using keys_ok_key [OF ko, of b'] pw(2) [OF b'(1)] b'(2) by simp
    then have "b' = b" using keys_ok_unique [OF ko b(1)] by simp
    with b b' pw(1) show ?thesis by (auto simp: wm_blocked_def list_ex_iff)
  qed
  have sel: "keys_states cm' = keys_states c" "khp cm' = khp c" "whp cm' = whp c" "wnext cm' = wnext c"
    "knext cm' = knext c" "cm_waitingmsgs cm' = (?i, ?w) # filter (\<lambda>x. fst x \<noteq> ?i) (cm_waitingmsgs cm)"
    by (simp_all add: cm' id hm_insert_def)
  have flt: "filter (\<lambda>x. fst x \<noteq> ?i) (cm_waitingmsgs cm) = cm_waitingmsgs cm"
    using fresh by (force simp: filter_id_conv)
  have us: "key_using cm' = key_using c" by (simp add: key_using_def sel fun_eq_iff)
  have "cm_inv cm'"
    unfolding cm_inv_def
  proof (intro conjI allI impI)
    show "keys_ok cm'" using ko by (simp add: keys_ok_def sel)
    show "entries_ok cm'" using p(1) by (simp add: cm_part_def entries_ok_def sel)
    show "distinct (map fst (cm_waitingmsgs cm'))" using d(3) fresh by (simp add: sel flt)
    show "\<forall>(i, w) \<in> set (cm_waitingmsgs cm'). wm_ok cm' i w \<and> wm_blocked cm' w"
      using wok blk p(1) by (auto simp: sel flt cm_part_def wm_ok_def wm_blocked_def us id)
    fix x n assume n: "whp cm' x = Some n"
    then show "x < wnext cm'" using p(1) by (auto simp: cm_part_def sel)
    show "(wm_id n, x) \<in> set (cm_waitingmsgs cm')"
      using n p(1) pw(1) by (cases "x = ?w") (auto simp: cm_part_def sel flt id)
  qed
  moreover have "used cm' = used cm" 
    unfolding u' [symmetric] by (auto simp: used_def key_in_use_def us sel split: option.splits)
  moreover have "set ks \<inter> used cm \<noteq> {}" using True by (auto simp: list_ex_iff used_def)
  moreover have "waiting_items cm' = add_mset (ks, v) (waiting_items cm)"
  proof -
    have "msg_of cm' ?w = (ks, v)" using p(3) by (simp add: msg_of_def sel pw addr_keys_def flip: rev_map)
    moreover have "msg_of cm' x = msg_of cm x" if jx: "(j, x) \<in> set (cm_waitingmsgs cm)" for j x
    proof -
      from d(4) [OF jx] obtain bs v' where bs: "whp cm x = Some \<lparr>wm_ks_v = Some (bs, v'), wm_id = j\<rparr>"
        "\<forall>b \<in> set bs. b \<in> snd ` set (keys_states cm)" by (auto simp: wm_ok_def)
      have "whp cm' x = whp cm x" using o wi [OF jx] by (simp add: sel)
      moreover have "ks_key (khp c b) = ks_key (khp cm b)" if "b \<in> set bs" for b
        using g bs(2) that unfolding grown_def by auto
      ultimately show ?thesis using bs(1) by (simp add: msg_of_def sel)
    qed
    ultimately show ?thesis by (auto simp: waiting_items_def sel flt intro!: image_mset_cong)
  qed
  ultimately show ?thesis using r by simp
qed

end
