(* ===== verification/KvMultik.thy ===== *)
theory KvMultik imports ConflictProofs Interfaces begin

text \<open>
  The channel of \<open>kv_mpsc_multik.rs\<close>: messages with several keys.  The program points of senders and
  receiver follow the code as in the single-key channel; the receiver hands released keys and new
  messages to its conflict manager, whose panics are the program point \<open>MPanic\<close>.
\<close>

section \<open>State\<close>

record ('k, 'v, 'q, 'd, 'e) mkchan =
  wake_recv_event :: 'e
  msg_q :: 'q
  drop_key_q :: 'd
  senders_dropped :: bool
  receiver_dropped :: bool
  sent :: "('k list \<times> 'v) list"

record ('k, 'v, 'l) mkreceiver =
  conflict_manager :: "('k, 'v) cmanager"
  event_listener :: "'l option"
  delivered :: "('k list \<times> 'v) list"

record ('k, 'v) mkmessage =
  mm_v :: 'v
  mm_ks :: "'k list"

definition mkmessage_new :: "'v \<Rightarrow> 'k list \<Rightarrow> ('k, 'v) mkmessage" where
  "mkmessage_new v ks = \<lparr>mm_v = v, mm_ks = ks\<rparr>"

datatype ('k, 'v) mkspc =
    MsIdle
  | MsCheck "'k list" 'v
  | MsPush "'k list" 'v
  | MsNotify
  | MsDone bool
  | MsStore
  | MsDropNotify

datatype ('k, 'v, 'l) mkrpc =
    MIdle
  | MDrop            \<comment> \<open>before \<open>dropq.pop()\<close> in \<open>unuse_all_droped_key\<close>\<close>
  | MPop             \<comment> \<open>before \<open>q.pop()\<close>\<close>
  | MQEmpty          \<comment> \<open>before \<open>q.is_empty()\<close>\<close>
  | MDEmpty          \<comment> \<open>before \<open>drop_key_q.is_empty()\<close>\<close>
  | MLoad            \<comment> \<open>nothing waiting: before \<open>senders_dropped.load\<close>\<close>
  | MTake            \<comment> \<open>before \<open>listener.take()\<close>\<close>
  | MWait 'l         \<comment> \<open>in \<open>l.wait()\<close>\<close>
  | MListen          \<comment> \<open>before \<open>wake_recv_event.listen()\<close>\<close>
  | MRet "('k list \<times> 'v) option"
  | MClosed          \<comment> \<open>\<open>recv\<close> returned \<open>Err(RecvResFails::Closed)\<close>\<close>
  | MDropNotify      \<comment> \<open>drop of the receiver: before its \<open>notify(1)\<close>\<close>
  | MGone
  | MPanic panic

text \<open>
  \<open>closing\<close> holds, for each message being dropped, the keys it has still to push; the drop pops them
  from the back and ends with a \<open>notify(1)\<close>.
\<close>

record ('k, 'v, 'q, 'd, 'e, 'l) mksys =
  chan :: "('k, 'v, 'q, 'd, 'e) mkchan"
  rcv :: "('k, 'v, 'l) mkreceiver"
  rpc :: "('k, 'v, 'l) mkrpc"
  spc :: "nat \<Rightarrow> ('k, 'v) mkspc"
  owns :: "nat \<Rightarrow> bool"
  strong :: nat
  live :: "('k, 'v) mkmessage list"
  closing :: "'k list list"

definition mkchan_new :: "('q, 'k list \<times> 'v) segq \<Rightarrow> ('d, 'k) segq \<Rightarrow> ('e, 'l) event_ops \<Rightarrow>
    ('k, 'v, 'q, 'd, 'e) mkchan" where
  "mkchan_new Q D E = \<lparr>wake_recv_event = ev_new E, msg_q = sq_new Q, drop_key_q = sq_new D,
     senders_dropped = False, receiver_dropped = False, sent = []\<rparr>"

definition mkreceiver_new :: "('e, 'l) event_ops \<Rightarrow> ('k, 'v, 'q, 'd, 'e) mkchan \<Rightarrow>
    ('k, 'v, 'l) mkreceiver \<times> ('k, 'v, 'q, 'd, 'e) mkchan" where
  "mkreceiver_new E c = (case ev_listen E (wake_recv_event c) of (l, e) \<Rightarrow>
     (\<lparr>conflict_manager = cm_new, event_listener = Some l, delivered = []\<rparr>, c\<lparr>wake_recv_event := e\<rparr>))"

definition mkchannel :: "('q, 'k list \<times> 'v) segq \<Rightarrow> ('d, 'k) segq \<Rightarrow> ('e, 'l) event_ops \<Rightarrow>
    ('k, 'v, 'q, 'd, 'e, 'l) mksys" where
  "mkchannel Q D E = (case mkreceiver_new E (mkchan_new Q D E) of (r, c) \<Rightarrow>
     \<lparr>chan = c, rcv = r, rpc = MIdle, spc = (\<lambda>_. MsIdle), owns = (\<lambda>t. t = 0), strong = 1,
      live = [], closing = []\<rparr>)"

section \<open>Steps of a sender\<close>

fun mksend_step :: "('q, 'k list \<times> 'v) segq \<Rightarrow> ('e, 'l) event_ops \<Rightarrow> ('k, 'v) mkspc \<Rightarrow> ('k, 'v, 'q, 'd, 'e) mkchan \<Rightarrow>
    (('k, 'v) mkspc \<times> ('k, 'v, 'q, 'd, 'e) mkchan) option" where
  "mksend_step Q E (MsCheck ks v) c = Some (if receiver_dropped c then MsDone False else MsPush ks v, c)"
| "mksend_step Q E (MsPush ks v) c =
     Some (MsNotify, c\<lparr>msg_q := sq_push Q (msg_q c) (ks, v), sent := sent c @ [(ks, v)]\<rparr>)"
| "mksend_step Q E MsNotify c =
     Some (MsDone True, c\<lparr>wake_recv_event := ev_notify E (wake_recv_event c) 1\<rparr>)"
| "mksend_step Q E MsStore c = Some (MsDropNotify, c\<lparr>senders_dropped := True\<rparr>)"
| "mksend_step Q E MsDropNotify c =
     Some (MsIdle, c\<lparr>wake_recv_event := ev_notify E (wake_recv_event c) 1\<rparr>)"
| "mksend_step Q E MsIdle c = None"
| "mksend_step Q E (MsDone b) c = None"

section \<open>Steps of the receiver\<close>

text \<open>
  The parameters of the conflict manager: \<open>it\<close> is the iteration order of each \<open>HashMap\<close>, \<open>oc\<close> says whether
  integer overflow is checked.
\<close>

definition mk_release :: "(addr \<Rightarrow> (i32 \<times> addr) list \<Rightarrow> (i32 \<times> addr) list) \<Rightarrow> 'k::linorder \<Rightarrow> ('k, 'v, 'l) mkreceiver \<Rightarrow>
    ('k, 'v, 'l) mkrpc \<times> ('k, 'v, 'l) mkreceiver" where
  "mk_release it k r = (case unuse_droped_key it k (conflict_manager r) of
     Inl p \<Rightarrow> (MPanic p, r)
   | Inr (None, cm) \<Rightarrow> (MDrop, r\<lparr>conflict_manager := cm\<rparr>)
   | Inr (Some m, cm) \<Rightarrow> (MRet (Some m), r\<lparr>conflict_manager := cm, delivered := delivered r @ [m]\<rparr>))"

definition mk_accept :: "bool \<Rightarrow> 'k::linorder list \<Rightarrow> 'v \<Rightarrow> ('k, 'v, 'l) mkreceiver \<Rightarrow>
    ('k, 'v, 'l) mkrpc \<times> ('k, 'v, 'l) mkreceiver" where
  "mk_accept oc ks v r = (case handle_new_msg oc ks v (conflict_manager r) of
     Inl p \<Rightarrow> (MPanic p, r)
   | Inr (None, cm) \<Rightarrow> (MDrop, r\<lparr>conflict_manager := cm\<rparr>)
   | Inr (Some m, cm) \<Rightarrow> (MRet (Some m), r\<lparr>conflict_manager := cm, delivered := delivered r @ [m]\<rparr>))"

record mk_params =
  mk_it :: "addr \<Rightarrow> (i32 \<times> addr) list \<Rightarrow> (i32 \<times> addr) list"
  mk_oc :: bool

fun mk_pop_step :: "mk_params \<Rightarrow> ('q, 'k list \<times> 'v) segq \<Rightarrow> ('d, 'k::linorder) segq \<Rightarrow> ('e, 'l) event_ops \<Rightarrow>
    ('k, 'v, 'l) mkrpc \<Rightarrow> ('k, 'v, 'q, 'd, 'e) mkchan \<Rightarrow> ('k, 'v, 'l) mkreceiver \<Rightarrow>
    (('k, 'v, 'l) mkrpc \<times> ('k, 'v, 'q, 'd, 'e) mkchan \<times> ('k, 'v, 'l) mkreceiver) option" where
  "mk_pop_step P Q D E MDrop c r =
     (case sq_pop D (drop_key_q c) of
        (None, d) \<Rightarrow> Some (MPop, c\<lparr>drop_key_q := d\<rparr>, r)
      | (Some k, d) \<Rightarrow> (case mk_release (mk_it P) k r of (pc, r') \<Rightarrow> Some (pc, c\<lparr>drop_key_q := d\<rparr>, r')))"
| "mk_pop_step P Q D E MPop c r =
     (case sq_pop Q (msg_q c) of
        (None, d) \<Rightarrow> Some (MQEmpty, c\<lparr>msg_q := d\<rparr>, r)
      | (Some (ks, v), d) \<Rightarrow> (case mk_accept (mk_oc P) ks v r of (pc, r') \<Rightarrow> Some (pc, c\<lparr>msg_q := d\<rparr>, r')))"
| "mk_pop_step P Q D E MQEmpty c r = Some (if sq_is_empty Q (msg_q c) then MDEmpty else MDrop, c, r)"
| "mk_pop_step P Q D E MDEmpty c r =
     Some (if \<not> sq_is_empty D (drop_key_q c) then MDrop
           else if waitingmsgs_exist (conflict_manager r) then MTake else MLoad, c, r)"
| "mk_pop_step P Q D E MLoad c r = Some (if senders_dropped c then MRet None else MTake, c, r)"
| "mk_pop_step P Q D E MTake c r =
     (case event_listener r of
        None \<Rightarrow> Some (MPanic ExplicitPanic, c, r)
      | Some l \<Rightarrow> Some (MWait l, c, r\<lparr>event_listener := None\<rparr>))"
| "mk_pop_step P Q D E (MWait l) c r =
     (if ev_notified E (wake_recv_event c) l
      then Some (MListen, c\<lparr>wake_recv_event := ev_consume E (wake_recv_event c) l\<rparr>, r) else None)"
| "mk_pop_step P Q D E MListen c r =
     (case ev_listen E (wake_recv_event c) of (l, e) \<Rightarrow>
        Some (MDrop, c\<lparr>wake_recv_event := e\<rparr>, r\<lparr>event_listener := Some l\<rparr>))"
| "mk_pop_step P Q D E MIdle c r = None"
| "mk_pop_step P Q D E (MRet m) c r = None"
| "mk_pop_step P Q D E MClosed c r = None"
| "mk_pop_step P Q D E MDropNotify c r =
     Some (MGone, c\<lparr>wake_recv_event := ev_notify E (wake_recv_event c) 1\<rparr>, r)"
| "mk_pop_step P Q D E MGone c r = None"
| "mk_pop_step P Q D E (MPanic p) c r = None"

section \<open>The system\<close>

datatype ('k, 'v) mklabel =
    MlClone nat nat
  | MlDropTx nat
  | MlSend nat "'k list" 'v
  | MlTx nat
  | MlRecv
  | MlRx
  | MlDropRx
  | MlDropMsg nat
  | MlDropStep nat

definition mkfree :: "('k, 'v) mkspc \<Rightarrow> bool" where
  "mkfree pc \<longleftrightarrow> (case pc of MsIdle \<Rightarrow> True | MsDone _ \<Rightarrow> True | _ \<Rightarrow> False)"

definition mkrfree :: "('k, 'v, 'l) mkrpc \<Rightarrow> bool" where
  "mkrfree pc \<longleftrightarrow> (case pc of MIdle \<Rightarrow> True | MClosed \<Rightarrow> True | _ \<Rightarrow> False)"

fun mksys_next :: "mk_params \<Rightarrow> ('q, 'k list \<times> 'v) segq \<Rightarrow> ('d, 'k::linorder) segq \<Rightarrow> ('e, 'l) event_ops \<Rightarrow>
    ('k, 'v, 'q, 'd, 'e, 'l) mksys \<Rightarrow> ('k, 'v) mklabel \<Rightarrow> ('k, 'v, 'q, 'd, 'e, 'l) mksys option" where
  "mksys_next P Q D E s (MlClone t u) =
     (if owns s t \<and> mkfree (spc s t) \<and> \<not> owns s u \<and> mkfree (spc s u)
      then Some (s\<lparr>owns := (owns s)(u := True), strong := Suc (strong s)\<rparr>) else None)"
| "mksys_next P Q D E s (MlDropTx t) =
     (if owns s t \<and> mkfree (spc s t)
      then Some (s\<lparr>owns := (owns s)(t := False), strong := strong s - 1,
        spc := (spc s)(t := if strong s = 1 then MsStore else MsIdle)\<rparr>) else None)"
| "mksys_next P Q D E s (MlSend t ks v) =
     (if owns s t \<and> mkfree (spc s t) then Some (s\<lparr>spc := (spc s)(t := MsCheck ks v)\<rparr>) else None)"
| "mksys_next P Q D E s (MlTx t) =
     (case mksend_step Q E (spc s t) (chan s) of
        None \<Rightarrow> None
      | Some (pc, c) \<Rightarrow> Some (s\<lparr>chan := c, spc := (spc s)(t := pc)\<rparr>))"
| "mksys_next P Q D E s MlRecv = (if mkrfree (rpc s) then Some (s\<lparr>rpc := MDrop\<rparr>) else None)"
| "mksys_next P Q D E s MlRx =
     (case rpc s of
        MRet None \<Rightarrow> Some (s\<lparr>rpc := MClosed\<rparr>)
      | MRet (Some (ks, v)) \<Rightarrow> Some (s\<lparr>rpc := MIdle, live := live s @ [mkmessage_new v ks]\<rparr>)
      | _ \<Rightarrow> (case mk_pop_step P Q D E (rpc s) (chan s) (rcv s) of
               None \<Rightarrow> None
             | Some (pc, c, r) \<Rightarrow> Some (s\<lparr>chan := c, rcv := r, rpc := pc\<rparr>)))"
| "mksys_next P Q D E s MlDropRx =
     (if mkrfree (rpc s)
      then Some (s\<lparr>chan := (chan s)\<lparr>receiver_dropped := True\<rparr>, rpc := MDropNotify\<rparr>) else None)"
| "mksys_next P Q D E s (MlDropMsg i) =
     (if i < length (live s)
      then Some (s\<lparr>live := remove_nth i (live s), closing := closing s @ [mm_ks (live s ! i)]\<rparr>) else None)"
| "mksys_next P Q D E s (MlDropStep j) =
     (if j < length (closing s) then
        (if closing s ! j = []
         then Some (s\<lparr>chan := (chan s)\<lparr>wake_recv_event := ev_notify E (wake_recv_event (chan s)) 1\<rparr>,
           closing := remove_nth j (closing s)\<rparr>)
         else Some (s\<lparr>chan := (chan s)\<lparr>drop_key_q := sq_push D (drop_key_q (chan s)) (last (closing s ! j))\<rparr>,
           closing := (closing s)[j := butlast (closing s ! j)]\<rparr>))
      else None)"

end
