(* ===== verification/KvMultikProofs.thy ===== *)
theory KvMultikProofs imports KvMultik begin

text \<open>
  Correctness of the channel of \<open>kv_mpsc_multik.rs\<close> when the messages sent have pairwise distinct keys:
  key exclusion and conservation while no panic has occurred, and the wake-up of the receiver; and the
  releases that a message delivered from the waiting map leaves to panic.
\<close>

section \<open>Keys in use and conservation\<close>

fun mk_ret_keys :: "('k, 'v, 'l) mkrpc \<Rightarrow> 'k list" where
  "mk_ret_keys (MRet (Some m)) = fst m"
| "mk_ret_keys _ = []"

definition mk_live_keys :: "('k, 'v, 'q, 'd, 'e, 'l) mksys \<Rightarrow> 'k list" where
  "mk_live_keys s = concat (map mm_ks (live s))"

definition held :: "('d \<Rightarrow> 'k list) \<Rightarrow> ('k, 'v, 'q, 'd, 'e, 'l) mksys \<Rightarrow> 'k multiset" where
  "held dc s = mset (mk_live_keys s) + mset (concat (closing s)) + mset (dc (drop_key_q (chan s))) + mset (mk_ret_keys (rpc s))"

definition no_panic :: "('k, 'v, 'q, 'd, 'e, 'l) mksys \<Rightarrow> bool" where
  "no_panic s \<longleftrightarrow> (case rpc s of MPanic _ \<Rightarrow> False | _ \<Rightarrow> True)"

definition core_inv :: "('q \<Rightarrow> ('k::linorder list \<times> 'v) list) \<Rightarrow> ('d \<Rightarrow> 'k list) \<Rightarrow>
    ('k, 'v, 'q, 'd, 'e, 'l) mksys \<Rightarrow> bool" where
  "core_inv qc dc s \<longleftrightarrow> (no_panic s \<longrightarrow> cm_inv (conflict_manager (rcv s)) \<and>
     held dc s = mset_set (used (conflict_manager (rcv s))) \<and> finite (used (conflict_manager (rcv s))) \<and>
     mset (sent (chan s)) = mset (delivered (rcv s)) + waiting_items (conflict_manager (rcv s)) + mset (qc (msg_q (chan s))))"

fun spc_keys :: "('k, 'v) mkspc \<Rightarrow> 'k list" where
  "spc_keys (MsCheck ks v) = ks"
| "spc_keys (MsPush ks v) = ks"
| "spc_keys _ = []"

definition dist_inv :: "('q \<Rightarrow> ('k list \<times> 'v) list) \<Rightarrow> ('k, 'v, 'q, 'd, 'e, 'l) mksys \<Rightarrow> bool" where
  "dist_inv qc s \<longleftrightarrow> (\<forall>t. distinct (spc_keys (spc s t))) \<and> (\<forall>m \<in> set (qc (msg_q (chan s))). distinct (fst m))"

fun distinct_send :: "('k, 'v) mklabel \<Rightarrow> bool" where
  "distinct_send (MlSend t ks v) = distinct ks"
| "distinct_send _ = True"

locale mk_ops = mq: seg_queue Q qc + dq: seg_queue D dc + ev: event E act
  for P :: mk_params
    and Q :: "('q, 'k::linorder list \<times> 'v) segq" and qc :: "'q \<Rightarrow> ('k list \<times> 'v) list"
    and D :: "('d, 'k) segq" and dc :: "'d \<Rightarrow> 'k list"
    and E :: "('e, 'l) event_ops" and act :: "'e \<Rightarrow> 'l set" +
  assumes iter: "set (mk_it P a xs) = set xs"
begin

lemma mset_set_release: "finite U \<Longrightarrow> k \<in> U \<Longrightarrow> mset_set U = add_mset k (mset_set (U - {k}))"
  by (metis mset_set.remove)

lemma mset_set_accept:
  "finite U \<Longrightarrow> distinct ks \<Longrightarrow> set ks \<inter> U = {} \<Longrightarrow> mset_set (U \<union> set ks) = mset_set U + mset ks"
  by (simp add: mset_set_Union Int_commute mset_set_set)

lemma release_core:
  assumes rel: "mk_release (mk_it P) k r = (pc, r')" and inv: "cm_inv (conflict_manager r)"
    and fin: "finite (used (conflict_manager r))"
  shows "(\<exists>p. pc = MPanic p) \<or> (pc = MDrop \<or> (\<exists>m. pc = MRet (Some m))) \<and> cm_inv (conflict_manager r') \<and>
    finite (used (conflict_manager r')) \<and>
    add_mset k (mset_set (used (conflict_manager r'))) = mset_set (used (conflict_manager r)) + mset (mk_ret_keys pc) \<and>
    mset (delivered r') + waiting_items (conflict_manager r') = mset (delivered r) + waiting_items (conflict_manager r)"
proof (cases "unuse_droped_key (mk_it P) k (conflict_manager r)")
  case (Inl p)
  with rel show ?thesis by (auto simp: mk_release_def)
next
  case (Inr x)
  obtain m cm where x: "x = (m, cm)" by force
  note ok = unuse_droped_key_ok [of "conflict_manager r" "mk_it P" k m cm, OF inv iter]
  show ?thesis
  proof (cases m)
    case None
    with Inr x rel have r: "pc = MDrop" "conflict_manager r' = cm" "delivered r' = delivered r"
      by (auto simp: mk_release_def)
    from Inr x None ok have o: "cm_inv cm" "k \<in> used (conflict_manager r)" "used cm = used (conflict_manager r) - {k}"
      "waiting_items cm = waiting_items (conflict_manager r)" by auto
    show ?thesis unfolding r o(3,4) using o(1) fin mset_set_release [OF fin o(2)] by simp
  next
    case (Some kv)
    obtain ks v where kv: "kv = (ks, v)" by force
    have U: "mset_set (used (conflict_manager r) - {k} \<union> set ks) = mset_set (used (conflict_manager r) - {k}) + mset ks"
      using Inr x Some kv ok fin by (intro mset_set_accept) auto
    from Inr x Some kv rel have r: "pc = MRet (Some (ks, v))" "conflict_manager r' = cm"
      "delivered r' = delivered r @ [(ks, v)]"
      by (auto simp: mk_release_def)
    from Inr x Some kv ok have o: "cm_inv cm" "k \<in> used (conflict_manager r)"
      "used cm = used (conflict_manager r) - {k} \<union> set ks"
      "waiting_items (conflict_manager r) = add_mset (ks, v) (waiting_items cm)" by auto
    show ?thesis unfolding r o(3,4) U using o(1) fin mset_set_release [OF fin o(2)] by simp
  qed
qed

lemma accept_core:
  assumes acc: "mk_accept (mk_oc P) ks v r = (pc, r')" and inv: "cm_inv (conflict_manager r)"
    and fin: "finite (used (conflict_manager r))" and d: "distinct ks"
  shows "(\<exists>p. pc = MPanic p) \<or> (pc = MDrop \<or> (\<exists>m. pc = MRet (Some m))) \<and> cm_inv (conflict_manager r') \<and>
    finite (used (conflict_manager r')) \<and>
    mset_set (used (conflict_manager r')) = mset_set (used (conflict_manager r)) + mset (mk_ret_keys pc) \<and>
    mset (delivered r') + waiting_items (conflict_manager r') =
      add_mset (ks, v) (mset (delivered r) + waiting_items (conflict_manager r))"
proof (cases "handle_new_msg (mk_oc P) ks v (conflict_manager r)")
  case (Inl p)
  with acc show ?thesis by (auto simp: mk_accept_def)
next
  case (Inr x)
  obtain m cm where x: "x = (m, cm)" by force
  note ok = handle_new_msg_ok [OF inv d, of "mk_oc P" v m cm]
  show ?thesis
  proof (cases m)
    case None
    with Inr x acc ok fin show ?thesis by (auto simp: mk_accept_def)
  next
    case (Some kv)
    have "mset_set (used (conflict_manager r) \<union> set ks) = mset_set (used (conflict_manager r)) + mset ks"
      using Inr x Some ok fin d by (intro mset_set_accept) auto
    with Inr x acc ok fin Some show ?thesis by (auto simp: mk_accept_def)
  qed
qed

lemma pop_step_core:
  assumes k: "core_inv qc dc s" and o: "dist_inv qc s"
    and st: "mk_pop_step P Q D E (rpc s) (chan s) (rcv s) = Some (pc, c, r)"
  shows "core_inv qc dc (s\<lparr>chan := c, rcv := r, rpc := pc\<rparr>) \<and> dist_inv qc (s\<lparr>chan := c, rcv := r, rpc := pc\<rparr>)"
proof (cases "rpc s")
  case MDrop
  then have k': "cm_inv (conflict_manager (rcv s))" "finite (used (conflict_manager (rcv s)))"
      "held dc s = mset_set (used (conflict_manager (rcv s)))"
      "mset (sent (chan s)) = mset (delivered (rcv s)) + waiting_items (conflict_manager (rcv s)) + mset (qc (msg_q (chan s)))"
    using k by (simp_all add: core_inv_def no_panic_def)
  obtain x d where pop: "sq_pop D (drop_key_q (chan s)) = (x, d)" by force
  show ?thesis
  proof (cases x)
    case None
    with pop have "dc (drop_key_q (chan s)) = []" "dc d = []" by (auto dest: dq.pop_NoneD)
    with None pop MDrop st k' o show ?thesis
      by (auto simp: core_inv_def dist_inv_def held_def mk_live_keys_def)
  next
    case (Some y)
    with pop have y: "dc (drop_key_q (chan s)) = y # dc d" by (auto dest: dq.pop_SomeD)
    obtain pc' r' where rel: "mk_release (mk_it P) y (rcv s) = (pc', r')" by force
    have e: "pc = pc'" "r = r'" "c = (chan s)\<lparr>drop_key_q := d\<rparr>"
      using MDrop Some pop rel st by auto
    have h: "held dc s = add_mset y (mset (mk_live_keys s) + mset (concat (closing s)) + mset (dc d))"
      using y MDrop by (simp add: held_def)
    from release_core [OF rel k'(1,2)] show ?thesis
    proof
      assume "\<exists>p. pc' = MPanic p"
      with e o show ?thesis by (auto simp: core_inv_def no_panic_def dist_inv_def)
    next
      assume rc: "(pc' = MDrop \<or> (\<exists>m. pc' = MRet (Some m))) \<and> cm_inv (conflict_manager r') \<and>
        finite (used (conflict_manager r')) \<and>
        add_mset y (mset_set (used (conflict_manager r'))) = mset_set (used (conflict_manager (rcv s))) + mset (mk_ret_keys pc') \<and>
        mset (delivered r') + waiting_items (conflict_manager r') =
          mset (delivered (rcv s)) + waiting_items (conflict_manager (rcv s))"
      then have "mset_set (used (conflict_manager r')) =
          mset (mk_live_keys s) + mset (concat (closing s)) + mset (dc d) + mset (mk_ret_keys pc')"
      proof -
        have "add_mset y (mset_set (used (conflict_manager r'))) = held dc s + mset (mk_ret_keys pc')"
          using rc k'(3) by simp
        then show ?thesis unfolding h by simp
      qed
      with rc e k' o show ?thesis
        by (simp add: core_inv_def dist_inv_def held_def mk_live_keys_def)
    qed
  qed
next
  case MPop
  then have k': "cm_inv (conflict_manager (rcv s))" "finite (used (conflict_manager (rcv s)))"
      "held dc s = mset_set (used (conflict_manager (rcv s)))"
      "mset (sent (chan s)) = mset (delivered (rcv s)) + waiting_items (conflict_manager (rcv s)) + mset (qc (msg_q (chan s)))"
    using k by (simp_all add: core_inv_def no_panic_def)
  obtain x d where pop: "sq_pop Q (msg_q (chan s)) = (x, d)" by force
  show ?thesis
  proof (cases x)
    case None
    with pop have "qc (msg_q (chan s)) = []" "qc d = []" by (auto dest: mq.pop_NoneD)
    with None pop MPop st k' o show ?thesis
      by (auto simp: core_inv_def dist_inv_def held_def mk_live_keys_def)
  next
    case (Some y)
    obtain ks v where a: "y = (ks, v)" by force
    with Some pop have y: "qc (msg_q (chan s)) = (ks, v) # qc d" by (auto dest: mq.pop_SomeD)
    obtain pc' r' where acc: "mk_accept (mk_oc P) ks v (rcv s) = (pc', r')" by force
    have ds: "distinct ks" using o y by (simp add: dist_inv_def)
    have e: "pc = pc'" "r = r'" "c = (chan s)\<lparr>msg_q := d\<rparr>"
      using MPop Some a pop acc st by auto
    from accept_core [OF acc k'(1,2) ds] show ?thesis
    proof
      assume "\<exists>p. pc' = MPanic p"
      with e o y show ?thesis by (auto simp: core_inv_def no_panic_def dist_inv_def)
    next
      assume ac: "(pc' = MDrop \<or> (\<exists>m. pc' = MRet (Some m))) \<and> cm_inv (conflict_manager r') \<and>
        finite (used (conflict_manager r')) \<and>
        mset_set (used (conflict_manager r')) = mset_set (used (conflict_manager (rcv s))) + mset (mk_ret_keys pc') \<and>
        mset (delivered r') + waiting_items (conflict_manager r') =
          add_mset (ks, v) (mset (delivered (rcv s)) + waiting_items (conflict_manager (rcv s)))"
      have "held dc s = mset (mk_live_keys s) + mset (concat (closing s)) + mset (dc (drop_key_q (chan s)))"
        using MPop by (simp add: held_def)
      with ac e k' o y show ?thesis
        by (auto simp: core_inv_def dist_inv_def held_def mk_live_keys_def)
    qed
  qed
qed (use k o st in \<open>auto simp: core_inv_def no_panic_def dist_inv_def held_def mk_live_keys_def split: if_splits option.splits prod.splits\<close>)

end

context mk_ops
begin

lemma mksys_rxE:
  assumes "mksys_next P Q D E s MlRx = Some s'"
  obtains (ret) m where "rpc s = MRet m"
  | (step) pc c r where "mk_pop_step P Q D E (rpc s) (chan s) (rcv s) = Some (pc, c, r)"
      "s' = s\<lparr>chan := c, rcv := r, rpc := pc\<rparr>"
proof (cases "\<exists>m. rpc s = MRet m")
  case False
  with assms obtain pc c r where "mk_pop_step P Q D E (rpc s) (chan s) (rcv s) = Some (pc, c, r)"
      "s' = s\<lparr>chan := c, rcv := r, rpc := pc\<rparr>"
    by (cases "rpc s"; cases "mk_pop_step P Q D E (rpc s) (chan s) (rcv s)")
      (auto simp del: mk_pop_step.simps)
  then show ?thesis by (rule step)
qed (auto intro: ret)


lemma mk_live_keys_drop:
  assumes "i < length (live s)"
  shows "mset (mk_live_keys s) = mset (mm_ks (live s ! i)) + mset (concat (map mm_ks (remove_nth i (live s))))"
  using mset_concat_remove_nth [of i "map mm_ks (live s)"] assms by (simp add: mk_live_keys_def map_remove_nth)

lemma held_drop_step:
  assumes "j < length (closing s)" "closing s ! j \<noteq> []"
  shows "mset (concat (closing s)) =
    add_mset (last (closing s ! j)) (mset (concat ((closing s)[j := butlast (closing s ! j)])))"
proof -
  have "mset (closing s ! j) = add_mset (last (closing s ! j)) (mset (butlast (closing s ! j)))"
    using assms(2) by (metis append_butlast_last_id mset.simps(1) mset.simps(2) union_code add_mset_add_single)
  with mset_concat_update [OF assms(1), of "butlast (closing s ! j)"] show ?thesis by simp
qed

lemma core_next:
  assumes k: "core_inv qc dc s" and o: "dist_inv qc s" and g: "distinct_send l" and st: "mksys_next P Q D E s l = Some s'"
  shows "core_inv qc dc s' \<and> dist_inv qc s'"
proof (cases l)
  case MlRx
  with st have "mksys_next P Q D E s MlRx = Some s'" by simp
  then show ?thesis
  proof (cases rule: mksys_rxE)
    case (ret m)
    with MlRx st k o show ?thesis
      by (cases m) (auto simp: core_inv_def no_panic_def held_def dist_inv_def mk_live_keys_def mkmessage_new_def ac_simps)
  next
    case (step pc c r)
    then show ?thesis using pop_step_core [OF k o] by simp
  qed
next
  case (MlDropMsg i)
  with st have i: "i < length (live s)"
    and s': "s' = s\<lparr>live := remove_nth i (live s), closing := closing s @ [mm_ks (live s ! i)]\<rparr>" by (auto split: if_splits)
  have "held dc s' = held dc s"
    using mk_live_keys_drop [OF i] by (simp add: held_def s') (simp add: mk_live_keys_def)
  with k o s' show ?thesis by (simp add: core_inv_def no_panic_def dist_inv_def)
next
  case (MlDropStep j)
  show ?thesis
  proof (cases "j < length (closing s) \<and> closing s ! j \<noteq> []")
    case True
    with MlDropStep st have s': "s' = s\<lparr>chan := (chan s)\<lparr>drop_key_q := sq_push D (drop_key_q (chan s)) (last (closing s ! j))\<rparr>,
           closing := (closing s)[j := butlast (closing s ! j)]\<rparr>" by auto
    have "held dc s' = held dc s"
      using held_drop_step [of j s] True by (simp add: held_def s' dq.contents_push mk_live_keys_def)
    with k o s' show ?thesis by (simp add: core_inv_def no_panic_def dist_inv_def)
  next
    case False
    with MlDropStep st have j: "j < length (closing s)" "closing s ! j = []"
      and s': "s' = s\<lparr>chan := (chan s)\<lparr>wake_recv_event := ev_notify E (wake_recv_event (chan s)) 1\<rparr>,
           closing := remove_nth j (closing s)\<rparr>" by (auto split: if_splits)
    have "held dc s' = held dc s"
      using mset_concat_remove_nth [OF j(1)] j(2) by (simp add: held_def s' mk_live_keys_def)
    with k o s' show ?thesis by (simp add: core_inv_def no_panic_def dist_inv_def)
  qed
next
  case (MlTx t)
  have "distinct (spc_keys (spc s t))" using o by (simp add: dist_inv_def)
  with MlTx st k o show ?thesis
    by (cases "spc s t"; clarsimp simp: core_inv_def no_panic_def dist_inv_def held_def mk_live_keys_def mq.contents_push
      split: if_splits)
next
  case (MlSend t ks v)
  with st k o g show ?thesis
    by (auto simp: core_inv_def no_panic_def dist_inv_def held_def mk_live_keys_def split: if_splits)
next
  case (MlDropTx t)
  with st k o show ?thesis
    by (auto simp: core_inv_def no_panic_def dist_inv_def held_def mk_live_keys_def split: if_splits)
next
  case (MlClone t u)
  with st k o show ?thesis
    by (auto simp: core_inv_def no_panic_def dist_inv_def held_def mk_live_keys_def split: if_splits)
next
  case MlRecv
  with st k o show ?thesis
    by (cases "rpc s") (auto simp: core_inv_def no_panic_def dist_inv_def held_def mk_live_keys_def mkrfree_def)
next
  case MlDropRx
  with st k o show ?thesis
    by (cases "rpc s") (auto simp: core_inv_def no_panic_def dist_inv_def held_def mk_live_keys_def mkrfree_def)
qed

end

section \<open>The listener and the wake-up\<close>

fun mgone :: "('k, 'v, 'l) mkrpc \<Rightarrow> bool" where
  "mgone MGone = True"
| "mgone MDropNotify = True"
| "mgone _ = False"

fun mk_handed :: "('k, 'v, 'l) mkrpc \<Rightarrow> 'l option" where
  "mk_handed (MWait l) = Some l"
| "mk_handed _ = None"

definition mk_the_listener :: "('k, 'v, 'q, 'd, 'e, 'l) mksys \<Rightarrow> 'l option" where
  "mk_the_listener s = (case mk_handed (rpc s) of Some l \<Rightarrow> Some l | None \<Rightarrow> event_listener (rcv s))"

definition mk_listener_inv :: "('e \<Rightarrow> 'l set) \<Rightarrow> ('k, 'v, 'q, 'd, 'e, 'l) mksys \<Rightarrow> bool" where
  "mk_listener_inv act s \<longleftrightarrow> act (wake_recv_event (chan s)) = set_option (mk_the_listener s) \<and>
     (mk_the_listener s = None \<longleftrightarrow> rpc s = MListen) \<and>
     (mk_handed (rpc s) \<noteq> None \<longrightarrow> event_listener (rcv s) = None)"

definition mk_signalled :: "('e, 'l) event_ops \<Rightarrow> ('k, 'v, 'q, 'd, 'e, 'l) mksys \<Rightarrow> bool" where
  "mk_signalled E s \<longleftrightarrow> (\<exists>l. mk_the_listener s = Some l \<and> ev_notified E (wake_recv_event (chan s)) l)"

text \<open>How far the checks before the wait have come.\<close>

fun mk_checks :: "('k, 'v, 'l) mkrpc \<Rightarrow> nat" where
  "mk_checks MDEmpty = 1"
| "mk_checks MLoad = 2"
| "mk_checks MTake = 3"
| "mk_checks (MWait _) = 3"
| "mk_checks _ = 0"

definition mk_wake_inv :: "('q \<Rightarrow> ('k list \<times> 'v) list) \<Rightarrow> ('d \<Rightarrow> 'k list) \<Rightarrow> ('e, 'l) event_ops \<Rightarrow>
    ('k, 'v, 'q, 'd, 'e, 'l) mksys \<Rightarrow> bool" where
  "mk_wake_inv qc dc E s \<longleftrightarrow> mk_signalled E s \<or>
     ((1 \<le> mk_checks (rpc s) \<longrightarrow> qc (msg_q (chan s)) = [] \<or> (\<exists>t. spc s t = MsNotify)) \<and>
      (2 \<le> mk_checks (rpc s) \<longrightarrow> dc (drop_key_q (chan s)) = [] \<or> closing s \<noteq> []) \<and>
      (3 \<le> mk_checks (rpc s) \<longrightarrow> \<not> senders_dropped (chan s) \<or> cm_waitingmsgs (conflict_manager (rcv s)) \<noteq> [] \<or>
        (\<exists>t. spc s t = MsDropNotify)))"

definition mk_closed_inv :: "('k, 'v, 'q, 'd, 'e, 'l) mksys \<Rightarrow> bool" where
  "mk_closed_inv s \<longleftrightarrow>
     (rpc s = MLoad \<or> rpc s = MRet None \<or> rpc s = MClosed \<longrightarrow> cm_waitingmsgs (conflict_manager (rcv s)) = []) \<and>
     (rpc s = MRet None \<or> rpc s = MClosed \<longrightarrow> senders_dropped (chan s))"

context mk_ops
begin

lemma mk_notify_signals:
  assumes "mk_listener_inv act s" "rpc s \<noteq> MListen"
  shows "\<exists>l. mk_the_listener s = Some l \<and> ev_notified E (ev_notify E (wake_recv_event (chan s)) 1) l"
proof -
  from assms obtain l where l: "mk_the_listener s = Some l" by (auto simp: mk_listener_inv_def)
  with assms have "act (wake_recv_event (chan s)) = {l}" by (simp add: mk_listener_inv_def)
  with l ev.notify_wakes [of "wake_recv_event (chan s)" l 1] show ?thesis by simp
qed

lemma mk_listener_inv_cong:
  assumes "mk_listener_inv act s" "rpc s \<noteq> MListen" "mk_handed (rpc s) = None"
    and "wake_recv_event (chan s') = wake_recv_event (chan s)" "event_listener (rcv s') = event_listener (rcv s)"
    and "mk_handed (rpc s') = None" "rpc s' \<noteq> MListen"
  shows "mk_listener_inv act s'"
  using assms by (simp add: mk_listener_inv_def mk_the_listener_def)

lemma mk_pop_step_other:
  assumes "mk_pop_step P Q D E pc c r = Some (pc', c', r')" "pc \<noteq> MListen" "pc \<noteq> MTake" "pc \<noteq> MDropNotify" "mk_handed pc = None"
  shows "wake_recv_event c' = wake_recv_event c \<and> event_listener r' = event_listener r \<and>
    mk_handed pc' = None \<and> pc' \<noteq> MListen"
  using assms
  by (cases pc) (auto simp: mk_release_def mk_accept_def waitingmsgs_exist_def split: prod.splits option.splits sum.splits if_splits)

lemma mk_pop_step_listener:
  assumes li: "mk_listener_inv act s" and st: "mk_pop_step P Q D E (rpc s) (chan s) (rcv s) = Some (pc, c, r)"
  shows "mk_listener_inv act (s\<lparr>chan := c, rcv := r, rpc := pc\<rparr>)"
proof (cases "rpc s")
  case MTake
  then have t: "mk_the_listener s = event_listener (rcv s)" by (simp add: mk_the_listener_def)
  then obtain l where l: "event_listener (rcv s) = Some l" using li MTake by (auto simp: mk_listener_inv_def)
  with MTake st have "pc = MWait l" "c = chan s" "r = (rcv s)\<lparr>event_listener := None\<rparr>" by auto
  with li t l show ?thesis by (simp add: mk_listener_inv_def mk_the_listener_def)
next
  case (MWait l)
  then have t: "mk_the_listener s = Some l" by (simp add: mk_the_listener_def)
  from MWait st have "pc = MListen" "r = rcv s"
    "c = (chan s)\<lparr>wake_recv_event := ev_consume E (wake_recv_event (chan s)) l\<rparr>"
    by (auto split: if_splits)
  with li t MWait show ?thesis by (simp add: mk_listener_inv_def mk_the_listener_def ev.active_consume)
next
  case MListen
  obtain l e where le: "ev_listen E (wake_recv_event (chan s)) = (l, e)" by force
  with MListen st have "pc = MDrop" "c = (chan s)\<lparr>wake_recv_event := e\<rparr>" "r = (rcv s)\<lparr>event_listener := Some l\<rparr>"
    by auto
  moreover have "act (wake_recv_event (chan s)) = {}" using li MListen by (simp add: mk_listener_inv_def)
  ultimately show ?thesis using ev.listen_alone [OF le] by (simp add: mk_listener_inv_def mk_the_listener_def)
next
  case MDropNotify
  then have "mk_the_listener s = event_listener (rcv s)" by (simp add: mk_the_listener_def)
  moreover from MDropNotify st have "pc = MGone" "r = rcv s"
    "c = (chan s)\<lparr>wake_recv_event := ev_notify E (wake_recv_event (chan s)) 1\<rparr>" by auto
  ultimately show ?thesis using li MDropNotify by (simp add: mk_listener_inv_def mk_the_listener_def ev.active_notify)
qed (use li mk_pop_step_other [OF st] in \<open>auto intro!: mk_listener_inv_cong [OF li]\<close>)

lemma mk_listener_inv_same:
  assumes "mk_listener_inv act s" "act (wake_recv_event (chan s')) = act (wake_recv_event (chan s))"
    and "rcv s' = rcv s" "rpc s' = rpc s"
  shows "mk_listener_inv act s'"
proof -
  have "mk_the_listener s' = mk_the_listener s" unfolding mk_the_listener_def assms(3,4) by (rule refl)
  with assms show ?thesis by (simp add: mk_listener_inv_def)
qed

lemma mksend_step_event:
  "mksend_step Q E pc c = Some (pc', c') \<Longrightarrow> act (wake_recv_event c') = act (wake_recv_event c)"
  by (cases pc) (auto simp: ev.active_notify)

lemma mk_listener_inv_next:
  assumes li: "mk_listener_inv act s" and st: "mksys_next P Q D E s l = Some s'"
  shows "mk_listener_inv act s'"
proof (cases l)
  case MlRx
  with st have "mksys_next P Q D E s MlRx = Some s'" by simp
  then show ?thesis
  proof (cases rule: mksys_rxE)
    case (ret m)
    with MlRx st show ?thesis
      by (cases m) (auto intro: mk_listener_inv_cong [OF li])
  next
    case (step pc c r)
    then show ?thesis using mk_pop_step_listener [OF li step(1)] by auto
  qed
next
  case MlRecv
  with st show ?thesis
    by (cases "rpc s") (auto simp: mkrfree_def intro: mk_listener_inv_cong [OF li])
next
  case MlDropRx
  with st show ?thesis
    by (cases "rpc s") (auto simp: mkrfree_def intro: mk_listener_inv_cong [OF li])
next
  case (MlTx t)
  with st obtain pc c where c: "mksend_step Q E (spc s t) (chan s) = Some (pc, c)"
    and s': "s' = s\<lparr>chan := c, spc := (spc s)(t := pc)\<rparr>" by (auto split: option.splits)
  from mksend_step_event [OF c] show ?thesis by (intro mk_listener_inv_same [OF li]) (simp_all add: s')
qed (use st in \<open>auto simp: ev.active_notify split: if_splits option.splits intro: mk_listener_inv_same [OF li]\<close>)

text \<open>The steps of the receiver between the last check and the wait keep what has been checked.\<close>

lemma mk_wake_inv_rx:
  assumes li: "mk_listener_inv act s" and wk: "mk_wake_inv qc dc E s" and cl: "mk_closed_inv s"
    and st: "mk_pop_step P Q D E (rpc s) (chan s) (rcv s) = Some (pc, c, r)"
  shows "mk_wake_inv qc dc E (s\<lparr>chan := c, rcv := r, rpc := pc\<rparr>)"
proof (cases "mk_checks pc = 0")
  case True
  then show ?thesis by (simp add: mk_wake_inv_def)
next
  case False
  let ?s = "s\<lparr>chan := c, rcv := r, rpc := pc\<rparr>"
  have pc: "rpc s = MQEmpty \<or> rpc s = MDEmpty \<or> rpc s = MLoad \<or> rpc s = MTake"
    using st False
    by (cases "rpc s") (auto simp: mk_release_def mk_accept_def waitingmsgs_exist_def split: prod.splits option.splits sum.splits if_splits)
  then have c: "c = chan s" and u: "cm_waitingmsgs (conflict_manager r) = cm_waitingmsgs (conflict_manager (rcv s))"
    using st by (auto split: if_splits option.splits)
  have "mk_the_listener ?s = mk_the_listener s"
    using pc st by (auto simp: mk_the_listener_def split: if_splits option.splits)
  then have sg: "mk_signalled E ?s = mk_signalled E s" by (simp add: mk_signalled_def c)
  from pc show ?thesis
  proof (elim disjE)
    assume "rpc s = MQEmpty"
    with st False have "pc = MDEmpty" "qc (msg_q (chan s)) = []" by (auto simp: mq.is_empty_iff split: if_splits)
    then show ?thesis by (simp add: mk_wake_inv_def c)
  next
    assume p: "rpc s = MDEmpty"
    with st False have d: "dc (drop_key_q (chan s)) = []" "pc = (if cm_waitingmsgs (conflict_manager (rcv s)) = [] then MLoad else MTake)"
      by (auto simp: dq.is_empty_iff waitingmsgs_exist_def split: if_splits)
    from wk p have "mk_signalled E s \<or> qc (msg_q (chan s)) = [] \<or> (\<exists>t. spc s t = MsNotify)" by (simp add: mk_wake_inv_def)
    with d u show ?thesis unfolding mk_wake_inv_def sg by (simp add: c)
  next
    assume p: "rpc s = MLoad"
    with st False have d: "\<not> senders_dropped (chan s)" "pc = MTake" by (auto split: if_splits)
    from wk p have "mk_signalled E s \<or> (qc (msg_q (chan s)) = [] \<or> (\<exists>t. spc s t = MsNotify)) \<and>
      (dc (drop_key_q (chan s)) = [] \<or> closing s \<noteq> [])" by (simp add: mk_wake_inv_def)
    with d show ?thesis unfolding mk_wake_inv_def sg by (simp add: c)
  next
    assume p: "rpc s = MTake"
    with st False obtain l where "pc = MWait l" by (auto split: option.splits)
    with wk p u show ?thesis unfolding mk_wake_inv_def sg by (simp add: c)
  qed
qed

end

lemma mk_pop_step_closed:
  assumes "mk_pop_step P Q D E pc c r = Some (pc', c', r')"
  shows "(pc' = MLoad \<longrightarrow> cm_waitingmsgs (conflict_manager r') = []) \<and> pc' \<noteq> MClosed \<and> (mgone pc' \<longleftrightarrow> mgone pc) \<and>
    (pc' = MRet None \<longrightarrow> pc = MLoad \<and> senders_dropped c' \<and> r' = r) \<and> receiver_dropped c' = receiver_dropped c \<and>
    senders_dropped c' = senders_dropped c"
  using assms
  by (cases pc) (auto simp: mk_release_def mk_accept_def waitingmsgs_exist_def split: prod.splits option.splits sum.splits if_splits)

context mk_ops
begin

text \<open>A notification reaches the receiver's listener unless it is just being replaced.\<close>

lemma mk_wake_inv_notified:
  assumes li: "mk_listener_inv act s" and "rcv s' = rcv s" "rpc s' = rpc s"
    and e: "wake_recv_event (chan s') = ev_notify E (wake_recv_event (chan s)) 1"
  shows "mk_wake_inv qc dc E s'"
proof (cases "rpc s = MListen")
  case False
  have "mk_the_listener s' = mk_the_listener s" unfolding mk_the_listener_def assms(2,3) by (rule refl)
  with mk_notify_signals [OF li False] e have "mk_signalled E s'" by (simp add: mk_signalled_def)
  then show ?thesis by (simp add: mk_wake_inv_def)
qed (simp add: mk_wake_inv_def assms)

lemma mk_wake_inv_mono:
  assumes wk: "mk_wake_inv qc dc E s" and same: "rcv s' = rcv s" "rpc s' = rpc s"
    "wake_recv_event (chan s') = wake_recv_event (chan s)"
    and q: "qc (msg_q (chan s)) = [] \<or> (\<exists>t. spc s t = MsNotify) \<Longrightarrow> qc (msg_q (chan s')) = [] \<or> (\<exists>t. spc s' t = MsNotify)"
    and d: "dc (drop_key_q (chan s)) = [] \<or> closing s \<noteq> [] \<Longrightarrow> dc (drop_key_q (chan s')) = [] \<or> closing s' \<noteq> []"
    and c: "\<not> senders_dropped (chan s) \<or> (\<exists>t. spc s t = MsDropNotify) \<Longrightarrow>
      \<not> senders_dropped (chan s') \<or> (\<exists>t. spc s' t = MsDropNotify)"
  shows "mk_wake_inv qc dc E s'"
proof -
  have "mk_the_listener s' = mk_the_listener s" unfolding mk_the_listener_def same by (rule refl)
  then have "mk_signalled E s' = mk_signalled E s" by (simp add: mk_signalled_def same)
  with wk q d c show ?thesis unfolding mk_wake_inv_def same by argo
qed

lemma mkfree_not_notify: "mkfree pc \<Longrightarrow> pc \<noteq> MsNotify \<and> pc \<noteq> MsDropNotify"
  by (auto simp: mkfree_def)

lemma mksend_step_other:
  assumes "mksend_step Q E pc c = Some (pc', c')" "\<not> (pc = MsNotify \<or> pc = MsDropNotify)"
  shows "wake_recv_event c' = wake_recv_event c \<and> drop_key_q c' = drop_key_q c \<and>
    (pc' = MsNotify \<or> msg_q c' = msg_q c) \<and> (pc' = MsDropNotify \<or> senders_dropped c' = senders_dropped c)"
  using assms by (cases pc) auto

lemma mk_wake_inv_next:
  assumes li: "mk_listener_inv act s" and wk: "mk_wake_inv qc dc E s" and cl: "mk_closed_inv s"
    and st: "mksys_next P Q D E s l = Some s'"
  shows "mk_wake_inv qc dc E s'"
proof (cases l)
  case MlRx
  with st have "mksys_next P Q D E s MlRx = Some s'" by simp
  then show ?thesis
  proof (cases rule: mksys_rxE)
    case (ret m)
    with MlRx st show ?thesis by (cases m) (auto simp: mk_wake_inv_def)
  next
    case (step pc c r)
    then show ?thesis using mk_wake_inv_rx [OF li wk cl step(1)] by simp
  qed
next
  case (MlTx t)
  then obtain pc c where c: "mksend_step Q E (spc s t) (chan s) = Some (pc, c)"
    and s': "s' = s\<lparr>chan := c, spc := (spc s)(t := pc)\<rparr>" using st by (auto split: option.splits)
  show ?thesis
  proof (cases "spc s t = MsNotify \<or> spc s t = MsDropNotify")
    case True
    with c s' show ?thesis by (intro mk_wake_inv_notified [OF li]) auto
  next
    case False
    note o = mksend_step_other [OF c False]
    show ?thesis
    proof (rule mk_wake_inv_mono [OF wk])
      assume "qc (msg_q (chan s)) = [] \<or> (\<exists>t. spc s t = MsNotify)"
      then show "qc (msg_q (chan s')) = [] \<or> (\<exists>t. spc s' t = MsNotify)"
        using False o s' ex_upd [of pc MsNotify "spc s" t] by (auto simp del: fun_upd_apply)
    next
      assume "\<not> senders_dropped (chan s) \<or> (\<exists>t. spc s t = MsDropNotify)"
      then show "\<not> senders_dropped (chan s') \<or> (\<exists>t. spc s' t = MsDropNotify)"
        using False o s' ex_upd [of pc MsDropNotify "spc s" t] by (auto simp del: fun_upd_apply)
    qed (use o s' in auto)
  qed
next
  case (MlDropStep j)
  show ?thesis
  proof (cases "j < length (closing s) \<and> closing s ! j = []")
    case True
    with MlDropStep st show ?thesis by (intro mk_wake_inv_notified [OF li]) auto
  next
    case False
    with MlDropStep st show ?thesis by (auto intro!: mk_wake_inv_mono [OF wk] split: if_splits)
  qed
next
  case (MlDropTx t)
  with st have f: "mkfree (spc s t)" and s': "s' = s\<lparr>owns := (owns s)(t := False), strong := strong s - 1,
        spc := (spc s)(t := if strong s = 1 then MsStore else MsIdle)\<rparr>" by (auto split: if_splits)
  show ?thesis
    using mkfree_not_notify [OF f] ex_upd [of _ _ "spc s" t]
    by (intro mk_wake_inv_mono [OF wk]) (auto simp: s' simp del: fun_upd_apply)
next
  case (MlSend t k v)
  with st have f: "mkfree (spc s t)" and s': "s' = s\<lparr>spc := (spc s)(t := MsCheck k v)\<rparr>" by (auto split: if_splits)
  show ?thesis
    using mkfree_not_notify [OF f] ex_upd [of _ _ "spc s" t]
    by (intro mk_wake_inv_mono [OF wk]) (auto simp: s' simp del: fun_upd_apply)
next
  case (MlClone t u)
  with st show ?thesis by (auto intro!: mk_wake_inv_mono [OF wk] split: if_splits)
next
  case (MlDropMsg i)
  with st show ?thesis by (auto intro!: mk_wake_inv_mono [OF wk] split: if_splits option.splits)
qed (use st in \<open>auto simp: mk_wake_inv_def split: if_splits\<close>)

lemma mk_closed_inv_mono:
  "mk_closed_inv s \<Longrightarrow> rcv s' = rcv s \<Longrightarrow> rpc s' = rpc s \<Longrightarrow>
    (senders_dropped (chan s) \<Longrightarrow> senders_dropped (chan s')) \<Longrightarrow> mk_closed_inv s'"
  by (simp add: mk_closed_inv_def)

lemma mk_closed_inv_next:
  assumes cl: "mk_closed_inv s" and st: "mksys_next P Q D E s l = Some s'"
  shows "mk_closed_inv s'"
proof (cases l)
  case MlRx
  with st have "mksys_next P Q D E s MlRx = Some s'" by simp
  then show ?thesis
  proof (cases rule: mksys_rxE)
    case (ret m)
    with MlRx st cl show ?thesis by (cases m) (auto simp: mk_closed_inv_def)
  next
    case (step pc c r)
    with cl mk_pop_step_closed [OF step(1)] show ?thesis by (simp add: mk_closed_inv_def) blast
  qed
next
  case (MlTx t)
  with st obtain pc c where c: "mksend_step Q E (spc s t) (chan s) = Some (pc, c)"
    and s': "s' = s\<lparr>chan := c, spc := (spc s)(t := pc)\<rparr>" by (auto split: option.splits)
  have "senders_dropped (chan s) \<Longrightarrow> senders_dropped c" using c by (cases "spc s t") auto
  then show ?thesis by (intro mk_closed_inv_mono [OF cl]) (simp_all add: s')
next
  case MlRecv
  with st show ?thesis by (auto simp: mk_closed_inv_def split: if_splits)
next
  case MlDropRx
  with st show ?thesis by (auto simp: mk_closed_inv_def split: if_splits)
qed (use st in \<open>auto intro!: mk_closed_inv_mono [OF cl] split: if_splits option.splits\<close>)

end

section \<open>Sender handles\<close>

fun mksending :: "('k, 'v) mkspc \<Rightarrow> bool" where
  "mksending (MsCheck _ _) = True"
| "mksending (MsPush _ _) = True"
| "mksending MsNotify = True"
| "mksending _ = False"

definition mkhandle_inv :: "('k, 'v, 'q, 'd, 'e, 'l) mksys \<Rightarrow> bool" where
  "mkhandle_inv s \<longleftrightarrow> finite {t. owns s t} \<and> strong s = card {t. owns s t} \<and>
     (senders_dropped (chan s) \<longrightarrow> strong s = 0) \<and>
     (\<forall>t. spc s t = MsStore \<or> spc s t = MsDropNotify \<longrightarrow> strong s = 0) \<and>
     (\<forall>t. mksending (spc s t) \<longrightarrow> owns s t) \<and>
     (\<forall>t. spc s t = MsDone False \<longrightarrow> receiver_dropped (chan s)) \<and>
     (receiver_dropped (chan s) \<longleftrightarrow> mgone (rpc s)) \<and>
     (strong s = 0 \<and> \<not> senders_dropped (chan s) \<longrightarrow> (\<exists>t. spc s t = MsStore))"

lemma mkhandle_strong: "mkhandle_inv s \<Longrightarrow> owns s t \<Longrightarrow> 0 < strong s"
  by (auto simp: mkhandle_inv_def card_gt_0_iff)


lemma mksend_step_handle:
  assumes "mksend_step Q E pc c = Some (pc', c')"
  shows "(mksending pc' \<longrightarrow> mksending pc) \<and> pc' \<noteq> MsStore \<and> (pc' = MsDropNotify \<longrightarrow> pc = MsStore) \<and>
    (senders_dropped c' \<longleftrightarrow> senders_dropped c \<or> pc = MsStore) \<and>
    (pc' = MsDone False \<longrightarrow> receiver_dropped c) \<and> receiver_dropped c' = receiver_dropped c"
  using assms by (cases pc) (auto split: if_splits)

lemma mkfree_simps: "mkfree pc \<Longrightarrow> \<not> mksending pc \<and> pc \<noteq> MsStore \<and> pc \<noteq> MsDropNotify"
  by (cases pc) (auto simp: mkfree_def)

lemma mkhandle_cong:
  assumes "mkhandle_inv s" "owns s' = owns s" "strong s' = strong s" "spc s' = spc s"
    "senders_dropped (chan s') = senders_dropped (chan s)" "receiver_dropped (chan s') = receiver_dropped (chan s)"
    "mgone (rpc s') \<longleftrightarrow> mgone (rpc s)"
  shows "mkhandle_inv s'"
  using assms(1) unfolding mkhandle_inv_def assms(2-7) .

lemma mkhandle_inv_next:
  assumes inv: "mkhandle_inv s" and st: "mksys_next P Q D E s l = Some s'"
  shows "mkhandle_inv s'"
proof (cases l)
  case (MlTx t)
  with st obtain pc c where ts: "mksend_step Q E (spc s t) (chan s) = Some (pc, c)"
    and s': "s' = s\<lparr>chan := c, spc := (spc s)(t := pc)\<rparr>" by (auto split: option.splits)
  note h = mksend_step_handle [OF ts]
  have z: "strong s = 0" if "spc s v = MsStore \<or> spc s v = MsDropNotify" for v
    using inv that by (auto simp: mkhandle_inv_def)
  have 1: "strong s = 0" if "spc s' v = MsStore \<or> spc s' v = MsDropNotify" for v
    using that h z [of v] z [of t] s' by (cases "v = t") auto
  have 2: "owns s v" if "mksending (spc s' v)" for v
    using that h inv s' by (cases "v = t") (auto simp: mkhandle_inv_def)
  have 3: "receiver_dropped (chan s)" if "spc s' v = MsDone False" for v
    using that h inv s' by (cases "v = t") (auto simp: mkhandle_inv_def)
  have 4: "\<exists>v. spc s' v = MsStore" if n: "strong s = 0" "\<not> senders_dropped c"
  proof -
    from n h inv obtain v where v: "spc s v = MsStore" by (auto simp: mkhandle_inv_def)
    with n h have "v \<noteq> t" by auto
    with v s' show ?thesis by (intro exI [of _ v]) simp
  qed
  have 5: "strong s = 0" if "senders_dropped c" using that h z [of t] inv by (auto simp: mkhandle_inv_def)
  show ?thesis
    unfolding mkhandle_inv_def
    using inv 1 2 3 4 5 h s' by (simp add: mkhandle_inv_def)
next
  case MlRx
  then show ?thesis
  proof (cases "\<exists>m. rpc s = MRet m")
    case True
    then obtain m where "rpc s = MRet m" by blast
    with MlRx st have "owns s' = owns s \<and> strong s' = strong s \<and> spc s' = spc s \<and> chan s' = chan s \<and> \<not> mgone (rpc s')"
      by (cases m) auto
    with \<open>rpc s = MRet m\<close> show ?thesis by (intro mkhandle_cong [OF inv]) auto
  next
    case False
    with MlRx st obtain pc c r where ts: "mk_pop_step P Q D E (rpc s) (chan s) (rcv s) = Some (pc, c, r)"
      and s': "s' = s\<lparr>chan := c, rcv := r, rpc := pc\<rparr>"
      by (cases "rpc s"; cases "mk_pop_step P Q D E (rpc s) (chan s) (rcv s)")
        (auto simp del: mk_pop_step.simps)
    with mk_pop_step_closed [OF ts] s' show ?thesis by (intro mkhandle_cong [OF inv]) auto
  qed
next
  case (MlClone t u)
  with st have own: "owns s t" "\<not> owns s u" and s': "s' = s\<lparr>owns := (owns s)(u := True), strong := Suc (strong s)\<rparr>"
    by (auto split: if_splits)
  have set: "{v. ((owns s)(u := True)) v} = insert u {v. owns s v}" by auto
  have "0 < strong s" using mkhandle_strong [OF inv own(1)] .
  with inv own s' set show ?thesis by (auto simp: mkhandle_inv_def simp del: fun_upd_apply)
next
  case (MlDropTx t)
  with st have own: "owns s t" "mkfree (spc s t)" and s': "s' = s\<lparr>owns := (owns s)(t := False), strong := strong s - 1,
        spc := (spc s)(t := if strong s = 1 then MsStore else MsIdle)\<rparr>"
    by (auto split: if_splits)
  have set: "{v. ((owns s)(t := False)) v} = {v. owns s v} - {t}" by auto
  have "0 < strong s" using mkhandle_strong [OF inv own(1)] .
  then have fl: "\<not> senders_dropped (chan s)" "\<forall>v. spc s v \<noteq> MsStore \<and> spc s v \<noteq> MsDropNotify"
    using inv by (auto simp: mkhandle_inv_def)
  have f: "chan s' = chan s" "rpc s' = rpc s" "strong s' = strong s - 1" "owns s' = (owns s)(t := False)"
    "spc s' = (spc s)(t := if strong s = 1 then MsStore else MsIdle)" by (simp_all add: s')
  have "finite {v. owns s' v}" "strong s' = card {v. owns s' v}"
    unfolding f set using inv own by (auto simp: mkhandle_inv_def)
  moreover have "\<not> senders_dropped (chan s')" using fl f by simp
  moreover have "strong s' = 0" if "spc s' v = MsStore \<or> spc s' v = MsDropNotify" for v
    using that fl f by (cases "v = t") (auto split: if_splits)
  moreover have "owns s' v" if "mksending (spc s' v)" for v
    using that inv f by (cases "v = t") (auto simp: mkhandle_inv_def split: if_splits)
  moreover have "receiver_dropped (chan s')" if "spc s' v = MsDone False" for v
    using that inv f by (cases "v = t") (auto simp: mkhandle_inv_def split: if_splits)
  moreover have "\<exists>v. spc s' v = MsStore" if "strong s' = 0"
    using that \<open>0 < strong s\<close> f by (intro exI [of _ t]) simp
  moreover have "receiver_dropped (chan s') \<longleftrightarrow> mgone (rpc s')"
    using inv unfolding mkhandle_inv_def f by (elim conjE)
  ultimately show ?thesis unfolding mkhandle_inv_def by blast
next
  case (MlSend t k v)
  with st have own: "owns s t" "mkfree (spc s t)" and s': "s' = s\<lparr>spc := (spc s)(t := MsCheck k v)\<rparr>"
    by (auto split: if_splits)
  from mkhandle_strong [OF inv own(1)] inv own s' mkfree_simps [OF own(2)] show ?thesis
    by (auto simp: mkhandle_inv_def)
next
  case MlRecv
  with st show ?thesis by (cases "rpc s") (auto simp: mkrfree_def intro!: mkhandle_cong [OF inv])
next
  case (MlDropMsg i)
  with st show ?thesis by (auto intro!: mkhandle_cong [OF inv] split: if_splits option.splits)
next
  case (MlDropStep j)
  with st show ?thesis by (auto intro!: mkhandle_cong [OF inv] split: if_splits)
next
  case MlDropRx
  with st have s': "s' = s\<lparr>chan := (chan s)\<lparr>receiver_dropped := True\<rparr>, rpc := MDropNotify\<rparr>" by (auto split: if_splits)
  from inv show ?thesis unfolding mkhandle_inv_def s' by (elim conjE) (intro conjI; simp)
qed

section \<open>The invariant of the channel\<close>

definition mksys_inv :: "('q \<Rightarrow> ('k::linorder list \<times> 'v) list) \<Rightarrow> ('d \<Rightarrow> 'k list) \<Rightarrow> ('e, 'l) event_ops \<Rightarrow>
    ('e \<Rightarrow> 'l set) \<Rightarrow> ('k, 'v, 'q, 'd, 'e, 'l) mksys \<Rightarrow> bool" where
  "mksys_inv qc dc E act s \<longleftrightarrow> core_inv qc dc s \<and> dist_inv qc s \<and> mk_listener_inv act s \<and> mk_wake_inv qc dc E s \<and>
     mk_closed_inv s \<and> mkhandle_inv s"

lemma mksys_invD:
  assumes "mksys_inv qc dc E act s"
  shows "core_inv qc dc s" "dist_inv qc s" "mk_listener_inv act s" "mk_wake_inv qc dc E s" "mk_closed_inv s" "mkhandle_inv s"
  using assms by (simp_all add: mksys_inv_def)

sublocale mk_ops \<subseteq> mch: lts_invariant "guarded distinct_send (mksys_next P Q D E)" "mkchannel Q D E" "mksys_inv qc dc E act"
proof (unfold_locales, goal_cases)
  case 1
  obtain l e where le: "ev_listen E (ev_new E) = (l, e)" by force
  have "act e = {l}" by (rule ev.listen_alone [OF le]) (rule ev.active_new)
  with le show ?case
    by (simp add: mkchannel_def mkreceiver_new_def mkchan_new_def mksys_inv_def core_inv_def dist_inv_def
        mk_listener_inv_def mk_wake_inv_def mk_closed_inv_def mkhandle_inv_def mk_live_keys_def held_def mk_the_listener_def
        cm_inv_new mq.contents_new dq.contents_new)
next
  case (2 s l s')
  note inv = mksys_invD [OF 2(1)] and st = guardedD [OF 2(2)]
  show ?case
    unfolding mksys_inv_def
    using core_next [OF inv(1,2) conjunct1 [OF st] conjunct2 [OF st]] mk_listener_inv_next [OF inv(3) conjunct2 [OF st]]
      mk_wake_inv_next [OF inv(3,4,5) conjunct2 [OF st]] mk_closed_inv_next [OF inv(5) conjunct2 [OF st]]
      mkhandle_inv_next [OF inv(6) conjunct2 [OF st]]
    by simp
qed

context mk_ops
begin

lemma mksys_exec_inv:
  assumes "exec (mksys_next P Q D E) (mkchannel Q D E) ls = Some s" "list_all distinct_send ls"
  shows "mksys_inv qc dc E act s"
proof -
  have "exec (guarded distinct_send (mksys_next P Q D E)) (mkchannel Q D E) ls = Some s"
    using assms by (simp add: exec_guarded)
  then show ?thesis by (rule mch.inv_reaches [OF reachesI])
qed

end

lemma mk_opsI:
  "seg_queue Q qc \<Longrightarrow> seg_queue D dc \<Longrightarrow> event E act \<Longrightarrow> (\<And>a xs. set (mk_it P a xs) = set xs) \<Longrightarrow> mk_ops P Q qc D dc E act"
  by (simp add: mk_ops_def mk_ops_axioms_def)

definition mk_default :: mk_params where
  "mk_default = \<lparr>mk_it = (\<lambda>_ xs. xs), mk_oc = True\<rparr>"

lemma mk_default_iter: "set (mk_it mk_default a xs) = set xs"
  by (simp add: mk_default_def)

interpretation lmk: mk_ops mk_default list_segq id list_segq id list_event list_event_active
  by (rule mk_opsI [OF seg_queue_list seg_queue_list event_list mk_default_iter])

lemma mset_set_distinct: "mset xs = mset_set U \<Longrightarrow> finite U \<Longrightarrow> distinct xs"
  by (metis distinct_count_atmost_1 count_mset_set(1,3) finite_set_mset_mset_set set_mset_mset)


section \<open>The properties\<close>

type_synonym list_mksys =
  "(nat, nat, (nat list \<times> nat) list, nat list, nat list \<times> nat list, nat) mksys"



text \<open>
  C1: key exclusion for messages with several keys.  In every run in which each message sent has
  pairwise different keys, and as long as the receiver has not panicked, no key is held twice: not by
  two live messages, nor by a live message and one being dropped or a release still queued.
\<close>

theorem mk_key_exclusive:
  assumes ops: "seg_queue Q qc" "seg_queue D dc" "event E act" "\<And>a xs. set (mk_it P a xs) = set xs"
    and run: "exec (mksys_next P Q D E) (mkchannel Q D E) ls = Some s" "list_all distinct_send ls"
    and np: "no_panic s"
  shows "distinct (mk_live_keys s @ concat (closing s) @ dc (drop_key_q (chan s)))"
proof -
  from mksys_invD(1) [OF mk_ops.mksys_exec_inv [OF mk_opsI [OF ops] run]] np
  have h: "held dc s = mset_set (used (conflict_manager (rcv s)))" "finite (used (conflict_manager (rcv s)))"
    by (simp_all add: core_inv_def)
  have "mset ((mk_live_keys s @ concat (closing s) @ dc (drop_key_q (chan s))) @ mk_ret_keys (rpc s)) =
      mset_set (used (conflict_manager (rcv s)))"
    using h(1) by (simp add: held_def ac_simps)
  from mset_set_distinct [OF this h(2)] show ?thesis unfolding distinct_append by blast
qed

theorem mk_key_exclusive_witness:
  "\<exists>s :: list_mksys. reaches (mksys_next mk_default list_segq list_segq list_event) (mkchannel list_segq list_segq list_event) s \<and>
     live s = [mkmessage_new 71 [1, 2], mkmessage_new 73 [4]] \<and> distinct (mk_live_keys s)"
proof -
  let ?ls = "[MlSend 0 [1, 2] 71, MlTx 0, MlTx 0, MlTx 0, MlSend 0 [2, 3] 72, MlTx 0, MlTx 0, MlTx 0,
    MlSend 0 [4] 73, MlTx 0, MlTx 0, MlTx 0, MlRecv, MlRx, MlRx, MlRx, MlRecv, MlRx, MlRx, MlRx, MlRx, MlRx] :: (nat, nat) mklabel list"
  let ?P = "\<lambda>s :: list_mksys. live s = [mkmessage_new 71 [1, 2], mkmessage_new 73 [4]] \<and> no_panic s"
  have "run_ok (mksys_next mk_default list_segq list_segq list_event) (mkchannel list_segq list_segq list_event) ?ls ?P" by code_simp
  then obtain s where e: "exec (mksys_next mk_default list_segq list_segq list_event) (mkchannel list_segq list_segq list_event) ?ls = Some s"
    and p: "?P s" by (blast dest: run_ok_exec)
  have d: "list_all distinct_send ?ls" by (simp add: list_all_iff)
  have "distinct (mk_live_keys s)"
    using mk_key_exclusive [OF seg_queue_list seg_queue_list event_list mk_default_iter e d] p by simp
  with p reachesI [OF e] show ?thesis by blast
qed





text \<open>A step of the receiver that finds a released key hands it to the conflict manager.\<close>

context mk_ops
begin

lemma release_step:
  assumes "rpc s = MDrop" "dc (drop_key_q (chan s)) = k # ds"
  shows "\<exists>t. mksys_next P Q D E s MlRx = Some t \<and> (rpc t, rcv t) = mk_release (mk_it P) k (rcv s)"
proof -
  obtain x d where pop: "sq_pop D (drop_key_q (chan s)) = (x, d)" by force
  from pop assms(2) have "x = Some k" by (cases x) (auto dest: dq.pop_NoneD dq.pop_SomeD)
  with pop assms(1) show ?thesis by (auto split: prod.splits)
qed

lemma release_dead:
  assumes u: "rpc u = MDrop" "dc (drop_key_q (chan u)) = k # ds" and dead: "dead_ref (conflict_manager (rcv u)) k"
  shows "\<exists>w. mksys_next P Q D E u MlRx = Some w \<and>
    ((\<exists>p. rpc w = MPanic p) \<or> (\<exists>m. rpc w = MRet (Some m))) \<and>
    (\<forall>a. bt_get (keys_states (conflict_manager (rcv u))) k = Some a \<and>
       length (ks_waiting (khp (conflict_manager (rcv u)) a)) = 1 \<longrightarrow> rpc w = MPanic ExplicitPanic)"
proof -
  let ?cm = "conflict_manager (rcv u)"
  obtain w where w: "mksys_next P Q D E u MlRx = Some w" "(rpc w, rcv w) = mk_release (mk_it P) k (rcv u)"
    using release_step [OF u] by blast
  have "unuse_droped_key (mk_it P) k ?cm \<noteq> Inr (None, c)" for c
    by (rule unuse_dead [of "mk_it P", OF iter dead])
  then have "(\<exists>p. rpc w = MPanic p) \<or> (\<exists>m. rpc w = MRet (Some m))"
    using w(2) by (auto simp: mk_release_def split: sum.splits prod.splits option.splits)
  moreover have "rpc w = MPanic ExplicitPanic"
    if "bt_get (keys_states ?cm) k = Some a" "length (ks_waiting (khp ?cm a)) = 1" for a
    using unuse_dead_alone [of "mk_it P", OF iter dead that] w(2) by (simp add: mk_release_def)
  ultimately show ?thesis using w(1) by blast
qed

lemma release_leaves_dead:
  assumes inv: "cm_inv (conflict_manager (rcv s))" and s: "rpc s = MDrop" "dc (drop_key_q (chan s)) = k # ds"
    and t: "mksys_next P Q D E s MlRx = Some t" "rpc t = MRet (Some (ks, v))" and k': "k' \<in> set ks" "k' \<noteq> k"
  shows "dead_ref (conflict_manager (rcv t)) k'"
proof -
  have "(rpc t, rcv t) = mk_release (mk_it P) k (rcv s)" using release_step [OF s] t(1) by auto
  with t(2) have "unuse_droped_key (mk_it P) k (conflict_manager (rcv s)) = Inr (Some (ks, v), conflict_manager (rcv t))"
    by (auto simp: mk_release_def split: sum.splits prod.splits option.splits)
  from unuse_leaves_dead [of _ "mk_it P", OF inv iter this k'] show ?thesis .
qed

end

text \<open>
  C40: a message that waits under two keys poisons the second one.  When, in any run in which each
  message sent has pairwise different keys, the release of a key \<open>k\<close> delivers a waiting message, each other
  key \<open>k'\<close> of that message keeps a dead weak reference to it.  So the release of \<open>k'\<close>, if it comes before the
  receiver releases another key or takes another message (the conflict manager is the same), never ends
  as an ordinary release: it panics, unless the search first meets another waiting message that is free
  and delivers it; and when the dead reference is the only entry under \<open>k'\<close>, it panics.
\<close>

theorem mk_waiting_pair_panics:
  assumes ops: "seg_queue Q qc" "seg_queue D dc" "event E act" "\<And>a xs. set (mk_it P a xs) = set xs"
    and run: "exec (mksys_next P Q D E) (mkchannel Q D E) ls = Some s" "list_all distinct_send ls"
    and s: "rpc s = MDrop" "dc (drop_key_q (chan s)) = k # ds"
    and t: "mksys_next P Q D E s MlRx = Some t" "rpc t = MRet (Some (ks, v))" and k': "k' \<in> set ks" "k' \<noteq> k"
    and u: "conflict_manager (rcv u) = conflict_manager (rcv t)" "rpc u = MDrop" "dc (drop_key_q (chan u)) = k' # ds'"
  shows "\<exists>w. mksys_next P Q D E u MlRx = Some w \<and>
    ((\<exists>p. rpc w = MPanic p) \<or> (\<exists>m. rpc w = MRet (Some m))) \<and>
    (\<forall>a. bt_get (keys_states (conflict_manager (rcv u))) k' = Some a \<and>
       length (ks_waiting (khp (conflict_manager (rcv u)) a)) = 1 \<longrightarrow> rpc w = MPanic ExplicitPanic)"
proof (rule mk_ops.release_dead [OF mk_opsI [OF ops] u(2,3)])
  have "cm_inv (conflict_manager (rcv s))"
    using mksys_invD(1) [OF mk_ops.mksys_exec_inv [OF mk_opsI [OF ops] run]] s(1)
    by (simp add: core_inv_def no_panic_def)
  from mk_ops.release_leaves_dead [OF mk_opsI [OF ops] this s t k'] show "dead_ref (conflict_manager (rcv u)) k'"
    unfolding u(1) .
qed

theorem mk_waiting_pair_panics_witness:
  "\<exists>s :: list_mksys. reaches (mksys_next mk_default list_segq list_segq list_event)
       (mkchannel list_segq list_segq list_event) s \<and>
     sent (chan s) = [([1, 2], 71), ([1, 2], 72)] \<and> delivered (rcv s) = sent (chan s) \<and> rpc s = MPanic ExplicitPanic"
proof -
  let ?n = "mksys_next mk_default list_segq list_segq list_event :: list_mksys \<Rightarrow> _"
  let ?z = "mkchannel list_segq list_segq list_event :: list_mksys"
  let ?as = "[MlSend 0 [1, 2] 71, MlTx 0, MlTx 0, MlTx 0, MlSend 0 [1, 2] 72, MlTx 0, MlTx 0, MlTx 0,
      MlRecv, MlRx, MlRx, MlRx, MlRecv] @ replicate 7 MlRx @
     [MlDropMsg 0, MlDropStep 0, MlDropStep 0, MlDropStep 0] @ replicate 3 MlRx :: (nat, nat) mklabel list"
  let ?bs = "[MlRx, MlDropMsg 0, MlDropStep 0, MlRecv] :: (nat, nat) mklabel list"
  let ?U = "\<lambda>u :: list_mksys. rpc u = MDrop \<and> drop_key_q (chan u) = [2] \<and>
    delivered (rcv u) = [([1, 2], 71), ([1, 2], 72)] \<and> sent (chan u) = [([1, 2], 71), ([1, 2], 72)] \<and>
    (case bt_get (keys_states (conflict_manager (rcv u))) 2 of None \<Rightarrow> False
     | Some a \<Rightarrow> length (ks_waiting (khp (conflict_manager (rcv u)) a)) = 1)"
  let ?T = "\<lambda>t :: list_mksys. rpc t = MRet (Some ([1, 2], 72)) \<and> run_ok ?n t ?bs ?U"
  let ?S = "\<lambda>s :: list_mksys. rpc s = MDrop \<and> drop_key_q (chan s) = [1] \<and> run_ok ?n s [MlRx] ?T"
  have "run_ok ?n ?z ?as ?S" by code_simp
  then obtain s where e: "exec ?n ?z ?as = Some s" and s: "rpc s = MDrop" "id (drop_key_q (chan s)) = 1 # []"
    and "run_ok ?n s [MlRx] ?T" by (auto dest: run_ok_exec)
  then obtain t where st: "exec ?n s [MlRx] = Some t" and t: "rpc t = MRet (Some ([1, 2], 72))"
    and "run_ok ?n t ?bs ?U" by (blast dest: run_ok_exec)
  then obtain u where tu: "exec ?n t ?bs = Some u" and U: "?U u" by (blast dest: run_ok_exec)
  then have u: "rpc u = MDrop" "id (drop_key_q (chan u)) = 2 # []" by simp_all
  have st': "?n s MlRx = Some t" using st by (simp del: mksys_next.simps split: option.splits)
  have r: "conflict_manager (rcv u) = conflict_manager (rcv t)" using tu t by (auto split: if_splits)
  have d: "list_all distinct_send ?as" by (simp add: list_all_iff)
  obtain w where w: "?n u MlRx = Some w" "rpc w = MPanic ExplicitPanic"
    using mk_waiting_pair_panics [OF seg_queue_list seg_queue_list event_list mk_default_iter e d s st' t _ _ r u] U
    by (auto split: option.splits)
  moreover have "reaches ?n ?z w"
    using reaches_exec [OF reaches_exec [OF reaches_exec [OF reachesI [OF e] st] tu], of "[MlRx]" w] w(1)
    by (simp del: mksys_next.simps)
  moreover have "delivered (rcv w) = delivered (rcv u) \<and> sent (chan w) = sent (chan u)"
    using w u by (auto simp: mk_release_def split: sum.splits prod.splits option.splits)
  ultimately show ?thesis using U by (intro exI [of _ w]) simp
qed

text \<open>
  a message that names a key twice makes the receiver panic in \<open>set_use\<close>.
\<close>

theorem mk_duplicate_key_panics:
  "\<exists>s :: list_mksys. reaches (mksys_next mk_default list_segq list_segq list_event)
       (mkchannel list_segq list_segq list_event) s \<and>
     (sent (chan s) = [([1, 1], 71)] \<and> rpc s = MPanic AssertFailed)"
proof (rule run_ok_reaches)
  show "run_ok (mksys_next mk_default list_segq list_segq list_event) (mkchannel list_segq list_segq list_event :: list_mksys)
    [MlSend 0 [1, 1] 71, MlTx 0, MlTx 0, MlTx 0, MlRecv, MlRx, MlRx]
    (\<lambda>s. sent (chan s) = [([1, 1], 71)] \<and> rpc s = MPanic AssertFailed)"
    by code_simp
qed

end
