(* ===== verification/MkSpec.thy ===== *)
theory MkSpec imports KvMultikProofs Simulation begin

text \<open>
  An abstract specification of a channel whose messages have several keys, and the proof that
  \<open>kv_mpsc_multik.rs\<close> implements it as long as its receiver does not panic.  The abstract channel is a
  bag of pending messages and a bag of busy keys; receiving takes any pending message none of whose
  keys is busy and makes its keys busy, in one step.
\<close>

section \<open>The abstract channel\<close>

record ('k, 'v) mkspec =
  mpending :: "('k list \<times> 'v) multiset"
  mbusy :: "'k multiset"
  mhandles :: nat
  mrx_gone :: bool

datatype ('k, 'v) mkevent =
    MevClone
  | MevDropTx
  | MevSend "'k list" 'v
  | MevSendErr
  | MevRecv "'k list" 'v
  | MevClosed
  | MevDropRx
  | MevRelease 'k

definition mkspec_init :: "('k, 'v) mkspec" where
  "mkspec_init = \<lparr>mpending = {#}, mbusy = {#}, mhandles = 1, mrx_gone = False\<rparr>"

fun mkspec_next :: "('k, 'v) mkspec \<Rightarrow> ('k, 'v) mkevent \<Rightarrow> ('k, 'v) mkspec option" where
  "mkspec_next a MevClone = (if 0 < mhandles a then Some (a\<lparr>mhandles := Suc (mhandles a)\<rparr>) else None)"
| "mkspec_next a MevDropTx = (if 0 < mhandles a then Some (a\<lparr>mhandles := mhandles a - 1\<rparr>) else None)"
| "mkspec_next a (MevSend ks v) =
     (if 0 < mhandles a then Some (a\<lparr>mpending := add_mset (ks, v) (mpending a)\<rparr>) else None)"
| "mkspec_next a MevSendErr = (if 0 < mhandles a \<and> mrx_gone a then Some a else None)"
| "mkspec_next a (MevRecv ks v) =
     (if (ks, v) \<in># mpending a \<and> distinct ks \<and> list_all (\<lambda>k. k \<notin># mbusy a) ks \<and> \<not> mrx_gone a
      then Some (a\<lparr>mpending := mpending a - {#(ks, v)#}, mbusy := mbusy a + mset ks\<rparr>) else None)"
| "mkspec_next a MevClosed = (if mhandles a = 0 \<and> \<not> mrx_gone a then Some a else None)"
| "mkspec_next a MevDropRx = (if mrx_gone a then None else Some (a\<lparr>mrx_gone := True\<rparr>))"
| "mkspec_next a (MevRelease k) = (if k \<in># mbusy a then Some (a\<lparr>mbusy := mbusy a - {#k#}\<rparr>) else None)"

section \<open>Events and abstraction\<close>

definition mk_event :: "mk_params \<Rightarrow> ('q, 'k list \<times> 'v) segq \<Rightarrow> ('d, 'k::linorder) segq \<Rightarrow> ('e, 'l) event_ops \<Rightarrow>
    ('k, 'v, 'q, 'd, 'e, 'l) mksys \<Rightarrow> ('k, 'v) mklabel \<Rightarrow> ('k, 'v) mkevent option" where
  "mk_event P Q D E s l = (case l of
     MlClone t u \<Rightarrow> Some MevClone
   | MlDropTx t \<Rightarrow> Some MevDropTx
   | MlTx t \<Rightarrow> (case spc s t of
       MsCheck ks v \<Rightarrow> if receiver_dropped (chan s) then Some MevSendErr else None
     | MsPush ks v \<Rightarrow> Some (MevSend ks v)
     | _ \<Rightarrow> None)
   | MlRx \<Rightarrow> (case mksys_next P Q D E s MlRx of
       None \<Rightarrow> None
     | Some t \<Rightarrow> (case rpc t of
         MRet None \<Rightarrow> Some MevClosed
       | MRet (Some (ks, v)) \<Rightarrow> Some (MevRecv ks v)
       | _ \<Rightarrow> None))
   | MlDropRx \<Rightarrow> Some MevDropRx
   | MlDropStep j \<Rightarrow> if closing s ! j = [] then None else Some (MevRelease (last (closing s ! j)))
   | _ \<Rightarrow> None)"

definition mk_busy :: "('k, 'v, 'q, 'd, 'e, 'l) mksys \<Rightarrow> 'k multiset" where
  "mk_busy s = mset (mk_live_keys s) + mset (concat (closing s)) + mset (mk_ret_keys (rpc s))"

definition mk_abs :: "('q \<Rightarrow> ('k list \<times> 'v) list) \<Rightarrow> ('k::linorder, 'v, 'q, 'd, 'e, 'l) mksys \<Rightarrow> ('k, 'v) mkspec" where
  "mk_abs qc s =
     \<lparr>mpending = waiting_items (conflict_manager (rcv s)) + mset (qc (msg_q (chan s))),
      mbusy = mk_busy s, mhandles = strong s, mrx_gone = receiver_dropped (chan s)\<rparr>"

section \<open>The simulation\<close>

context mk_ops
begin

lemma mkhandleD:
  assumes "mkhandle_inv s"
  shows "mksending (spc s t) \<Longrightarrow> 0 < strong s" "receiver_dropped (chan s) \<longleftrightarrow> mgone (rpc s)"
    "senders_dropped (chan s) \<Longrightarrow> strong s = 0" "owns s u \<Longrightarrow> 0 < strong s"
  using assms mkhandle_strong [OF assms] by (auto simp: mkhandle_inv_def)

lemma held_busy: "held dc s = mk_busy s + mset (dc (drop_key_q (chan s)))"
  by (simp add: held_def mk_busy_def)

lemma busy_used:
  assumes "core_inv qc dc s" "no_panic s"
  shows "set_mset (mk_busy s) \<subseteq> used (conflict_manager (rcv s))"
    and "set (dc (drop_key_q (chan s))) \<subseteq> used (conflict_manager (rcv s))"
    and "used (conflict_manager (rcv s)) \<subseteq> set_mset (mk_busy s) \<union> set (dc (drop_key_q (chan s)))"
    and "k \<in> set (dc (drop_key_q (chan s))) \<Longrightarrow> k \<notin># mk_busy s"
proof -
  let ?U = "used (conflict_manager (rcv s))"
  have h: "mk_busy s + mset (dc (drop_key_q (chan s))) = mset_set ?U" and f: "finite ?U"
    using assms held_busy [of s] by (auto simp: core_inv_def)
  from h have e: "set_mset (mk_busy s) \<union> set (dc (drop_key_q (chan s))) = ?U"
    using f by (metis finite_set_mset_mset_set set_mset_mset set_mset_union)
  then show "set_mset (mk_busy s) \<subseteq> ?U" "set (dc (drop_key_q (chan s))) \<subseteq> ?U"
    "?U \<subseteq> set_mset (mk_busy s) \<union> set (dc (drop_key_q (chan s)))" by auto
  show "k \<notin># mk_busy s" if k: "k \<in> set (dc (drop_key_q (chan s)))"
  proof
    assume "k \<in># mk_busy s"
    then have "1 \<le> count (mk_busy s) k" "1 \<le> count (mset (dc (drop_key_q (chan s)))) k"
      using k by (simp_all add: Suc_le_eq)
    then have "2 \<le> count (mk_busy s) k + count (mset (dc (drop_key_q (chan s)))) k" by linarith
    then have "2 \<le> count (mset_set ?U) k" by (simp only: h [symmetric] count_union)
    then show False using f by (simp add: count_mset_set' split: if_splits)
  qed
qed

lemma mk_sim_pop_step:
  assumes i: "mksys_inv qc dc E act s" and np: "no_panic s" and npc: "\<And>p. pc \<noteq> MPanic p"
    and st: "mk_pop_step P Q D E (rpc s) (chan s) (rcv s) = Some (pc, c, r)"
  shows "sim_step mkspec_next (mk_abs qc s)
    (case pc of MRet None \<Rightarrow> Some MevClosed | MRet (Some (ks, v)) \<Rightarrow> Some (MevRecv ks v) | _ \<Rightarrow> None)
    (mk_abs qc (s\<lparr>chan := c, rcv := r, rpc := pc\<rparr>))"
proof -
  note inv = mksys_invD [OF i] and bu = busy_used [OF mksys_invD(1) [OF i] np]
  let ?cm = "conflict_manager (rcv s)"
  have cmi: "cm_inv ?cm" using inv(1) np by (simp add: core_inv_def)
  have g: "receiver_dropped (chan s) \<longleftrightarrow> mgone (rpc s)" using mkhandleD(2) [OF inv(6)] .
  show ?thesis
  proof (cases "rpc s")
    case MDrop
    obtain x d where pop: "sq_pop D (drop_key_q (chan s)) = (x, d)" by force
    show ?thesis
    proof (cases x)
      case None
      then have "pc = MPop" "c = (chan s)\<lparr>drop_key_q := d\<rparr>" "r = rcv s" using MDrop pop st by auto
      then show ?thesis using MDrop by (simp add: mk_abs_def mk_busy_def mk_live_keys_def)
    next
      case (Some k)
      have k: "k \<in> set (dc (drop_key_q (chan s)))" using pop Some by (auto dest: dq.pop_SomeD)
      obtain pc' r' where rel: "mk_release (mk_it P) k (rcv s) = (pc', r')" by force
      have e: "pc = pc'" "c = (chan s)\<lparr>drop_key_q := d\<rparr>" "r = r'" using MDrop pop Some rel st by auto
      obtain m cm' where u: "unuse_droped_key (mk_it P) k ?cm = Inr (m, cm')"
        using rel e npc by (cases "unuse_droped_key (mk_it P) k ?cm") (auto simp: mk_release_def)
      note ok = unuse_droped_key_ok [OF cmi iter u]
      show ?thesis
      proof (cases m)
        case None
        then have "pc = MDrop" "conflict_manager r = cm'" using e rel u by (auto simp: mk_release_def)
        then show ?thesis using MDrop e None ok by (simp add: mk_abs_def mk_busy_def mk_live_keys_def)
      next
        case (Some y)
        obtain ks v where y: "y = (ks, v)" by force
        have r: "pc = MRet (Some (ks, v))" "conflict_manager r = cm'" using e rel u Some y by (auto simp: mk_release_def)
        have o: "distinct ks" "set ks \<inter> (used ?cm - {k}) = {}" "waiting_items ?cm = add_mset (ks, v) (waiting_items cm')"
          using ok Some y by auto
        have "x \<notin># mk_busy s" if "x \<in> set ks" for x
        proof (cases "x = k")
          case True
          then show ?thesis using bu(4) [OF k] by simp
        next
          case False
          then have "x \<notin> used ?cm" using o(2) that by auto
          then show ?thesis using bu(1) by auto
        qed
        then have fr: "list_all (\<lambda>x. x \<notin># mk_busy s) ks" by (simp add: list_all_iff)
        have "mk_abs qc (s\<lparr>chan := c, rcv := r, rpc := pc\<rparr>) = (mk_abs qc s)\<lparr>mpending := mpending (mk_abs qc s) - {#(ks, v)#},
            mbusy := mbusy (mk_abs qc s) + mset ks\<rparr>"
          using MDrop e(2) r o(3) by (simp add: mk_abs_def mk_busy_def mk_live_keys_def)
        then show ?thesis using MDrop r(1) g o(1,3) fr by (simp add: mk_abs_def)
      qed
    qed
  next
    case MPop
    obtain x d where pop: "sq_pop Q (msg_q (chan s)) = (x, d)" by force
    show ?thesis
    proof (cases x)
      case None
      then have "qc d = []" "qc (msg_q (chan s)) = []" "pc = MQEmpty" "c = (chan s)\<lparr>msg_q := d\<rparr>" "r = rcv s"
        using MPop st pop mq.pop_NoneD [of "msg_q (chan s)" d] by auto
      then show ?thesis using MPop by (simp add: mk_abs_def mk_busy_def mk_live_keys_def)
    next
      case (Some y)
      obtain ks v where y: "y = (ks, v)" by force
      have q: "qc (msg_q (chan s)) = (ks, v) # qc d" using pop Some y by (auto dest: mq.pop_SomeD)
      have ds: "distinct ks" using inv(2) q by (simp add: dist_inv_def)
      obtain pc' r' where acc: "mk_accept (mk_oc P) ks v (rcv s) = (pc', r')" by force
      have e: "pc = pc'" "c = (chan s)\<lparr>msg_q := d\<rparr>" "r = r'" using MPop pop Some y acc st by auto
      obtain m cm' where u: "handle_new_msg (mk_oc P) ks v ?cm = Inr (m, cm')"
        using acc e npc by (cases "handle_new_msg (mk_oc P) ks v ?cm") (auto simp: mk_accept_def)
      note ok = handle_new_msg_ok [OF cmi ds u]
      show ?thesis
      proof (cases m)
        case None
        then have "pc = MDrop" "conflict_manager r = cm'" using e acc u by (auto simp: mk_accept_def)
        then show ?thesis using MPop e None ok q by (simp add: mk_abs_def mk_busy_def mk_live_keys_def)
      next
        case (Some y')
        then have r: "pc = MRet (Some (ks, v))" "conflict_manager r = cm'" using e acc u ok by (auto simp: mk_accept_def)
        have o: "set ks \<inter> used ?cm = {}" "waiting_items cm' = waiting_items ?cm" using ok Some by auto
        then have fr: "list_all (\<lambda>x. x \<notin># mk_busy s) ks" using bu(1) by (auto simp: list_all_iff)
        have "mk_abs qc (s\<lparr>chan := c, rcv := r, rpc := pc\<rparr>) = (mk_abs qc s)\<lparr>mpending := mpending (mk_abs qc s) - {#(ks, v)#},
            mbusy := mbusy (mk_abs qc s) + mset ks\<rparr>"
          using MPop e(2) r o(2) q by (simp add: mk_abs_def mk_busy_def mk_live_keys_def)
        then show ?thesis using MPop r(1) g ds fr q by (simp add: mk_abs_def)
      qed
    qed
  next
    case MLoad
    have "mgone MLoad = False" by simp
    then show ?thesis using MLoad st g mkhandleD(3) [OF inv(6)] by (auto simp: mk_abs_def mk_busy_def mk_live_keys_def)
  next
    case (MPanic p)
    then show ?thesis using np by (simp add: no_panic_def)
  qed (use st npc in \<open>auto simp: mk_abs_def mk_busy_def mk_live_keys_def split: if_splits option.splits prod.splits\<close>)
qed

lemma mk_sim_sys_step:
  assumes i: "mksys_inv qc dc E act s" and st: "mksys_next P Q D E s l = Some s'" and np: "no_panic s" "no_panic s'"
  shows "sim_step mkspec_next (mk_abs qc s) (mk_event P Q D E s l) (mk_abs qc s')"
proof (cases l)
  case MlRx
  then have rx: "mksys_next P Q D E s MlRx = Some s'" using st by simp
  then show ?thesis
  proof (cases rule: mksys_rxE)
    case (ret m)
    then show ?thesis using rx MlRx
      by (cases m) (auto simp: mk_event_def mk_abs_def mk_busy_def mk_live_keys_def mkmessage_new_def)
  next
    case (step pc c r)
    then have "mk_event P Q D E s l =
        (case pc of MRet None \<Rightarrow> Some MevClosed | MRet (Some (ks, v)) \<Rightarrow> Some (MevRecv ks v) | _ \<Rightarrow> None)"
      using rx MlRx by (simp add: mk_event_def)
    moreover have "pc \<noteq> MPanic p" for p using np(2) step(2) by (auto simp: no_panic_def)
    ultimately show ?thesis using mk_sim_pop_step [OF i np(1) _ step(1)] step(2) by simp
  qed
next
  case (MlTx t)
  note h = mkhandleD [OF mksys_invD(6) [OF i]]
  show ?thesis using st MlTx h(1) [of t]
    by (cases "spc s t") (auto simp: mk_event_def mk_abs_def mk_busy_def mk_live_keys_def mq.contents_push)
next
  case (MlDropMsg j)
  then have j: "j < length (live s)" and
    s': "s' = s\<lparr>live := remove_nth j (live s), closing := closing s @ [mm_ks (live s ! j)]\<rparr>"
    using st by (auto split: if_splits)
  have "mk_busy s' = mk_busy s"
    using mk_live_keys_drop [OF j] by (simp add: mk_busy_def s') (simp add: mk_live_keys_def)
  then show ?thesis using MlDropMsg by (simp add: mk_event_def mk_abs_def s')
next
  case (MlDropStep j)
  then have j: "j < length (closing s)" using st by (auto split: if_splits)
  show ?thesis
  proof (cases "closing s ! j = []")
    case True
    have "mset (concat (closing s)) = mset (concat (remove_nth j (closing s)))"
      using mset_concat_remove_nth [OF j] True by simp
    moreover have "s' = s\<lparr>chan := (chan s)\<lparr>wake_recv_event := ev_notify E (wake_recv_event (chan s)) 1\<rparr>,
        closing := remove_nth j (closing s)\<rparr>"
      using st MlDropStep j True by simp
    ultimately show ?thesis using MlDropStep True
      by (simp add: mk_event_def mk_abs_def mk_busy_def mk_live_keys_def del: mset_concat)
  next
    case False
    note h = held_drop_step [OF j False]
    have s': "s' = s\<lparr>chan := (chan s)\<lparr>drop_key_q := sq_push D (drop_key_q (chan s)) (last (closing s ! j))\<rparr>,
        closing := (closing s)[j := butlast (closing s ! j)]\<rparr>"
      using st MlDropStep j False by simp
    have "mk_busy s = add_mset (last (closing s ! j)) (mk_busy s')"
      using h by (simp add: s' mk_busy_def mk_live_keys_def del: mset_concat)
    moreover have "mk_abs qc s' = (mk_abs qc s)\<lparr>mbusy := mk_busy s'\<rparr>" by (simp add: mk_abs_def s')
    ultimately show ?thesis using MlDropStep False by (simp add: mk_event_def) (simp add: mk_abs_def)
  qed
next
  case (MlClone t u)
  then show ?thesis using st mkhandleD(4) [OF mksys_invD(6) [OF i], of t]
    by (auto simp: mk_event_def mk_abs_def mk_busy_def mk_live_keys_def split: if_splits)
next
  case (MlDropTx t)
  then show ?thesis using st mkhandleD(4) [OF mksys_invD(6) [OF i], of t]
    by (auto simp: mk_event_def mk_abs_def mk_busy_def mk_live_keys_def split: if_splits)
next
  case MlDropRx
  then show ?thesis using st mkhandleD(2) [OF mksys_invD(6) [OF i]]
    by (cases "rpc s") (auto simp: mk_event_def mk_abs_def mk_busy_def mk_live_keys_def mkrfree_def split: if_splits)
next
  case MlRecv
  then show ?thesis using st
    by (cases "rpc s") (auto simp: mk_event_def mk_abs_def mk_busy_def mk_live_keys_def mkrfree_def split: if_splits)
qed (use st in \<open>auto simp: mk_event_def mk_abs_def mk_busy_def mk_live_keys_def split: if_splits\<close>)

text \<open>A panic is never undone.\<close>

lemma panic_stays:
  assumes "mksys_next P Q D E s l = Some t" "no_panic t"
  shows "no_panic s"
proof (rule ccontr)
  assume "\<not> no_panic s"
  then obtain p where p: "rpc s = MPanic p" by (auto simp: no_panic_def split: mkrpc.splits)
  then have "rpc t = MPanic p"
    using assms(1) by (cases l) (auto simp: mkrfree_def split: if_splits option.splits)
  then show False using assms(2) by (simp add: no_panic_def)
qed

end

sublocale mk_ops \<subseteq> msim: simulation "surviving no_panic (guarded distinct_send (mksys_next P Q D E))" "mkchannel Q D E"
  "\<lambda>s. mksys_inv qc dc E act s \<and> no_panic s" mkspec_next mkspec_init "mk_abs qc" "mk_event P Q D E"
proof (unfold_locales, goal_cases)
  case 1
  have "no_panic (mkchannel Q D E)"
    by (simp add: no_panic_def mkchannel_def split: prod.splits)
  then show ?case using mch.inv_init by simp
next
  case (2 s l t)
  then show ?case using survivingD [OF 2(2)] mch.inv_step by blast
next
  case 3
  show ?case
    by (simp add: mkchannel_def mkreceiver_new_def mkchan_new_def mk_abs_def mkspec_init_def mk_busy_def mk_live_keys_def
        cm_inv_new mq.contents_new split: prod.splits)
next
  case (4 s l t)
  note st = survivingD [OF 4(2)]
  have n: "mksys_next P Q D E s l = Some t" using guardedD [OF conjunct1 [OF st]] by blast
  show ?case by (rule mk_sim_sys_step [OF _ n]) (use 4(1) st in blast)+
qed

context mk_ops
begin

lemma mk_sim_runs:
  assumes run: "exec (mksys_next P Q D E) (mkchannel Q D E) ls = Some s" "list_all distinct_send ls" and np: "no_panic s"
  shows "exec mkspec_next mkspec_init (trace (mksys_next P Q D E) (mk_event P Q D E) (mkchannel Q D E) ls) = Some (mk_abs qc s)"
proof -
  let ?g = "guarded distinct_send (mksys_next P Q D E)"
  have g: "no_panic s" if "?g s l = Some t" "no_panic t" for s l t
    using panic_stays [OF conjunct2 [OF guardedD [OF that(1)]] that(2)] .
  have x: "exec ?g (mkchannel Q D E) ls = Some s" using run by (simp add: exec_guarded)
  have "no_panic (mkchannel Q D E) \<and> exec (surviving no_panic ?g) (mkchannel Q D E) ls = Some s \<and>
      trace (surviving no_panic ?g) (mk_event P Q D E) (mkchannel Q D E) ls = trace ?g (mk_event P Q D E) (mkchannel Q D E) ls"
    by (rule exec_surviving [where G = no_panic]) (rule g, assumption, assumption, rule x, rule np)
  then have e: "exec (surviving no_panic ?g) (mkchannel Q D E) ls = Some s"
    and t: "trace (surviving no_panic ?g) (mk_event P Q D E) (mkchannel Q D E) ls =
      trace ?g (mk_event P Q D E) (mkchannel Q D E) ls"
    by blast+
  show ?thesis using msim.sim_runs [OF e] t by (simp add: trace_guarded [OF run(2)])
qed

end

text \<open>
  C4: refinement.  Every interleaving in which no message repeats a key and the receiver has not panicked,
  seen through its events, is a run of the abstract channel: a receive takes a pending message none of
  whose keys is held by another message, a send fails only when the receiver is gone, and \<open>recv\<close> answers
  \<open>Closed\<close> only when no handle is left.
\<close>

theorem mk_refines:
  assumes ops: "seg_queue Q qc" "seg_queue D dc" "event E act" "\<And>a xs. set (mk_it P a xs) = set xs"
    and run: "exec (mksys_next P Q D E) (mkchannel Q D E) ls = Some s" "list_all distinct_send ls" and np: "no_panic s"
  shows "exec mkspec_next mkspec_init (trace (mksys_next P Q D E) (mk_event P Q D E) (mkchannel Q D E) ls) = Some (mk_abs qc s)"
  by (rule mk_ops.mk_sim_runs [OF mk_opsI [OF ops] run np])

theorem mk_refines_witness:
  "exec mkspec_next mkspec_init [MevSend [1, 2] 71, MevSend [2, 3] 72, MevRecv [1, 2] 71, MevRelease 2, MevRelease 1,
     MevRecv [2 :: nat, 3] (72 :: nat)] \<noteq> None"
proof -
  let ?ls = "[MlSend 0 [1, 2] 71, MlTx 0, MlTx 0, MlTx 0, MlSend 0 [2, 3] 72, MlTx 0, MlTx 0, MlTx 0,
    MlRecv, MlRx, MlRx, MlRx, MlRecv, MlRx, MlRx, MlDropMsg 0, MlDropStep 0, MlDropStep 0, MlDropStep 0, MlRx] :: (nat, nat) mklabel list"
  let ?n = "mksys_next mk_default list_segq list_segq list_event :: list_mksys \<Rightarrow> _"
  let ?c = "mkchannel list_segq list_segq list_event :: list_mksys"
  have "run_ok ?n ?c ?ls no_panic" by code_simp
  then obtain s where e: "exec ?n ?c ?ls = Some s" and p: "no_panic s" by (blast dest: run_ok_exec)
  have d: "list_all distinct_send ?ls" by (simp add: list_all_iff)
  have "trace ?n (mk_event mk_default list_segq list_segq list_event) ?c ?ls =
      [MevSend [1, 2] 71, MevSend [2, 3] 72, MevRecv [1, 2] 71, MevRelease 2, MevRelease 1, MevRecv [2, 3] 72]" by code_simp
  then show ?thesis using mk_refines [OF seg_queue_list seg_queue_list event_list mk_default_iter e d p] by simp
qed

end
