(* ===== verification/SingleKey.thy ===== *)
theory SingleKey imports KvMultikProofs begin

text \<open>
  The multi-key channel used with one key for each message.  Two runs of \<open>KvMultikProofs\<close> panic, with
  messages that wait under two keys and with a repeated key; here it is proved that neither can happen
  with a single key, nor the overflow of the message id before 2 ^ 31 messages.
\<close>

section \<open>The conflict manager with single-key messages\<close>

text \<open>
  Every entry of a key state refers to a live message with that key alone, in the manager's map; and
  every id in that map was given out.
\<close>

definition live_entry :: "('k, 'v) cmanager \<Rightarrow> addr \<Rightarrow> i32 \<Rightarrow> addr \<Rightarrow> bool" where
  "live_entry cm a i w \<longleftrightarrow> (\<exists>v. whp cm w = Some \<lparr>wm_ks_v = Some ([a], v), wm_id = i\<rparr>) \<and> (i, w) \<in> set (cm_waitingmsgs cm)"

definition sk_inv :: "('k, 'v) cmanager \<Rightarrow> bool" where
  "sk_inv cm \<longleftrightarrow> (\<forall>a i w. (i, w) \<in> set (ks_waiting (khp cm a)) \<longrightarrow> live_entry cm a i w) \<and>
     (\<forall>i w. (i, w) \<in> set (cm_waitingmsgs cm) \<longrightarrow> unat i < unat (next_id cm))"

lemma sk_invD:
  assumes "sk_inv cm"
  shows "(i, w) \<in> set (ks_waiting (khp cm a)) \<Longrightarrow> live_entry cm a i w"
    "(i, w) \<in> set (cm_waitingmsgs cm) \<Longrightarrow> unat i < unat (next_id cm)"
  using assms by (auto simp: sk_inv_def)

lemma sk_inv_new: "sk_inv cm_new"
  by (simp add: sk_inv_def cm_new_def)

lemma set_use_free: "\<not> key_using cm a \<Longrightarrow> set_use a cm = Inr (upd_ks a (\<lambda>s. s\<lparr>ks_using := True\<rparr>) cm)"
  by (simp add: set_use_def)

lemma map_of_mem: "(i, w) \<in> set m \<Longrightarrow> map_of m i \<noteq> None"
  by (auto simp: map_of_eq_None_iff rev_image_eqI)

text \<open>The search finds the first entry.\<close>

lemma find_free_single:
  assumes "\<And>i w. (i, w) \<in> set ws \<Longrightarrow> live_entry cm a i w" "\<not> key_using cm a"
  shows "find_free a ws cm = Inr ((case ws of [] \<Rightarrow> None | (i, w) # _ \<Rightarrow> Some i), cm)"
proof (cases ws)
  case (Cons x xs)
  obtain i w where x: "x = (i, w)" by (cases x)
  then have "live_entry cm a i w" using assms(1) Cons by simp
  then show ?thesis using Cons x assms(2) by (auto simp: live_entry_def try_set_use_def)
qed simp

lemma sk_release:
  assumes c: "cm_inv cm" and sk: "sk_inv cm" and k: "k \<in> used cm" and it: "\<And>a xs. set (it a xs) = set xs"
  shows "\<exists>r cm'. unuse_droped_key it k cm = Inr (r, cm') \<and> sk_inv cm' \<and> next_id cm' = next_id cm"
proof -
  note d = cm_invD [OF c]
  obtain a where a: "(k, a) \<in> set (keys_states cm)" "key_using cm a" using k used_iff [OF d(1)] by blast
  have ka: "bt_get (keys_states cm) k = Some a" using keys_ok_get [OF d(1)] a(1) by blast
  have kk: "ks_key (khp cm a) = Some k" using a(1) d(1) by (auto simp: keys_ok_def)
  let ?c1 = "upd_ks a (\<lambda>s. s\<lparr>ks_using := False\<rparr>) cm"
  let ?ws = "it a (ks_waiting (khp cm a))"
  have w1: "ks_waiting (khp ?c1 x) = ks_waiting (khp cm x)" for x by simp
  have le: "live_entry ?c1 x i w \<longleftrightarrow> live_entry cm x i w" for x i w by (simp add: live_entry_def)
  have ff: "find_free a ?ws ?c1 = Inr ((case ?ws of [] \<Rightarrow> None | (i, w) # _ \<Rightarrow> Some i), ?c1)"
    by (rule find_free_single) (use sk_invD(1) [OF sk] it le in \<open>auto simp: key_using_def\<close>)
  have su: "set_unuse a cm = Inr ?c1" using a(2) by (simp add: set_unuse_def)
  show ?thesis
  proof (cases ?ws)
    case Nil
    have "ks_waiting (khp cm a) = []" using it [of a "ks_waiting (khp cm a)"] Nil by simp
    then have "unuse_droped_key it k cm = Inr (None, ?c1\<lparr>keys_states := bt_remove k (keys_states cm)\<rparr>)"
      using ff Nil by (simp add: unuse_droped_key_def ka su try_get_stop_waiting_msg_def)
    moreover have "sk_inv (?c1\<lparr>keys_states := bt_remove k (keys_states cm)\<rparr>)"
      using sk by (simp add: sk_inv_def live_entry_def)
    ultimately show ?thesis by simp
  next
    case (Cons x xs)
    obtain i w where x: "x = (i, w)" by (cases x)
    have e: "(i, w) \<in> set (ks_waiting (khp cm a))" using it [of a "ks_waiting (khp cm a)"] Cons x by auto
    then have lw: "live_entry cm a i w" using sk_invD(1) [OF sk] by blast
    then obtain v where v: "whp cm w = Some \<lparr>wm_ks_v = Some ([a], v), wm_id = i\<rparr>" "(i, w) \<in> set (cm_waitingmsgs cm)"
      by (auto simp: live_entry_def)
    have mw: "map_of (cm_waitingmsgs cm) i = Some w" using v(2) d(3) mem_map_of by metis
    let ?c2 = "upd_ks a (\<lambda>s. s\<lparr>ks_using := True\<rparr>) ?c1"
    let ?c3 = "upd_ks a (\<lambda>s. s\<lparr>ks_waiting := hm_remove i (ks_waiting s)\<rparr>) ?c2"
    let ?c4 = "?c3\<lparr>cm_waitingmsgs := hm_remove i (cm_waitingmsgs cm), whp := (whp cm)(w := None)\<rparr>"
    have s2: "set_use a ?c1 = Inr ?c2" by (rule set_use_free) (simp add: key_using_def)
    have "map_of (ks_waiting (khp ?c2 a)) i \<noteq> None" using map_of_mem [OF e] by simp
    then have r3: "remove_waitingmsg a i ?c2 = Inr ?c3" by (auto simp: remove_waitingmsg_def)
    have "take_kv ?c3 \<lparr>wm_ks_v = Some ([a], v), wm_id = i\<rparr> = Inr ([k], v)"
      using kk by (simp add: take_kv_def)
    then have "unuse_droped_key it k cm = Inr (Some ([k], v), ?c4)"
      using ff Cons x v(1) mw by (simp add: unuse_droped_key_def ka su try_get_stop_waiting_msg_def s2 r3)
    moreover have "sk_inv ?c4"
      unfolding sk_inv_def
    proof (intro conjI allI impI)
      fix b j y assume "(j, y) \<in> set (ks_waiting (khp ?c4 b))"
      then have j: "(j, y) \<in> set (ks_waiting (khp cm b))" "b = a \<longrightarrow> j \<noteq> i"
        by (auto simp: set_hm_remove split: if_splits)
      from sk_invD(1) [OF sk j(1)] obtain u where u: "whp cm y = Some \<lparr>wm_ks_v = Some ([b], u), wm_id = j\<rparr>"
        "(j, y) \<in> set (cm_waitingmsgs cm)" by (auto simp: live_entry_def)
      have "y \<noteq> w" using u(1) v(1) j(2) by auto
      moreover have "j \<noteq> i" using u(2) mw d(3) calculation mem_map_of by (metis option.inject)
      ultimately show "live_entry ?c4 b j y" using u by (simp add: live_entry_def set_hm_remove)
    next
      fix j y assume "(j, y) \<in> set (cm_waitingmsgs ?c4)"
      then show "unat j < unat (next_id ?c4)" using sk_invD(2) [OF sk, of j y] by (simp add: set_hm_remove)
    qed
    ultimately show ?thesis by simp
  qed
qed

lemma sk_accept:
  assumes c: "cm_inv cm" and sk: "sk_inv cm" and n: "unat (next_id cm) < 2 ^ 31 - 1"
  shows "\<exists>r cm'. handle_new_msg oc [k] v cm = Inr (r, cm') \<and> sk_inv cm' \<and> unat (next_id cm') \<le> Suc (unat (next_id cm))"
proof (cases "key_in_use cm k")
  case True
  note d = cm_invD [OF c]
  obtain a where a: "bt_get (keys_states cm) k = Some a" using True by (auto simp: key_in_use_def split: option.splits)
  have n1: "next_id cm \<noteq> 2 ^ 31 - 1" using n by auto
  have un: "unat (next_id cm + 1) = Suc (unat (next_id cm))" using n by (simp add: unat_word_ariths(1))
  let ?w = "wnext cm" and ?i = "next_id cm"
  let ?m = "\<lparr>wm_ks_v = Some ([a], v), wm_id = ?i\<rparr>"
  let ?c1 = "cm\<lparr>next_id := ?i + 1, wnext := Suc ?w, whp := (whp cm)(?w \<mapsto> \<lparr>wm_ks_v = Some ([], v), wm_id = ?i\<rparr>)\<rparr>"
  let ?c2 = "?c1\<lparr>whp := (whp cm)(?w \<mapsto> ?m)\<rparr>"
  let ?c3 = "upd_ks a (\<lambda>s. s\<lparr>ks_waiting := hm_insert ?i ?w (ks_waiting s)\<rparr>) ?c2"
  let ?c4 = "?c3\<lparr>cm_waitingmsgs := hm_insert ?i ?w (cm_waitingmsgs cm)\<rparr>"
  have "new_waiting_msg oc v cm = Inr (?w, ?c1)" using n1 by (simp add: new_waiting_msg_def)
  moreover have "register_waiting ?w [k] ?c1 = Inr ?c3"
    using a by (simp add: key_entry_def add_kstate_def add_waitingmsg_def)
  moreover have "map_of (cm_waitingmsgs cm) ?i = None"
    using sk_invD(2) [OF sk, of ?i] map_of_SomeD [of "cm_waitingmsgs cm" ?i] by (cases "map_of (cm_waitingmsgs cm) ?i") auto
  ultimately have "handle_new_msg oc [k] v cm = Inr (None, ?c4)"
    using True by (simp add: handle_new_msg_def)
  moreover have "sk_inv ?c4"
    unfolding sk_inv_def
  proof (intro conjI allI impI)
    fix b j y assume "(j, y) \<in> set (ks_waiting (khp ?c4 b))"
    then consider "b = a" "j = ?i" "y = ?w" | "(j, y) \<in> set (ks_waiting (khp cm b))"
      by (auto simp: set_hm_insert split: if_splits)
    then show "live_entry ?c4 b j y"
    proof cases
      case 1
      then show ?thesis by (simp add: live_entry_def set_hm_insert)
    next
      case 2
      from sk_invD(1) [OF sk 2] obtain u where u: "whp cm y = Some \<lparr>wm_ks_v = Some ([b], u), wm_id = j\<rparr>"
        "(j, y) \<in> set (cm_waitingmsgs cm)" by (auto simp: live_entry_def)
      have "y \<noteq> ?w" using d(6) [OF u(1)] by simp
      moreover have "j \<noteq> ?i" using sk_invD(2) [OF sk u(2)] by auto
      ultimately show ?thesis using u by (simp add: live_entry_def set_hm_insert)
    qed
  next
    fix j y assume "(j, y) \<in> set (cm_waitingmsgs ?c4)"
    then show "unat j < unat (next_id ?c4)" using sk_invD(2) [OF sk, of j y] un by (auto simp: set_hm_insert)
  qed
  ultimately show ?thesis using un by simp
next
  case False
  obtain a c1 where e: "key_entry k cm = (a, c1)" by force
  have f: "\<not> key_using c1 a \<and> sk_inv c1 \<and> next_id c1 = next_id cm"
  proof (cases "bt_get (keys_states cm) k")
    case (Some b)
    then show ?thesis using e False sk by (simp add: key_entry_def key_in_use_def)
  next
    case None
    then have "a = knext cm" and c1: "c1 = cm\<lparr>keys_states := bt_insert k (knext cm) (keys_states cm),
       khp := (khp cm)(knext cm := key_state_new k), knext := Suc (knext cm)\<rparr>" using e by (auto simp: key_entry_def)
    moreover have "sk_inv c1"
      unfolding sk_inv_def
    proof (intro conjI allI impI)
      fix b j y assume "(j, y) \<in> set (ks_waiting (khp c1 b))"
      then have "(j, y) \<in> set (ks_waiting (khp cm b))" by (simp add: c1 key_state_new_def split: if_splits)
      from sk_invD(1) [OF sk this] show "live_entry c1 b j y" by (simp add: live_entry_def c1)
    next
      fix j y assume "(j, y) \<in> set (cm_waitingmsgs c1)"
      then show "unat j < unat (next_id c1)" using sk_invD(2) [OF sk, of j y] by (simp add: c1)
    qed
    ultimately show ?thesis by (simp add: key_using_def key_state_new_def)
  qed
  let ?c2 = "upd_ks a (\<lambda>s. s\<lparr>ks_using := True\<rparr>) c1"
  have "handle_new_msg oc [k] v cm = Inr (Some ([k], v), ?c2)"
    using False e set_use_free [of c1 a] f by (simp add: handle_new_msg_def)
  moreover have "sk_inv ?c2"
  proof -
    have "sk_inv c1" using f by simp
    then show ?thesis by (simp add: sk_inv_def live_entry_def)
  qed
  ultimately show ?thesis using f by simp
qed


section \<open>The channel\<close>

fun single_send :: "('k, 'v) mklabel \<Rightarrow> bool" where
  "single_send (MlSend t ks v) = (length ks = 1)"
| "single_send _ = True"

lemma single_distinct: "single_send l \<Longrightarrow> distinct_send l"
  by (cases l) (auto simp: length_Suc_conv)

definition single_inv :: "('q \<Rightarrow> ('k list \<times> 'v) list) \<Rightarrow> ('k, 'v, 'q, 'd, 'e, 'l) mksys \<Rightarrow> bool" where
  "single_inv qc s \<longleftrightarrow>
     (\<forall>t ks v. spc s t = MsCheck ks v \<or> spc s t = MsPush ks v \<longrightarrow> length ks = 1) \<and>
     (\<forall>m \<in> set (qc (msg_q (chan s))). length (fst m) = 1)"

definition quiet_inv :: "('q \<Rightarrow> ('k list \<times> 'v) list) \<Rightarrow> ('k, 'v, 'q, 'd, 'e, 'l) mksys \<Rightarrow> bool" where
  "quiet_inv qc s \<longleftrightarrow> no_panic s \<and> sk_inv (conflict_manager (rcv s)) \<and>
     unat (next_id (conflict_manager (rcv s))) + length (qc (msg_q (chan s))) \<le> length (sent (chan s))"

context mk_ops
begin

lemma single_inv_step:
  assumes i: "single_inv qc s" and g: "single_send l" and st: "mksys_next P Q D E s l = Some s'"
  shows "single_inv qc s'"
proof (cases l)
  case (MlTx t)
  then show ?thesis using i st
    by (cases "spc s t") (auto simp: single_inv_def mq.contents_push split: if_splits)
next
  case MlRx
  then have "mksys_next P Q D E s MlRx = Some s'" using st by simp
  then show ?thesis
  proof (cases rule: mksys_rxE)
    case (ret m)
    then show ?thesis using MlRx st i by (cases m) (auto simp: single_inv_def)
  next
    case (step pc c r)
    have "set (qc (msg_q c)) \<subseteq> set (qc (msg_q (chan s)))"
      using step(1) by (cases "rpc s") (auto split: option.splits prod.splits if_splits dest: mq.pop_NoneD mq.pop_SomeD)
    then show ?thesis using i by (auto simp: single_inv_def step(2))
  qed
qed (use i g st in \<open>auto simp: single_inv_def split: if_splits\<close>)

lemma sent_mono:
  assumes st: "mksys_next P Q D E s l = Some s'"
  shows "length (sent (chan s)) \<le> length (sent (chan s'))"
proof (cases l)
  case (MlTx t)
  then show ?thesis using st by (cases "spc s t") (auto split: if_splits)
next
  case MlRx
  then have "mksys_next P Q D E s MlRx = Some s'" using st by simp
  then show ?thesis
  proof (cases rule: mksys_rxE)
    case (ret m)
    then show ?thesis using MlRx st by (cases m) auto
  next
    case (step pc c r)
    have "sent c = sent (chan s)"
      using step(1) by (cases "rpc s") (auto split: option.splits prod.splits if_splits)
    then show ?thesis by (simp add: step(2))
  qed
qed (use st in \<open>auto split: if_splits\<close>)

lemma quiet_inv_pop:
  assumes i: "mksys_inv qc dc E act s" and q: "quiet_inv qc s" and o: "single_inv qc s"
    and b: "length (sent (chan s)) < 2 ^ 31"
    and st: "mk_pop_step P Q D E (rpc s) (chan s) (rcv s) = Some (pc, c, r)"
  shows "quiet_inv qc (s\<lparr>chan := c, rcv := r, rpc := pc\<rparr>)"
proof -
  note inv = mksys_invD [OF i]
  let ?cm = "conflict_manager (rcv s)"
  have np: "no_panic s" and sk: "sk_inv ?cm"
    and n: "unat (next_id ?cm) + length (qc (msg_q (chan s))) \<le> length (sent (chan s))" using q by (simp_all add: quiet_inv_def)
  have c: "cm_inv ?cm" "held dc s = mset_set (used ?cm)" "finite (used ?cm)" using inv(1) np by (simp_all add: core_inv_def)
  show ?thesis
  proof (cases "rpc s")
    case MDrop
    obtain x d where pop: "sq_pop D (drop_key_q (chan s)) = (x, d)" by force
    show ?thesis
    proof (cases x)
      case None
      then show ?thesis using MDrop pop st q by (auto simp: quiet_inv_def no_panic_def)
    next
      case (Some y)
      have "y \<in># held dc s" using dq.pop_SomeD pop Some by (force simp: held_def)
      then have "y \<in> used ?cm" using c(2,3) by simp
      from sk_release [where it = "mk_it P", OF c(1) sk this iter] obtain m cm' where
        u: "unuse_droped_key (mk_it P) y ?cm = Inr (m, cm')" "sk_inv cm'" "next_id cm' = next_id ?cm" by blast
      show ?thesis using MDrop pop Some st u n by (cases m) (auto simp: quiet_inv_def no_panic_def mk_release_def)
    qed
  next
    case MPop
    obtain x d where pop: "sq_pop Q (msg_q (chan s)) = (x, d)" by force
    show ?thesis
    proof (cases x)
      case None
      then show ?thesis using MPop pop st q mq.pop_NoneD [of "msg_q (chan s)" d] by (auto simp: quiet_inv_def no_panic_def)
    next
      case (Some y)
      obtain ks v where y: "y = (ks, v)" by (cases y)
      have cs: "qc (msg_q (chan s)) = (ks, v) # qc d" using mq.pop_SomeD pop Some y by blast
      then obtain k where k: "ks = [k]" using o by (auto simp: single_inv_def length_Suc_conv)
      have "unat (next_id ?cm) < 2 ^ 31 - 1" using n b cs by simp
      from sk_accept [OF c(1) sk this] obtain m cm' where
        u: "handle_new_msg (mk_oc P) [k] v ?cm = Inr (m, cm')" "sk_inv cm'" "unat (next_id cm') \<le> Suc (unat (next_id ?cm))" by blast
      show ?thesis using MPop pop Some y k st u n cs by (cases m) (auto simp: quiet_inv_def no_panic_def mk_accept_def)
    qed
  next
    case MTake
    then have "event_listener (rcv s) \<noteq> None" using inv(3) by (simp add: mk_listener_inv_def mk_the_listener_def)
    then show ?thesis using MTake st q by (auto simp: quiet_inv_def no_panic_def)
  next
    case (MPanic p)
    then show ?thesis using np by (simp add: no_panic_def)
  qed (use st q in \<open>auto simp: quiet_inv_def no_panic_def split: if_splits prod.splits\<close>)
qed

lemma quiet_inv_step:
  assumes i: "mksys_inv qc dc E act s" and q: "quiet_inv qc s" and o: "single_inv qc s"
    and b: "length (sent (chan s)) < 2 ^ 31" and st: "mksys_next P Q D E s l = Some s'"
  shows "quiet_inv qc s'"
proof (cases l)
  case (MlTx t)
  then show ?thesis using st q
    by (cases "spc s t") (auto simp: quiet_inv_def no_panic_def mq.contents_push split: if_splits)
next
  case MlRx
  then have "mksys_next P Q D E s MlRx = Some s'" using st by simp
  then show ?thesis
  proof (cases rule: mksys_rxE)
    case (ret m)
    then show ?thesis using MlRx st q by (cases m) (auto simp: quiet_inv_def no_panic_def)
  next
    case (step pc c r)
    then show ?thesis using quiet_inv_pop [OF i q o b step(1)] by simp
  qed
qed (use st q in \<open>auto simp: quiet_inv_def no_panic_def split: if_splits\<close>)

lemma sent_mono_exec:
  "exec (mksys_next P Q D E) s ls = Some s' \<Longrightarrow> length (sent (chan s)) \<le> length (sent (chan s'))"
proof (induction ls arbitrary: s)
  case (Cons l ls)
  then obtain s1 where s1: "mksys_next P Q D E s l = Some s1" "exec (mksys_next P Q D E) s1 ls = Some s'"
    by (auto split: option.splits)
  from sent_mono [OF s1(1)] Cons.IH [OF s1(2)] show ?case by simp
qed simp

lemma single_key_exec:
  assumes "exec (mksys_next P Q D E) s ls = Some s'" "list_all single_send ls"
    and "mksys_inv qc dc E act s" "single_inv qc s" "quiet_inv qc s" "length (sent (chan s')) < 2 ^ 31"
  shows "quiet_inv qc s'"
  using assms
proof (induction ls arbitrary: s)
  case (Cons l ls)
  then obtain s1 where s1: "mksys_next P Q D E s l = Some s1" and e: "exec (mksys_next P Q D E) s1 ls = Some s'"
    by (auto split: option.splits)
  have g: "single_send l" "list_all single_send ls" using Cons.prems(2) by auto
  have "guarded distinct_send (mksys_next P Q D E) s l = Some s1" using s1 single_distinct [OF g(1)] by (simp add: guarded_def)
  then have i: "mksys_inv qc dc E act s1" by (rule mch.inv_step [OF Cons.prems(3)])
  have "length (sent (chan s)) \<le> length (sent (chan s'))"
    by (rule sent_mono_exec [OF Cons.prems(1)])
  then have b: "length (sent (chan s)) < 2 ^ 31" using Cons.prems(6) by simp
  show ?case
    by (rule Cons.IH [OF e g(2) i single_inv_step [OF Cons.prems(4) g(1) s1]
          quiet_inv_step [OF Cons.prems(3,5,4) b s1] Cons.prems(6)])
qed simp

end

lemma single_start:
  assumes "qc (sq_new Q) = []"
  shows "single_inv qc (mkchannel Q D E)" "quiet_inv qc (mkchannel Q D E)"
  using assms by (auto simp: single_inv_def quiet_inv_def no_panic_def mkchannel_def mkreceiver_new_def mkchan_new_def
      sk_inv_def cm_new_def split: prod.splits)

context mk_ops
begin

lemma single_key_no_panic:
  assumes run: "exec (mksys_next P Q D E) (mkchannel Q D E) ls = Some s" "list_all single_send ls"
    and bound: "length (sent (chan s)) < 2 ^ 31"
  shows "no_panic s"
proof -
  have i: "mksys_inv qc dc E act (mkchannel Q D E)" by (rule mch.inv_init)
  from single_key_exec [OF run i single_start(1) [where qc = qc and Q = Q, OF mq.contents_new]
      single_start(2) [where qc = qc and Q = Q, OF mq.contents_new] bound]
  show ?thesis by (simp add: quiet_inv_def)
qed

end

text \<open>
  C21: with single-key messages, and fewer than 2 ^ 31 of them, the receiver never panics: the conflict
  manager's unwraps and asserts all succeed, and the id of a waiting message never overflows.
\<close>

theorem mk_single_key_never_panics:
  assumes ops: "seg_queue Q qc" "seg_queue D dc" "event E act" "\<And>a xs. set (mk_it P a xs) = set xs"
    and run: "exec (mksys_next P Q D E) (mkchannel Q D E) ls = Some s" "list_all single_send ls"
    and bound: "length (sent (chan s)) < 2 ^ 31"
  shows "no_panic s"
  by (rule mk_ops.single_key_no_panic [OF mk_opsI [OF ops] run bound])

theorem mk_single_key_never_panics_witness:
  "\<exists>s :: list_mksys. reaches (mksys_next mk_default list_segq list_segq list_event) (mkchannel list_segq list_segq list_event) s \<and>
     delivered (rcv s) = [([1], 71), ([1], 72)] \<and> length (sent (chan s)) < 2 ^ 31 \<and> no_panic s"
proof -
  let ?ls = "[MlSend 0 [1] 71, MlTx 0, MlTx 0, MlTx 0, MlSend 0 [1] 72, MlTx 0, MlTx 0, MlTx 0,
    MlRecv, MlRx, MlRx, MlRx, MlRecv] @ replicate 7 MlRx @ [MlDropMsg 0, MlDropStep 0, MlDropStep 0, MlRx, MlRx, MlRx] :: (nat, nat) mklabel list"
  let ?P = "\<lambda>s :: list_mksys. delivered (rcv s) = [([1], 71), ([1], 72)] \<and> length (sent (chan s)) = 2"
  have "run_ok (mksys_next mk_default list_segq list_segq list_event) (mkchannel list_segq list_segq list_event) ?ls ?P" by code_simp
  then obtain s where e: "exec (mksys_next mk_default list_segq list_segq list_event) (mkchannel list_segq list_segq list_event) ?ls = Some s"
    and p: "?P s" by (blast dest: run_ok_exec)
  have g: "list_all single_send ?ls" by (simp add: list_all_iff)
  have b: "length (sent (chan s)) < 2 ^ 31" using p by simp
  show ?thesis
    using mk_single_key_never_panics [OF seg_queue_list seg_queue_list event_list mk_default_iter e g b] p b reachesI [OF e] by blast
qed

end
