(* ===== verification/MkProgress.thy ===== *)
theory MkProgress imports MkSpec SingleKey begin

text \<open>
  Progress of \<open>recv\<close> of the multi-key channel: when the abstract channel has a pending message none of
  whose keys is busy, a receiver that runs alone returns a message, or panics, after a number of its
  steps bounded by the lengths of the two queues.  With a single key for each message it does not panic.
\<close>

definition mk_deliverable :: "('k, 'v) mkspec \<Rightarrow> bool" where
  "mk_deliverable a \<longleftrightarrow> (\<exists>m \<in># mpending a. \<forall>k \<in> set (fst m). k \<notin># mbusy a)"

definition mk_returned :: "('k, 'v, 'q, 'd, 'e, 'l) mksys \<Rightarrow> bool" where
  "mk_returned s \<longleftrightarrow> (\<exists>m. rpc s = MRet (Some m)) \<or> (\<exists>p. rpc s = MPanic p)"

definition mk_looking :: "('d \<Rightarrow> 'k list) \<Rightarrow> ('e, 'l) event_ops \<Rightarrow> ('k, 'v, 'q, 'd, 'e, 'l) mksys \<Rightarrow> bool" where
  "mk_looking dc E s \<longleftrightarrow> (case rpc s of
     MDrop \<Rightarrow> True | MPop \<Rightarrow> True | MQEmpty \<Rightarrow> True | MListen \<Rightarrow> True
   | MDEmpty \<Rightarrow> dc (drop_key_q (chan s)) \<noteq> []
   | MWait l \<Rightarrow> ev_notified E (wake_recv_event (chan s)) l
   | _ \<Rightarrow> False)"

definition mk_queued :: "('q \<Rightarrow> ('k list \<times> 'v) list) \<Rightarrow> ('d \<Rightarrow> 'k list) \<Rightarrow> ('k, 'v, 'q, 'd, 'e, 'l) mksys \<Rightarrow> nat" where
  "mk_queued qc dc s = length (qc (msg_q (chan s))) + length (dc (drop_key_q (chan s)))"

definition mk_rank :: "('q \<Rightarrow> ('k list \<times> 'v) list) \<Rightarrow> ('d \<Rightarrow> 'k list) \<Rightarrow> ('k, 'v, 'q, 'd, 'e, 'l) mksys \<Rightarrow> nat" where
  "mk_rank qc dc s = 2 * mk_queued qc dc s +
     (case rpc s of
        MDrop \<Rightarrow> 1 | MPop \<Rightarrow> (if qc (msg_q (chan s)) = [] then 4 else 0) | MQEmpty \<Rightarrow> 3 | MDEmpty \<Rightarrow> 2
      | MListen \<Rightarrow> 2 | MWait l \<Rightarrow> 3 | _ \<Rightarrow> 0)"

lemma mk_release_pc: "mk_release it k r = (pc, r') \<Longrightarrow> pc = MDrop \<or> (\<exists>p. pc = MPanic p) \<or> (\<exists>m. pc = MRet (Some m))"
  by (auto simp: mk_release_def split: sum.splits option.splits prod.splits)

lemma mk_accept_pc: "mk_accept oc ks v r = (pc, r') \<Longrightarrow> pc = MDrop \<or> (\<exists>p. pc = MPanic p) \<or> (\<exists>m. pc = MRet (Some m))"
  by (auto simp: mk_accept_def split: sum.splits option.splits prod.splits)

text \<open>A waiting message has a key in use.\<close>

lemma waiting_item_used:
  assumes inv: "cm_inv cm" and m: "m \<in># waiting_items cm"
  shows "\<exists>k \<in> set (fst m). k \<in> used cm"
proof -
  note d = cm_invD [OF inv]
  obtain i w where iw: "(i, w) \<in> set (cm_waitingmsgs cm)" and e: "m = msg_of cm w"
    using m by (auto simp: waiting_items_def)
  from d(5) [OF iw] obtain n as v b where n: "whp cm w = Some n" "wm_ks_v n = Some (as, v)"
    and b: "b \<in> set as" "key_using cm b" by (auto simp: wm_blocked_def list_ex_iff)
  from wm_okD(3) [OF d(4) [OF iw] n b(1)] have s: "b \<in> snd ` set (keys_states cm)" by auto
  let ?k = "the (ks_key (khp cm b))"
  have "(?k, b) \<in> set (keys_states cm)" by (rule keys_ok_key [OF d(1) s])
  then have "?k \<in> used cm" using b(2) unfolding used_iff [OF d(1)] by blast
  moreover have "?k \<in> set (fst m)" using e n b(1) by (simp add: msg_of_def)
  ultimately show ?thesis by blast
qed

context mk_ops
begin

lemma mk_deliverable_queued:
  assumes c: "core_inv qc dc s" and np: "no_panic s" and d: "mk_deliverable (mk_abs qc s)"
  shows "qc (msg_q (chan s)) \<noteq> [] \<or> dc (drop_key_q (chan s)) \<noteq> []"
proof (rule ccontr)
  assume n: "\<not> ?thesis"
  then obtain m where m: "m \<in># waiting_items (conflict_manager (rcv s))" "\<forall>k \<in> set (fst m). k \<notin># mk_busy s"
    using d by (auto simp: mk_deliverable_def mk_abs_def)
  have "cm_inv (conflict_manager (rcv s))" using c np by (simp add: core_inv_def)
  from waiting_item_used [OF this m(1)] m(2) busy_used(3) [OF c np] n show False by auto
qed

lemma mk_looking_enabled:
  assumes "mk_looking dc E s"
  shows "\<exists>pc c r. mk_pop_step P Q D E (rpc s) (chan s) (rcv s) = Some (pc, c, r) \<and>
    mksys_next P Q D E s MlRx = Some (s\<lparr>chan := c, rcv := r, rpc := pc\<rparr>)"
  using assms by (cases "rpc s") (auto simp: mk_looking_def split: prod.splits option.splits)

lemma mk_looking_step:
  assumes i: "mksys_inv qc dc E act s" and np: "no_panic s" and l: "mk_looking dc E s" and d: "mk_deliverable (mk_abs qc s)"
    and st: "mk_pop_step P Q D E (rpc s) (chan s) (rcv s) = Some (pc, c, r)"
  defines "t \<equiv> s\<lparr>chan := c, rcv := r, rpc := pc\<rparr>"
  shows "mk_returned t \<or> no_panic t \<and> mk_looking dc E t \<and> mk_deliverable (mk_abs qc t) \<and> mk_rank qc dc t < mk_rank qc dc s"
proof (cases "\<exists>p. pc = MPanic p")
  case True
  then show ?thesis by (auto simp: t_def mk_returned_def)
next
  case False
  then have npc: "pc \<noteq> MPanic p" for p by blast
  have npt: "no_panic t" using False by (cases pc) (simp_all add: t_def no_panic_def)
  have nr: "(\<exists>m. pc = MRet (Some m)) \<or> mk_deliverable (mk_abs qc t)" if "pc \<noteq> MRet None"
    using mk_sim_pop_step [OF i np npc st] d that unfolding t_def by (cases pc) (auto split: option.splits)
  have q: "qc (msg_q (chan s)) \<noteq> [] \<or> dc (drop_key_q (chan s)) \<noteq> []"
    by (rule mk_deliverable_queued [OF mksys_invD(1) [OF i] np d])
  consider "rpc s = MDrop" | "rpc s = MPop" | "rpc s = MQEmpty" | "rpc s = MListen" | "rpc s = MDEmpty"
      "dc (drop_key_q (chan s)) \<noteq> []" | l where "rpc s = MWait l" "ev_notified E (wake_recv_event (chan s)) l"
    using l by (cases "rpc s") (auto simp: mk_looking_def)
  then show ?thesis
  proof cases
    case 1
    obtain x e where pop: "sq_pop D (drop_key_q (chan s)) = (x, e)" by force
    show ?thesis
    proof (cases x)
      case None
      then have "pc = MPop" "c = (chan s)\<lparr>drop_key_q := e\<rparr>" "r = rcv s" "dc (drop_key_q (chan s)) = []" "dc e = []"
        using 1 pop st dq.pop_NoneD [of "drop_key_q (chan s)" e] by auto
      then show ?thesis using nr q 1 npt by (simp add: t_def mk_looking_def mk_rank_def mk_queued_def)
    next
      case (Some k)
      obtain pc' r' where rel: "mk_release (mk_it P) k (rcv s) = (pc', r')" by force
      have e: "pc = pc'" "c = (chan s)\<lparr>drop_key_q := e\<rparr>" "r = r'" using 1 pop Some rel st by auto
      have "dc (drop_key_q (chan s)) = k # dc e" using dq.pop_SomeD pop Some by blast
      then show ?thesis using mk_release_pc [OF rel] nr npt e 1
        by (auto simp: t_def mk_looking_def mk_rank_def mk_queued_def mk_returned_def)
    qed
  next
    case 2
    obtain x e where pop: "sq_pop Q (msg_q (chan s)) = (x, e)" by force
    show ?thesis
    proof (cases x)
      case None
      then have "pc = MQEmpty" "c = (chan s)\<lparr>msg_q := e\<rparr>" "r = rcv s" "qc (msg_q (chan s)) = []" "qc e = []"
        using 2 pop st mq.pop_NoneD [of "msg_q (chan s)" e] by auto
      then show ?thesis using nr 2 npt by (simp add: t_def mk_looking_def mk_rank_def mk_queued_def)
    next
      case (Some y)
      obtain ks v where y: "y = (ks, v)" by force
      obtain pc' r' where acc: "mk_accept (mk_oc P) ks v (rcv s) = (pc', r')" by force
      have e: "pc = pc'" "c = (chan s)\<lparr>msg_q := e\<rparr>" "r = r'" using 2 pop Some y acc st by auto
      have "qc (msg_q (chan s)) = (ks, v) # qc e" using mq.pop_SomeD pop Some y by blast
      then show ?thesis using mk_accept_pc [OF acc] nr npt e 2
        by (auto simp: t_def mk_looking_def mk_rank_def mk_queued_def mk_returned_def)
    qed
  next
    case 3
    then show ?thesis using st nr q npt
      by (auto simp: t_def mk_looking_def mk_rank_def mk_queued_def mq.is_empty_iff split: if_splits)
  next
    case 4
    then show ?thesis using st nr npt
      by (auto simp: t_def mk_looking_def mk_rank_def mk_queued_def split: prod.splits)
  next
    case 5
    then show ?thesis using st nr npt
      by (auto simp: t_def mk_looking_def mk_rank_def mk_queued_def dq.is_empty_iff split: if_splits)
  next
    case 6
    then show ?thesis using st nr npt
      by (auto simp: t_def mk_looking_def mk_rank_def mk_queued_def)
  qed
qed

end

sublocale mk_ops \<subseteq> mpr: progress "mksys_next P Q D E" MlRx
  "\<lambda>s. mksys_inv qc dc E act s \<and> no_panic s \<and> mk_looking dc E s \<and> mk_deliverable (mk_abs qc s)" mk_returned "mk_rank qc dc"
proof (unfold_locales, goal_cases)
  case (1 s)
  then have i: "mksys_inv qc dc E act s" and np: "no_panic s" and l: "mk_looking dc E s"
    and d: "mk_deliverable (mk_abs qc s)" by blast+
  obtain pc c r where st: "mk_pop_step P Q D E (rpc s) (chan s) (rcv s) = Some (pc, c, r)"
    and n: "mksys_next P Q D E s MlRx = Some (s\<lparr>chan := c, rcv := r, rpc := pc\<rparr>)"
    using mk_looking_enabled [OF l] by blast
  have "guarded distinct_send (mksys_next P Q D E) s MlRx = Some (s\<lparr>chan := c, rcv := r, rpc := pc\<rparr>)"
    unfolding guarded_def using n by (simp del: mksys_next.simps)
  then have "mksys_inv qc dc E act (s\<lparr>chan := c, rcv := r, rpc := pc\<rparr>)" by (rule mch.inv_step [OF i])
  then show ?case using mk_looking_step [OF i np l d st] n by blast
qed

context mk_ops
begin

lemma mk_recv_returns:
  assumes i: "mksys_inv qc dc E act s" and np: "no_panic s" and f: "mkrfree (rpc s)"
    and d: "mk_deliverable (mk_abs qc s)"
  shows "\<exists>n t. n \<le> 2 * mk_queued qc dc s + 2 \<and>
    exec (mksys_next P Q D E) s (MlRecv # replicate n MlRx) = Some t \<and> mk_returned t"
proof -
  let ?s = "s\<lparr>rpc := MDrop\<rparr>"
  have n: "mksys_next P Q D E s MlRecv = Some ?s" using f by simp
  then have "guarded distinct_send (mksys_next P Q D E) s MlRecv = Some ?s" by (simp add: guarded_def)
  then have "mksys_inv qc dc E act ?s" by (rule mch.inv_step [OF i])
  moreover have "mk_abs qc ?s = mk_abs qc s"
    using f by (cases "rpc s") (simp_all add: mkrfree_def mk_abs_def mk_busy_def mk_live_keys_def)
  moreover have "no_panic ?s" "mk_looking dc E ?s" by (simp_all add: no_panic_def mk_looking_def)
  ultimately obtain k t where "k \<le> Suc (mk_rank qc dc ?s)" "exec (mksys_next P Q D E) ?s (replicate k MlRx) = Some t" "mk_returned t"
    using mpr.pr_reach [of ?s] d by auto
  then have "k \<le> 2 * mk_queued qc dc s + 2 \<and> exec (mksys_next P Q D E) s (MlRecv # replicate k MlRx) = Some t"
    using n by (simp add: mk_rank_def mk_queued_def)
  with \<open>mk_returned t\<close> show ?thesis by blast
qed

lemma mk_rx_sent:
  assumes "mksys_next P Q D E s l = Some t" "l = MlRx \<or> l = MlRecv"
  shows "sent (chan t) = sent (chan s)"
  using assms(2)
proof
  assume "l = MlRx"
  with assms(1) have st: "mksys_next P Q D E s MlRx = Some t" by simp
  then show ?thesis
  proof (cases rule: mksys_rxE)
    case (ret m)
    then show ?thesis using st by (cases m) auto
  next
    case (step pc c r)
    have "sent c = sent (chan s)"
      using step(1) by (cases "rpc s") (auto split: option.splits prod.splits if_splits)
    then show ?thesis by (simp add: step(2))
  qed
qed (use assms(1) in \<open>auto split: if_splits\<close>)

lemma mk_rx_sent_exec:
  "exec (mksys_next P Q D E) s ls = Some t \<Longrightarrow> list_all (\<lambda>l. l = MlRx \<or> l = MlRecv) ls \<Longrightarrow>
    sent (chan t) = sent (chan s)"
proof (induction ls arbitrary: s)
  case (Cons l ls)
  then obtain u where u: "mksys_next P Q D E s l = Some u" "exec (mksys_next P Q D E) u ls = Some t"
    by (auto split: option.splits)
  then show ?case using Cons.IH [OF u(2)] Cons.prems(2) mk_rx_sent [OF u(1)] by simp
qed simp

end

text \<open>
  C11: \<open>recv\<close> of the multi-key channel delivers, when each message has one key and fewer than 2 ^ 31 are sent:
  if a message is pending whose key no held message has, a call of \<open>recv\<close> that is not interrupted returns
  a message, after a number of steps bounded by the lengths of the two queues.
\<close>

theorem mk_single_key_delivers:
  assumes ops: "seg_queue Q qc" "seg_queue D dc" "event E act" "\<And>a xs. set (mk_it P a xs) = set xs"
    and run: "exec (mksys_next P Q D E) (mkchannel Q D E) ls = Some s" "list_all single_send ls"
    and bound: "length (sent (chan s)) < 2 ^ 31" and f: "mkrfree (rpc s)"
    and d: "([k], v) \<in># mpending (mk_abs qc s)" "k \<notin># mbusy (mk_abs qc s)"
  shows "\<exists>n t m. n \<le> 2 * (length (qc (msg_q (chan s))) + length (dc (drop_key_q (chan s)))) + 2 \<and>
    exec (mksys_next P Q D E) s (MlRecv # replicate n MlRx) = Some t \<and> rpc t = MRet (Some m)"
proof -
  note mk = mk_opsI [OF ops]
  have ds: "list_all distinct_send ls" using run(2) single_distinct by (auto simp: list_all_iff)
  have dl: "mk_deliverable (mk_abs qc s)" using d by (force simp: mk_deliverable_def)
  obtain n t where nt: "n \<le> 2 * mk_queued qc dc s + 2" "exec (mksys_next P Q D E) s (MlRecv # replicate n MlRx) = Some t"
    "mk_returned t"
    using mk_ops.mk_recv_returns [OF mk mk_ops.mksys_exec_inv [OF mk run(1) ds]
      mk_ops.single_key_no_panic [OF mk run bound] f dl] by blast
  let ?rs = "MlRecv # replicate n MlRx"
  have "exec (mksys_next P Q D E) (mkchannel Q D E) (ls @ ?rs) = Some t"
    using run(1) nt(2) by (simp add: exec_append del: exec.simps)
  moreover have "list_all single_send (ls @ ?rs)" using run(2) by (auto simp: list_all_iff)
  moreover have "sent (chan t) = sent (chan s)"
    by (rule mk_ops.mk_rx_sent_exec [OF mk nt(2)]) (simp add: list_all_iff)
  with bound have "length (sent (chan t)) < 2 ^ 31" by simp
  ultimately have "no_panic t" by (rule mk_ops.single_key_no_panic [OF mk])
  then obtain m where "rpc t = MRet (Some m)" using nt(3) by (auto simp: mk_returned_def no_panic_def)
  with nt(1,2) show ?thesis unfolding mk_queued_def by blast
qed

theorem mk_single_key_delivers_witness:
  "\<exists>(s :: list_mksys) n t m. reaches (mksys_next mk_default list_segq list_segq list_event) (mkchannel list_segq list_segq list_event) s \<and>
     (n \<le> 6 \<and> exec (mksys_next mk_default list_segq list_segq list_event) s (MlRecv # replicate n MlRx) = Some t \<and>
      rpc t = MRet (Some m))"
proof -
  let ?ls = "[MlSend 0 [5] 71, MlTx 0, MlTx 0, MlTx 0, MlRecv, MlRx, MlRx, MlRx, MlSend 0 [5] 72, MlTx 0, MlTx 0, MlTx 0,
    MlDropMsg 0, MlDropStep 0, MlDropStep 0] :: (nat, nat) mklabel list"
  let ?n = "mksys_next mk_default list_segq list_segq list_event :: list_mksys \<Rightarrow> _"
  let ?c = "mkchannel list_segq list_segq list_event :: list_mksys"
  let ?P = "\<lambda>s :: list_mksys. rpc s = MIdle \<and> msg_q (chan s) = [([5], 72)] \<and> drop_key_q (chan s) = [5] \<and>
    live s = [] \<and> closing s = [] \<and> length (sent (chan s)) = 2"
  have "run_ok ?n ?c ?ls ?P" by code_simp
  then obtain s where e: "exec ?n ?c ?ls = Some s" and p: "?P s" by (blast dest: run_ok_exec)
  have g: "list_all single_send ?ls" by (simp add: list_all_iff)
  have d: "length (sent (chan s)) < 2 ^ 31" "mkrfree (rpc s)" "([5], 72) \<in># mpending (mk_abs id s)" "5 \<notin># mbusy (mk_abs id s)"
    using p by (simp_all add: mkrfree_def mk_abs_def mk_busy_def mk_live_keys_def)
  from mk_single_key_delivers [OF seg_queue_list seg_queue_list event_list mk_default_iter e g d] p
  have "\<exists>n t m. n \<le> 6 \<and> exec ?n s (MlRecv # replicate n MlRx) = Some t \<and> rpc t = MRet (Some m)"
    by (simp del: exec.simps)
  with reachesI [OF e] show ?thesis by blast
qed

end
