(* ===== verification/PriorityQueue.thy ===== *)
theory PriorityQueue imports BTreeMaps Interfaces begin

text \<open>
  The \<open>PriorityQueue\<close> of \<open>priotity_async_mpsc_chan.rs\<close> used by one thread at a time: a map from
  priorities to queues, smallest priority first.  Its contract is a queue sorted by priority that
  keeps the order of arrival among equal priorities; \<open>pq_items\<close> is the abstraction, and draining the
  queue returns the pushed values in the order of a stable sort.  The concurrent use of the same map
  is in the theory of the channel.
\<close>

record ('p, 'q) priority_queue =
  pq_map :: "('p, 'q) btree"

definition pq_new :: "('p, 'q) priority_queue" where
  "pq_new = \<lparr>pq_map = []\<rparr>"

text \<open>
  \<open>push\<close>: when the priority has no queue yet, one is inserted and the value pushed onto it;
  otherwise the value goes onto the queue found.  Both look-ups end in \<open>unwrap\<close>.
\<close>

definition pq_push :: "('q, 'i) segq \<Rightarrow> 'i \<Rightarrow> 'p::linorder \<Rightarrow> ('p, 'q) priority_queue \<Rightarrow>
    panic + ('p, 'q) priority_queue" where
  "pq_push Q i p s =
     (if \<not> bt_contains_key (pq_map s) p
      then let m = bt_insert p (sq_new Q) (pq_map s) in
        case bt_get m p of
          None \<Rightarrow> Inl UnwrapNone
        | Some q \<Rightarrow> Inr (s\<lparr>pq_map := bt_update p (\<lambda>q. sq_push Q q i) m\<rparr>)
      else
        case bt_get (pq_map s) p of
          None \<Rightarrow> Inl UnwrapNone
        | Some q \<Rightarrow> Inr (s\<lparr>pq_map := bt_update p (\<lambda>q. sq_push Q q i) (pq_map s)\<rparr>))"

text \<open>\<open>pop\<close>: the queues are tried in the order of their priorities until one yields a value.\<close>

fun pop_first :: "('q, 'i) segq \<Rightarrow> ('p, 'q) btree \<Rightarrow> 'i option \<times> ('p, 'q) btree" where
  "pop_first Q [] = (None, [])"
| "pop_first Q ((p, q) # m) =
     (case sq_pop Q q of
        (Some i, q') \<Rightarrow> (Some i, (p, q') # m)
      | (None, q') \<Rightarrow> (case pop_first Q m of (r, m') \<Rightarrow> (r, (p, q') # m')))"

definition pq_pop :: "('q, 'i) segq \<Rightarrow> ('p, 'q) priority_queue \<Rightarrow> 'i option \<times> ('p, 'q) priority_queue" where
  "pq_pop Q s = (case pop_first Q (pq_map s) of (r, m) \<Rightarrow> (r, s\<lparr>pq_map := m\<rparr>))"

section \<open>The contract: a stable priority queue\<close>

definition spec_push :: "'p::linorder \<Rightarrow> 'i \<Rightarrow> ('p \<times> 'i) list \<Rightarrow> ('p \<times> 'i) list" where
  "spec_push p i xs = takeWhile (\<lambda>x. fst x \<le> p) xs @ (p, i) # dropWhile (\<lambda>x. fst x \<le> p) xs"

definition spec_pop :: "('p \<times> 'i) list \<Rightarrow> 'i option \<times> ('p \<times> 'i) list" where
  "spec_pop xs = (case xs of [] \<Rightarrow> (None, []) | x # xs \<Rightarrow> (Some (snd x), xs))"

definition bt_items :: "('q \<Rightarrow> 'i list) \<Rightarrow> ('p, 'q) btree \<Rightarrow> ('p \<times> 'i) list" where
  "bt_items c m = concat (map (\<lambda>(p, q). map (Pair p) (c q)) m)"

definition pq_items :: "('q \<Rightarrow> 'i list) \<Rightarrow> ('p, 'q) priority_queue \<Rightarrow> ('p \<times> 'i) list" where
  "pq_items c s = bt_items c (pq_map s)"

definition pq_ok :: "('p::linorder, 'q) priority_queue \<Rightarrow> bool" where
  "pq_ok s \<longleftrightarrow> bt_ok (pq_map s)"

lemma bt_items_simps [simp]:
  "bt_items c [] = []"
  "bt_items c ((p, q) # m) = map (Pair p) (c q) @ bt_items c m"
  "bt_items c (xs @ ys) = bt_items c xs @ bt_items c ys"
  by (simp_all add: bt_items_def)

lemma fst_bt_items: "x \<in> set (bt_items c m) \<Longrightarrow> fst x \<in> fst ` set m"
  by (force simp: bt_items_def)

lemma sorted_bt_items: "bt_ok m \<Longrightarrow> sorted (map fst (bt_items c m))"
proof (induction m)
  case (Cons a m)
  obtain p q where a: "a = (p, q)" by force
  have "map fst (map (Pair p) (c q)) = replicate (length (c q)) p"
    by (simp add: comp_def map_replicate_const)
  moreover have "p \<le> fst x" if "x \<in> set (bt_items c m)" for x
    using fst_bt_items [OF that] Cons.prems a by (auto simp: bt_ok_Cons)
  ultimately show ?case
    using Cons a by (auto simp: bt_ok_Cons sorted_append simp del: map_map)
qed simp

text \<open>
  A client of a priority queue needs only this: the items are sorted by priority, a push inserts
  after the items of smaller or equal priority, a pop removes the first item.
\<close>

locale stable_priority_queue =
  fixes empty :: 's and push :: "'i \<Rightarrow> 'p::linorder \<Rightarrow> 's \<Rightarrow> panic + 's"
    and pop :: "'s \<Rightarrow> 'i option \<times> 's" and items :: "'s \<Rightarrow> ('p \<times> 'i) list" and ok :: "'s \<Rightarrow> bool"
  assumes ok_empty: "ok empty" and items_empty: "items empty = []"
    and push_total: "ok s \<Longrightarrow> \<exists>t. push i p s = Inr t"
    and ok_push: "ok s \<Longrightarrow> push i p s = Inr t \<Longrightarrow> ok t"
    and items_push: "ok s \<Longrightarrow> push i p s = Inr t \<Longrightarrow> items t = spec_push p i (items s)"
    and ok_pop: "ok s \<Longrightarrow> ok (snd (pop s))"
    and items_pop: "ok s \<Longrightarrow> (fst (pop s), items (snd (pop s))) = spec_pop (items s)"
    and items_sorted: "ok s \<Longrightarrow> sorted (map fst (items s))"

section \<open>Clients of the contract\<close>

text \<open>Pushing a list of prioritised values, and popping \<open>n\<close> times.\<close>

fun push_all :: "('i \<Rightarrow> 'p \<Rightarrow> 's \<Rightarrow> panic + 's) \<Rightarrow> ('p \<times> 'i) list \<Rightarrow> 's \<Rightarrow> panic + 's" where
  "push_all push [] s = Inr s"
| "push_all push ((p, i) # xs) s = bindE (push i p s) (push_all push xs)"

fun pop_n :: "('s \<Rightarrow> 'i option \<times> 's) \<Rightarrow> nat \<Rightarrow> 's \<Rightarrow> 'i option list" where
  "pop_n pop 0 s = []"
| "pop_n pop (Suc n) s = fst (pop s) # pop_n pop n (snd (pop s))"

lemma mset_spec_push: "mset (spec_push p i xs) = add_mset (p, i) (mset xs)"
proof -
  have "mset xs = mset (takeWhile (\<lambda>x. fst x \<le> p) xs) + mset (dropWhile (\<lambda>x. fst x \<le> p) xs)"
    by (simp flip: mset_append)
  then show ?thesis by (simp add: spec_push_def)
qed

lemma dropWhile_gt:
  "sorted (map fst xs) \<Longrightarrow> x \<in> set (dropWhile (\<lambda>x. fst x \<le> (p::'p::linorder)) xs) \<Longrightarrow> p < fst x"
proof (induction xs)
  case (Cons y xs)
  then show ?case by (cases "fst y \<le> p") auto
qed simp

lemma sorted_spec_push:
  assumes "sorted (map fst xs)"
  shows "sorted (map fst (spec_push p i xs))"
proof -
  let ?t = "takeWhile (\<lambda>x. fst x \<le> p) xs" and ?d = "dropWhile (\<lambda>x. fst x \<le> p) xs"
  have "sorted (map fst ?t @ map fst ?d)" using assms by (simp flip: map_append)
  then have "sorted (map fst ?t)" "sorted (map fst ?d)" "\<forall>x\<in>set ?t. \<forall>y\<in>set ?d. fst x \<le> fst y"
    by (auto simp: sorted_append)
  moreover have "\<forall>x\<in>set ?t. fst x \<le> p" by (auto dest: set_takeWhileD)
  moreover have "\<forall>x\<in>set ?d. p \<le> fst x" using dropWhile_gt [OF assms] by (auto intro: less_imp_le)
  ultimately show ?thesis by (auto simp: spec_push_def sorted_append)
qed

lemma filter_spec_push:
  assumes "sorted (map fst xs)"
  shows "filter (\<lambda>x. r = fst x) (spec_push p i xs) =
    filter (\<lambda>x. r = fst x) xs @ (if r = p then [(p, i)] else [])"
proof -
  let ?t = "takeWhile (\<lambda>x. fst x \<le> p) xs" and ?d = "dropWhile (\<lambda>x. fst x \<le> p) xs"
  have "filter (\<lambda>x. p = fst x) ?d = []"
    using dropWhile_gt [OF assms] by (auto simp: filter_empty_conv)
  moreover have "filter (\<lambda>x. r = fst x) xs = filter (\<lambda>x. r = fst x) ?t @ filter (\<lambda>x. r = fst x) ?d"
    by (simp flip: filter_append)
  ultimately show ?thesis by (auto simp: spec_push_def)
qed

text \<open>Inserting each item after its equals sorts stably.\<close>

definition arrive :: "('p::linorder \<times> 'i) list \<Rightarrow> ('p \<times> 'i) list \<Rightarrow> ('p \<times> 'i) list" where
  "arrive xs ys = foldl (\<lambda>a (p, i). spec_push p i a) ys xs"

lemma arrive_facts:
  "sorted (map fst ys) \<Longrightarrow>
     sorted (map fst (arrive xs ys)) \<and> mset (arrive xs ys) = mset ys + mset xs \<and>
     (\<forall>r. filter (\<lambda>x. r = fst x) (arrive xs ys) =
        filter (\<lambda>x. r = fst x) ys @ filter (\<lambda>x. r = fst x) xs)"
proof (induction xs arbitrary: ys)
  case (Cons x xs)
  obtain p i where x: "x = (p, i)" by force
  have "sorted (map fst (spec_push p i ys))" using Cons.prems by (rule sorted_spec_push)
  from Cons.IH [OF this] show ?case
    using Cons.prems by (auto simp: x arrive_def mset_spec_push filter_spec_push)
qed (simp add: arrive_def)

lemma arrive_sorts: "arrive xs [] = sort_key fst xs"
  using arrive_facts [of "[]" xs] by (intro properties_for_sort_key [symmetric]) auto

context stable_priority_queue
begin

lemma push_all_items:
  "ok s \<Longrightarrow> \<exists>t. push_all push xs s = Inr t \<and> ok t \<and> items t = arrive xs (items s)"
proof (induction xs arbitrary: s)
  case Nil
  then show ?case by (simp add: arrive_def)
next
  case (Cons x xs)
  obtain p i where x: "x = (p, i)" by force
  obtain t where t: "push i p s = Inr t" using push_total Cons.prems by blast
  with Cons ok_push items_push obtain u where
    "push_all push xs t = Inr u" "ok u" "items u = arrive xs (spec_push p i (items s))" by metis
  with t x show ?case by (simp add: arrive_def)
qed

lemma pop_n_items:
  "ok s \<Longrightarrow> n \<le> length (items s) \<Longrightarrow> pop_n pop n s = map (Some \<circ> snd) (take n (items s))"
proof (induction n arbitrary: s)
  case (Suc n)
  then obtain x xs where xs: "items s = x # xs" by (cases "items s") auto
  then have "fst (pop s) = Some (snd x)" "items (snd (pop s)) = xs"
    using items_pop [OF Suc.prems(1)] by (auto simp: spec_pop_def)
  with Suc xs ok_pop show ?case by simp
qed simp

lemma drain_is_stable_sort:
  "\<exists>t. push_all push xs empty = Inr t \<and>
     pop_n pop (length xs) t = map (Some \<circ> snd) (sort_key fst xs)"
proof -
  obtain t where t: "push_all push xs empty = Inr t" "ok t" "items t = arrive xs []"
    using push_all_items [OF ok_empty, of xs] items_empty by auto
  then show ?thesis using pop_n_items [of t "length xs"] by (simp add: arrive_sorts)
qed

end

section \<open>The code meets the contract\<close>

lemma spec_push_middle:
  "(\<forall>x \<in> set xs. fst x \<le> p) \<Longrightarrow> (\<forall>x \<in> set ys. p < fst x) \<Longrightarrow>
     spec_push p i (xs @ ys) = xs @ (p, i) # ys"
proof -
  assume xs: "\<forall>x \<in> set xs. fst x \<le> p" and ys: "\<forall>x \<in> set ys. p < fst x"
  have "takeWhile (\<lambda>x. fst x \<le> p) ys = [] \<and> dropWhile (\<lambda>x. fst x \<le> p) ys = ys"
    using ys by (cases ys) auto
  with xs show ?thesis by (simp add: spec_push_def takeWhile_append2 dropWhile_append2)
qed

context seg_queue
begin

lemma bt_items_update:
  assumes "bt_ok m" "bt_get m p = Some q"
  shows "bt_items contents (bt_update p (\<lambda>q. sq_push Q q i) m) = spec_push p i (bt_items contents m)"
proof -
  obtain xs ys where m: "m = xs @ (p, q) # ys"
    "bt_update p (\<lambda>q. sq_push Q q i) m = xs @ (p, sq_push Q q i) # ys"
    "\<forall>a \<in> fst ` set xs. a < p" "\<forall>a \<in> fst ` set ys. p < a"
    using bt_update_split [OF assms] by blast
  have "\<forall>x \<in> set (bt_items contents xs @ map (Pair p) (contents q)). fst x \<le> p"
    using m(3) by (auto dest!: fst_bt_items)
  moreover have "\<forall>x \<in> set (bt_items contents ys). p < fst x"
    using m(4) by (auto dest!: fst_bt_items)
  ultimately have "spec_push p i ((bt_items contents xs @ map (Pair p) (contents q)) @ bt_items contents ys) =
    (bt_items contents xs @ map (Pair p) (contents q)) @ (p, i) # bt_items contents ys"
    by (rule spec_push_middle)
  then show ?thesis by (subst m(2), simp add: m(1) contents_push)
qed

lemma bt_items_insert_new:
  assumes "bt_ok m" "p \<notin> fst ` set m"
  shows "bt_items contents (bt_insert p (sq_new Q) m) = bt_items contents m"
  using bt_insert_split [OF assms, of "sq_new Q"] by (auto simp: contents_new)

lemma pq_push_spec:
  assumes "pq_ok s"
  shows "\<exists>t. pq_push Q i p s = Inr t \<and> pq_ok t \<and> pq_items contents t = spec_push p i (pq_items contents s)"
proof (cases "bt_contains_key (pq_map s) p")
  case True
  then obtain q where q: "bt_get (pq_map s) p = Some q" by (auto simp: bt_contains_key_def)
  with True assms bt_items_update [OF _ q] show ?thesis
    by (simp add: pq_push_def pq_items_def pq_ok_def)
next
  case False
  let ?m = "bt_insert p (sq_new Q) (pq_map s)"
  have m: "bt_ok ?m" "bt_get ?m p = Some (sq_new Q)" using assms by (simp_all add: pq_ok_def)
  have "bt_items contents ?m = bt_items contents (pq_map s)"
    using assms False by (intro bt_items_insert_new) (auto simp: pq_ok_def bt_contains_key_iff)
  with False m bt_items_update [OF m] show ?thesis
    by (simp add: pq_push_def pq_items_def pq_ok_def)
qed

lemma pop_first_spec:
  "(fst (pop_first Q m), bt_items contents (snd (pop_first Q m))) = spec_pop (bt_items contents m)
   \<and> map fst (snd (pop_first Q m)) = map fst m"
proof (induction m)
  case Nil
  then show ?case by (simp add: spec_pop_def)
next
  case (Cons a m)
  obtain p q where a: "a = (p, q)" by force
  obtain r q' where pop: "sq_pop Q q = (r, q')" by force
  show ?case
  proof (cases r)
    case None
    with pop have "contents q = [] \<and> contents q' = []" by (auto dest: pop_NoneD)
    with Cons a pop None show ?thesis by (auto split: prod.splits)
  next
    case (Some i)
    with pop have "contents q = i # contents q'" by (auto dest: pop_SomeD)
    with a pop Some show ?thesis by (simp add: spec_pop_def)
  qed
qed

lemma pq_pop_spec:
  "(fst (pq_pop Q s), pq_items contents (snd (pq_pop Q s))) = spec_pop (pq_items contents s)"
  "pq_ok (snd (pq_pop Q s)) \<longleftrightarrow> pq_ok s"
  using pop_first_spec [of "pq_map s"]
  by (auto simp: pq_pop_def pq_items_def pq_ok_def bt_ok_def split: prod.splits)

end

sublocale seg_queue \<subseteq> spq: stable_priority_queue pq_new "pq_push Q" "pq_pop Q" "pq_items contents" pq_ok
proof (unfold_locales, goal_cases)
  case (3 s i p)
  then show ?case using pq_push_spec by blast
next
  case (4 s i p t)
  then show ?case using pq_push_spec [of s i p] by auto
next
  case (5 s i p t)
  then show ?case using pq_push_spec [of s i p] by auto
next
  case (6 s)
  then show ?case using pq_pop_spec(2) by blast
next
  case (7 s)
  show ?case by (rule pq_pop_spec(1))
next
  case (8 s)
  then show ?case by (simp add: pq_ok_def pq_items_def sorted_bt_items)
qed (simp_all add: pq_ok_def pq_new_def pq_items_def)

context seg_queue
begin

lemmas pq_drain = spq.drain_is_stable_sort

end

section \<open>Properties\<close>

text \<open>
  Used by one thread, the priority queue is a stable sort: after any pushes, none of which
  panics, as many pops return exactly the pushed values, smaller priorities first and values of
  equal priority in the order of their pushes.
\<close>

theorem priority_queue_sorts:
  assumes "seg_queue Q c"
  shows "\<exists>t. push_all (pq_push Q) xs pq_new = Inr t \<and>
    pop_n (pq_pop Q) (length xs) t = map (Some \<circ> snd) (sort_key fst xs)"
  by (rule seg_queue.pq_drain [OF assms])

theorem priority_queue_sorts_witness:
  "seg_queue list_segq id \<and>
   (\<exists>t. push_all (pq_push list_segq) [(2::nat, CHR ''a''), (1, CHR ''b''), (2, CHR ''c''), (1, CHR ''d'')] pq_new
          = Inr t \<and>
      pop_n (pq_pop list_segq) 4 t = map Some ''bdac'')"
  using priority_queue_sorts [OF seg_queue_list, of "[(2::nat, CHR ''a''), (1, CHR ''b''), (2, CHR ''c''), (1, CHR ''d'')]"]
    seg_queue_list
  by (simp add: eval_nat_numeral)

text \<open>
  C36: Each operation refines the abstract queue: a push inserts the value behind those of smaller
  or equal priority and never reaches an \<open>unwrap\<close> of \<^term>\<open>None\<close>; a pop removes the first item and
  returns \<^term>\<open>None\<close> only from the empty queue; both keep the map ordered.
\<close>

theorem priority_queue_refines:
  assumes "seg_queue Q c" and "pq_ok s"
  shows "(\<exists>t. pq_push Q i p s = Inr t \<and> pq_ok t \<and> pq_items c t = spec_push p i (pq_items c s)) \<and>
    (fst (pq_pop Q s), pq_items c (snd (pq_pop Q s))) = spec_pop (pq_items c s) \<and>
    pq_ok (snd (pq_pop Q s))"
  using seg_queue.pq_push_spec [OF assms] seg_queue.pq_pop_spec [OF assms(1)] assms(2) by blast

theorem priority_queue_refines_witness:
  "pq_ok \<lparr>pq_map = [(1::nat, ''x''), (3, [])]\<rparr> \<and>
   pq_items id (snd (pq_pop list_segq \<lparr>pq_map = [(1::nat, ''x''), (3, [])]\<rparr>)) = []"
proof -
  let ?s = "\<lparr>pq_map = [(1::nat, ''x''), (3, [])]\<rparr>"
  have ok: "pq_ok ?s" by (simp add: pq_ok_def bt_ok_def)
  have "pq_items id ?s = [(1, CHR ''x'')]" by (simp add: pq_items_def)
  with priority_queue_refines [OF seg_queue_list ok] ok show ?thesis by (simp add: spec_pop_def)
qed

end
