(* ===== verification/Atomics.thy ===== *)
theory Atomics imports Prelude begin

text \<open>
  The atomic read-modify-write operations of \<open>std::sync::atomic\<close> that the crate uses, each as a
  function from the stored value to the result and the new value.  A concurrent component executes
  one of them per step.  Memory orderings are not modelled: the interleaving semantics is
  sequentially consistent.
\<close>

unbundle bit_operations_syntax

definition compare_exchange :: "'a \<Rightarrow> 'a \<Rightarrow> 'a \<Rightarrow> ('a + 'a) \<times> 'a" where
  "compare_exchange current new s = (if s = current then (Inr current, new) else (Inl s, s))"

definition atomic_swap :: "'a \<Rightarrow> 'a \<Rightarrow> 'a \<times> 'a" where
  "atomic_swap new s = (s, new)"

definition fetch_or :: "'n::len word \<Rightarrow> 'n word \<Rightarrow> 'n word \<times> 'n word" where
  "fetch_or v s = (s, s OR v)"

definition fetch_and :: "'n::len word \<Rightarrow> 'n word \<Rightarrow> 'n word \<times> 'n word" where
  "fetch_and v s = (s, s AND v)"

definition fetch_add :: "'n::len word \<Rightarrow> 'n word \<Rightarrow> 'n word \<times> 'n word" where
  "fetch_add v s = (s, s + v)"

definition fetch_sub :: "'n::len word \<Rightarrow> 'n word \<Rightarrow> 'n word \<times> 'n word" where
  "fetch_sub v s = (s, s - v)"

lemmas atomic_defs = compare_exchange_def atomic_swap_def fetch_or_def fetch_and_def
  fetch_add_def fetch_sub_def

end
