(* ===== verification/AtomicWaker.thy ===== *)
theory AtomicWaker imports Atomics begin

text \<open>
  \<open>tokio_transplant/atomic_waker.rs\<close>: the cell that holds the waker of the receiving task.  Every
  access to the shared word and to the cell is one step of the calling thread, so that all
  interleavings of any number of threads calling \<open>register_by_ref\<close> and \<open>wake\<close> are runs of the
  model.  The theorems: the cell is never accessed by two threads at once, no assertion fails, no
  wake-up is lost, and both calls return after a bounded number of their own steps.
\<close>

section \<open>Shared state and program points\<close>

abbreviation WAITING :: usize where "WAITING \<equiv> 0"
abbreviation REGISTERING :: usize where "REGISTERING \<equiv> 1"
abbreviation WAKING :: usize where "WAKING \<equiv> 2"

record 'w atomic_waker =
  aw_state :: usize
  aw_cell :: "'w option"

definition aw_new :: "'w atomic_waker" where
  "aw_new = \<lparr>aw_state = WAITING, aw_cell = None\<rparr>"

text \<open>
  Where a thread stands in \<open>do_register\<close> (\<open>Reg\<dots>\<close>) or \<open>wake\<close> (\<open>Wake\<dots>\<close>), with the local variables
  that are live there: the waker argument, \<open>old_waker\<close>, whether \<open>maybe_panic\<close> is set, \<open>waker\<close>.
\<close>

datatype 'w wpc =
    WIdle
  | RegCas 'w                        \<comment> \<open>before \<open>compare_exchange(WAITING, REGISTERING)\<close>\<close>
  | RegInto 'w                       \<comment> \<open>before \<open>into_waker\<close>\<close>
  | RegTakeOld 'w                    \<comment> \<open>before the old waker is taken out of the cell\<close>
  | RegStore 'w "'w option"          \<comment> \<open>before the new waker is stored\<close>
  | RegRelease "'w option" bool      \<comment> \<open>before \<open>compare_exchange(REGISTERING, WAITING)\<close>\<close>
  | RegTake "'w option" bool         \<comment> \<open>that failed: before the waker is taken back\<close>
  | RegSwap "'w option" bool "'w option"
  | RegWakeOld "'w option" "'w option" bool
  | RegWakeNew "'w option" bool
  | RegSelfWake 'w                   \<comment> \<open>a wake is in progress: wake the argument\<close>
  | WakeOr                           \<comment> \<open>before \<open>fetch_or(WAKING)\<close>\<close>
  | WakeTake                         \<comment> \<open>holding the waking lock\<close>
  | WakeAnd "'w option"              \<comment> \<open>before \<open>fetch_and(!WAKING)\<close>\<close>
  | WakeCall "'w option"
  | WUnwound                         \<comment> \<open>left by a panic of the waker's own code\<close>
  | WAssert                          \<comment> \<open>a \<open>debug_assert!\<close> failed\<close>

text \<open>
  One step of a thread.  The boolean is the environment's choice: whether the call into the waker's
  code (\<open>into_waker\<close>, \<open>wake\<close>) made by this step panics.  The list holds the wakers woken by the step.
\<close>

fun aw_tstep :: "bool \<Rightarrow> 'w wpc \<Rightarrow> 'w atomic_waker \<Rightarrow> ('w wpc \<times> 'w atomic_waker \<times> 'w list) option" where
  "aw_tstep p (RegCas w) a =
     (case compare_exchange WAITING REGISTERING (aw_state a) of (r, s) \<Rightarrow>
        let x = (case r of Inl y \<Rightarrow> y | Inr y \<Rightarrow> y); a' = a\<lparr>aw_state := s\<rparr> in
        if x = WAITING then Some (RegInto w, a', [])
        else if x = WAKING then Some (RegSelfWake w, a', [])
        else if x = REGISTERING \<or> x = REGISTERING OR WAKING then Some (WIdle, a', [])
        else Some (WAssert, a', []))"
| "aw_tstep p (RegInto w) a = Some (if p then RegRelease None True else RegTakeOld w, a, [])"
| "aw_tstep p (RegTakeOld w) a = Some (RegStore w (aw_cell a), a\<lparr>aw_cell := None\<rparr>, [])"
| "aw_tstep p (RegStore w old) a = Some (RegRelease old False, a\<lparr>aw_cell := Some w\<rparr>, [])"
| "aw_tstep p (RegRelease old mp) a =
     (case compare_exchange REGISTERING WAITING (aw_state a) of
        (Inr _, s) \<Rightarrow> Some (if mp then WUnwound else WIdle, a\<lparr>aw_state := s\<rparr>, [])
      | (Inl actual, s) \<Rightarrow>
          Some (if actual = REGISTERING OR WAKING then RegTake old mp else WAssert, a\<lparr>aw_state := s\<rparr>, []))"
| "aw_tstep p (RegTake old mp) a = Some (RegSwap old mp (aw_cell a), a\<lparr>aw_cell := None\<rparr>, [])"
| "aw_tstep p (RegSwap old mp wk) a =
     Some (if mp then RegWakeOld wk None mp else RegWakeOld old wk mp,
           a\<lparr>aw_state := snd (atomic_swap WAITING (aw_state a))\<rparr>, [])"
| "aw_tstep p (RegWakeOld old wk mp) a =
     Some (RegWakeNew wk mp, a, case old of None \<Rightarrow> [] | Some w \<Rightarrow> [w])"
| "aw_tstep p (RegWakeNew wk mp) a =
     (case wk of
        None \<Rightarrow> Some (if mp then WUnwound else WIdle, a, [])
      | Some w \<Rightarrow> if mp then Some (WAssert, a, []) else Some (if p then WUnwound else WIdle, a, [w]))"
| "aw_tstep p (RegSelfWake w) a = Some (if p then WUnwound else WIdle, a, [w])"
| "aw_tstep p WakeOr a =
     (case fetch_or WAKING (aw_state a) of (prev, s) \<Rightarrow>
        let a' = a\<lparr>aw_state := s\<rparr> in
        if prev = WAITING then Some (WakeTake, a', [])
        else if prev = REGISTERING \<or> prev = REGISTERING OR WAKING \<or> prev = WAKING then Some (WIdle, a', [])
        else Some (WAssert, a', []))"
| "aw_tstep p WakeTake a = Some (WakeAnd (aw_cell a), a\<lparr>aw_cell := None\<rparr>, [])"
| "aw_tstep p (WakeAnd wk) a =
     Some (WakeCall wk, a\<lparr>aw_state := snd (fetch_and (NOT WAKING) (aw_state a))\<rparr>, [])"
| "aw_tstep p (WakeCall wk) a =
     (case wk of None \<Rightarrow> Some (WIdle, a, []) | Some w \<Rightarrow> Some (if p then WUnwound else WIdle, a, [w]))"
| "aw_tstep p WIdle a = None"
| "aw_tstep p WUnwound a = None"
| "aw_tstep p WAssert a = None"

section \<open>Any number of threads\<close>

record 'w aw_sys =
  shared :: "'w atomic_waker"
  pcs :: "nat \<Rightarrow> 'w wpc"
  woken :: "'w list"

datatype 'w aw_label = CallRegister nat 'w | CallWake nat | Run nat bool

definition aw_idle :: "'w wpc \<Rightarrow> bool" where
  "aw_idle pc \<longleftrightarrow> pc = WIdle \<or> pc = WUnwound"

fun aw_next :: "'w aw_sys \<Rightarrow> 'w aw_label \<Rightarrow> 'w aw_sys option" where
  "aw_next s (CallRegister t w) =
     (if aw_idle (pcs s t) then Some (s\<lparr>pcs := (pcs s)(t := RegCas w)\<rparr>) else None)"
| "aw_next s (CallWake t) =
     (if aw_idle (pcs s t) then Some (s\<lparr>pcs := (pcs s)(t := WakeOr)\<rparr>) else None)"
| "aw_next s (Run t p) =
     (case aw_tstep p (pcs s t) (shared s) of
        None \<Rightarrow> None
      | Some (pc, a, ws) \<Rightarrow> Some \<lparr>shared = a, pcs = (pcs s)(t := pc), woken = woken s @ ws\<rparr>)"

definition aw_init :: "'w aw_sys" where
  "aw_init = \<lparr>shared = aw_new, pcs = (\<lambda>_. WIdle), woken = []\<rparr>"

section \<open>The lock protocol of the state word\<close>

text \<open>
  The critical sections: a registering thread owns the cell from its first successful
  \<open>compare_exchange\<close> until the state word is released, a waking thread between \<open>fetch_or\<close> and
  \<open>fetch_and\<close>.
\<close>

fun in_reg :: "'w wpc \<Rightarrow> bool" where
  "in_reg (RegInto _) = True"
| "in_reg (RegTakeOld _) = True"
| "in_reg (RegStore _ _) = True"
| "in_reg (RegRelease _ _) = True"
| "in_reg (RegTake _ _) = True"
| "in_reg (RegSwap _ _ _) = True"
| "in_reg _ = False"

fun in_wake :: "'w wpc \<Rightarrow> bool" where
  "in_wake WakeTake = True"
| "in_wake (WakeAnd _) = True"
| "in_wake _ = False"

definition in_cs :: "'w wpc \<Rightarrow> bool" where
  "in_cs pc \<longleftrightarrow> in_reg pc \<or> in_wake pc"

text \<open>The program points whose next step reads or writes the cell.\<close>

fun touches_cell :: "'w wpc \<Rightarrow> bool" where
  "touches_cell (RegTakeOld _) = True"
| "touches_cell (RegStore _ _) = True"
| "touches_cell (RegTake _ _) = True"
| "touches_cell WakeTake = True"
| "touches_cell _ = False"

fun pc_ok :: "'w wpc \<Rightarrow> 'w atomic_waker \<Rightarrow> bool" where
  "pc_ok (RegTake _ _) a = (aw_state a = 3)"
| "pc_ok (RegSwap _ mp wk) a = (aw_state a = 3 \<and> aw_cell a = None)"
| "pc_ok (RegStore _ _) a = ((aw_state a = REGISTERING \<or> aw_state a = 3) \<and> aw_cell a = None)"
| "pc_ok WakeTake a = (aw_state a = WAKING)"
| "pc_ok (WakeAnd _) a = (aw_state a = WAKING \<and> aw_cell a = None)"
| "pc_ok (RegWakeOld _ wk mp) a = (mp \<longrightarrow> wk = None)"
| "pc_ok (RegWakeNew wk mp) a = (mp \<longrightarrow> wk = None)"
| "pc_ok WAssert a = False"
| "pc_ok pc a = (in_reg pc \<longrightarrow> aw_state a = REGISTERING \<or> aw_state a = 3)"

definition aw_inv :: "'w atomic_waker \<Rightarrow> ('t \<Rightarrow> 'w wpc) \<Rightarrow> bool" where
  "aw_inv a ps \<longleftrightarrow>
     aw_state a \<in> {0, 1, 2, 3} \<and>
     (\<forall>t. pc_ok (ps t) a) \<and>
     (\<forall>t u. in_cs (ps t) \<longrightarrow> in_cs (ps u) \<longrightarrow> t = u) \<and>
     (aw_state a \<noteq> WAITING \<longrightarrow> (\<exists>t. in_cs (ps t)))"

lemma word_bits [simp]:
  "(1::usize) OR 2 = 3" "(0::usize) OR 2 = 2" "(2::usize) OR 2 = 2" "(3::usize) OR 2 = 3"
  "(2::usize) AND NOT 2 = 0"
  by simp_all

text \<open>
  How the invariant moves: a thread outside the critical sections does not depend on the state
  word, the owner of the critical section may change everything, a thread that acquires it finds
  the word at \<^term>\<open>WAITING\<close>, and a thread outside may at most add the waking bit.
\<close>

lemma pc_ok_outside: "\<not> in_cs pc \<Longrightarrow> pc_ok pc a \<Longrightarrow> pc_ok pc a'"
  by (cases pc) (auto simp: in_cs_def)

lemma in_cs_state: "in_cs pc \<Longrightarrow> pc_ok pc a \<Longrightarrow> aw_state a \<noteq> WAITING"
  by (cases pc) (auto simp: in_cs_def)

lemma pc_ok_add_waking:
  "pc_ok pc a \<Longrightarrow> aw_state a = REGISTERING \<Longrightarrow> pc_ok pc (a\<lparr>aw_state := 3\<rparr>)"
  by (cases pc) (auto simp: in_cs_def)

lemma aw_inv_owner:
  assumes "aw_inv a ps" "in_cs (ps t)" "aw_state a' \<in> {0, 1, 2, 3}" "pc_ok pc a'"
    and "aw_state a' \<noteq> WAITING \<longrightarrow> in_cs pc"
  shows "aw_inv a' (ps(t := pc))"
proof -
  have out: "\<not> in_cs (ps u)" if "u \<noteq> t" for u
    using assms(1,2) that by (auto simp: aw_inv_def)
  have "pc_ok (ps u) a'" if "u \<noteq> t" for u
    using out [OF that] assms(1) by (auto simp: aw_inv_def intro: pc_ok_outside)
  with out assms(3-5) show ?thesis by (auto simp: aw_inv_def)
qed

lemma aw_inv_acquire:
  assumes "aw_inv a ps" "aw_state a = WAITING" "aw_state a' \<in> {0, 1, 2, 3}" "pc_ok pc a'" "in_cs pc"
  shows "aw_inv a' (ps(t := pc))"
proof -
  have out: "\<not> in_cs (ps u)" for u
    using assms(1,2) in_cs_state [of "ps u" a] by (auto simp: aw_inv_def)
  have "pc_ok (ps u) a'" for u
    using out assms(1) by (auto simp: aw_inv_def intro: pc_ok_outside)
  with out assms(3-5) show ?thesis by (auto simp: aw_inv_def)
qed

lemma aw_inv_outside:
  assumes "aw_inv a ps" "\<not> in_cs (ps t)" "\<not> in_cs pc" "pc_ok pc a'"
    and "a' = a \<or> aw_state a = REGISTERING \<and> a' = a\<lparr>aw_state := 3\<rparr>"
  shows "aw_inv a' (ps(t := pc))"
proof -
  have ok: "pc_ok (ps u) a'" for u
    using assms(1,5) pc_ok_add_waking [of "ps u" a] by (auto simp: aw_inv_def)
  have "\<exists>u. in_cs ((ps(t := pc)) u)" if "aw_state a' \<noteq> WAITING"
  proof -
    from that assms(5) have "aw_state a \<noteq> WAITING" by auto
    then obtain u where "in_cs (ps u)" using assms(1) by (auto simp: aw_inv_def)
    with assms(2) show ?thesis by (intro exI [of _ u]) auto
  qed
  with ok assms show ?thesis by (auto simp: aw_inv_def)
qed

lemma aw_state_cases:
  "aw_inv a ps \<Longrightarrow> aw_state a = 0 \<or> aw_state a = 1 \<or> aw_state a = 2 \<or> aw_state a = 3"
  by (auto simp: aw_inv_def)

lemma aw_inv_pc: "aw_inv a ps \<Longrightarrow> pc_ok (ps t) a"
  by (simp add: aw_inv_def)

lemma aw_inv_unique: "aw_inv a ps \<Longrightarrow> in_cs (ps t) \<Longrightarrow> in_cs (ps u) \<Longrightarrow> t = u"
  by (simp add: aw_inv_def)

lemma aw_tstep_inv:
  assumes inv: "aw_inv a ps" and step: "aw_tstep p (ps t) a = Some (pc, a', ws)"
  shows "aw_inv a' (ps(t := pc))"
proof -
  note ok = aw_inv_pc [OF inv, of t] and st = aw_state_cases [OF inv]
  have [simp]: "a\<lparr>aw_state := aw_state a\<rparr> = a" by simp
  show ?thesis
  proof (cases "in_cs (ps t)")
    case True
    show ?thesis
      by (rule aw_inv_owner [OF inv True]; use True ok st step in
          \<open>cases "ps t"; auto simp: in_cs_def atomic_defs split: if_splits option.splits\<close>)
  next
    case False
    show ?thesis
    proof (cases "aw_state a = WAITING \<and> in_cs pc")
      case True
      show ?thesis
        by (rule aw_inv_acquire [OF inv]; use True False ok step in
            \<open>cases "ps t"; auto simp: in_cs_def atomic_defs Let_def split: if_splits option.splits\<close>)
    next
      case notacq: False
      show ?thesis
        by (rule aw_inv_outside [OF inv False]; use notacq False ok st step in
            \<open>cases "ps t"; auto simp: in_cs_def atomic_defs Let_def split: if_splits option.splits\<close>)
    qed
  qed
qed

lemma aw_init_inv: "aw_inv aw_new (\<lambda>_. WIdle)"
  by (simp add: aw_inv_def aw_new_def in_cs_def)

lemma aw_idle_outside: "aw_idle pc \<Longrightarrow> \<not> in_cs pc"
  by (cases pc) (auto simp: aw_idle_def in_cs_def)

lemma aw_next_inv:
  assumes "aw_inv (shared s) (pcs s)" "aw_next s l = Some t"
  shows "aw_inv (shared t) (pcs t)"
proof (cases l)
  case (CallRegister u w)
  with assms show ?thesis
    by (auto simp: in_cs_def dest: aw_idle_outside intro!: aw_inv_outside split: if_splits)
next
  case (CallWake u)
  with assms show ?thesis
    by (auto simp: in_cs_def dest: aw_idle_outside intro!: aw_inv_outside split: if_splits)
next
  case (Run u p)
  with assms show ?thesis
    by (auto dest: aw_tstep_inv split: option.splits)
qed

interpretation awi: lts_invariant aw_next aw_init "\<lambda>s. aw_inv (shared s) (pcs s)"
  by unfold_locales (auto simp: aw_init_def aw_init_inv dest: aw_next_inv)

section \<open>No wake-up is lost\<close>

text \<open>
  \<open>carries w pc a\<close>: the thread at \<open>pc\<close> is going to call \<open>wake\<close> on \<open>w\<close>, whatever the other threads
  do.  \<open>due n w s\<close>: \<open>w\<close> has been woken since the first \<open>n\<close> wake-ups, or some thread is going to.
\<close>

fun carries :: "'w \<Rightarrow> 'w wpc \<Rightarrow> 'w atomic_waker \<Rightarrow> bool" where
  "carries w (RegInto x) a = (aw_state a = 3 \<and> aw_cell a = Some w)"
| "carries w (RegTakeOld x) a = (aw_state a = 3 \<and> (aw_cell a = Some w \<or> x = w))"
| "carries w (RegStore x old) a = (aw_state a = 3 \<and> (old = Some w \<or> x = w))"
| "carries w (RegRelease old mp) a = (aw_state a = 3 \<and> (aw_cell a = Some w \<or> old = Some w \<and> \<not> mp))"
| "carries w (RegTake old mp) a = (aw_cell a = Some w \<or> old = Some w \<and> \<not> mp)"
| "carries w (RegSwap old mp wk) a = (wk = Some w \<or> old = Some w \<and> \<not> mp)"
| "carries w (RegWakeOld old wk mp) a = (old = Some w \<or> wk = Some w)"
| "carries w (RegWakeNew wk mp) a = (wk = Some w)"
| "carries w (RegSelfWake x) a = (x = w)"
| "carries w WakeTake a = (aw_cell a = Some w)"
| "carries w (WakeAnd wk) a = (wk = Some w)"
| "carries w (WakeCall wk) a = (wk = Some w)"
| "carries w pc a = False"

definition due :: "nat \<Rightarrow> 'w \<Rightarrow> 'w aw_sys \<Rightarrow> bool" where
  "due n w s \<longleftrightarrow> n \<le> length (woken s) \<and>
     (w \<in> set (drop n (woken s)) \<or> (\<exists>t. carries w (pcs s t) (shared s)))"

lemma carries_outside: "\<not> in_cs pc \<Longrightarrow> carries w pc a \<Longrightarrow> carries w pc a'"
  by (cases pc) (auto simp: in_cs_def)

lemma carries_add_waking: "carries w pc a \<Longrightarrow> carries w pc (a\<lparr>aw_state := 3\<rparr>)"
  by (cases pc) auto

text \<open>A thread outside the critical sections leaves the shared state alone or adds the waking bit.\<close>

lemma aw_tstep_outside:
  assumes "\<not> in_cs pc" "aw_tstep p pc a = Some (pc', a', ws)"
    and "aw_state a \<in> {1, 2, 3}"
  shows "a' = a \<or> aw_state a = REGISTERING \<and> a' = a\<lparr>aw_state := 3\<rparr>"
proof -
  have [simp]: "a\<lparr>aw_state := aw_state a\<rparr> = a" by simp
  have [simp]: "aw_state a = v \<Longrightarrow> a\<lparr>aw_state := v\<rparr> = a" for v by simp
  from assms show ?thesis
    by (cases pc) (auto simp: in_cs_def atomic_defs Let_def split: if_splits option.splits)
qed

lemma carries_own_step:
  assumes "carries w pc a" "pc_ok pc a" "aw_tstep p pc a = Some (pc', a', ws)"
  shows "w \<in> set ws \<or> carries w pc' a'"
proof (cases pc)
  case (RegInto x)
  with assms show ?thesis by (auto split: if_splits)
next
  case (RegTakeOld x)
  with assms show ?thesis by auto
next
  case (RegStore x old)
  with assms show ?thesis by auto
next
  case (RegRelease old mp)
  with assms show ?thesis by (auto simp: compare_exchange_def)
next
  case (RegTake old mp)
  with assms show ?thesis by auto
next
  case (RegSwap old mp wk)
  with assms show ?thesis by (auto split: if_splits)
next
  case (RegWakeNew wk mp)
  with assms show ?thesis by (auto split: if_splits)
qed (use assms in auto)

lemma carries_other_step:
  assumes inv: "aw_inv a ps" and c: "carries w (ps u) a" and "u \<noteq> t"
    and step: "aw_tstep p (ps t) a = Some (pc', a', ws)"
  shows "carries w (ps u) a'"
proof (cases "in_cs (ps u)")
  case True
  then have t: "\<not> in_cs (ps t)" using aw_inv_unique [OF inv] \<open>u \<noteq> t\<close> by blast
  have "aw_state a \<noteq> WAITING" using True aw_inv_pc [OF inv] by (rule in_cs_state)
  then have "aw_state a \<in> {1, 2, 3}" using aw_state_cases [OF inv] by auto
  from aw_tstep_outside [OF t step this] show ?thesis
    using c by (elim disjE conjE) (simp_all add: carries_add_waking)
next
  case False
  then show ?thesis using c by (rule carries_outside)
qed

lemma due_step:
  assumes inv: "aw_inv (shared s) (pcs s)" and due: "due n w s" and step: "aw_next s l = Some s'"
  shows "due n w s'"
proof (cases l)
  case (Run t p)
  with step obtain pc a ws where ts: "aw_tstep p (pcs s t) (shared s) = Some (pc, a, ws)"
    and s': "s' = \<lparr>shared = a, pcs = (pcs s)(t := pc), woken = woken s @ ws\<rparr>"
    by (auto split: option.splits)
  from due consider "w \<in> set (drop n (woken s))" | u where "carries w (pcs s u) (shared s)"
    by (auto simp: due_def)
  then show ?thesis
  proof cases
    case 1
    with due s' show ?thesis by (auto simp: due_def)
  next
    case (2 u)
    show ?thesis
    proof (cases "u = t")
      case True
      with 2 ts inv carries_own_step [of w "pcs s t"] have "w \<in> set ws \<or> carries w pc a"
        by (auto simp: aw_inv_def)
      with due s' show ?thesis by (auto simp: due_def intro: exI [of _ t])
    next
      case False
      with 2 ts inv have "carries w (pcs s u) a" by (auto intro: carries_other_step)
      with False due s' show ?thesis by (auto simp: due_def intro!: exI [of _ u])
    qed
  qed
next
  case (CallRegister t x)
  with step have idle: "aw_idle (pcs s t)" and s': "s' = s\<lparr>pcs := (pcs s)(t := RegCas x)\<rparr>"
    by (auto split: if_splits)
  from idle have "\<not> carries w (pcs s t) (shared s)" by (auto simp: aw_idle_def)
  with due s' show ?thesis by (fastforce simp: due_def)
next
  case (CallWake t)
  with step have idle: "aw_idle (pcs s t)" and s': "s' = s\<lparr>pcs := (pcs s)(t := WakeOr)\<rparr>"
    by (auto split: if_splits)
  from idle have "\<not> carries w (pcs s t) (shared s)" by (auto simp: aw_idle_def)
  with due s' show ?thesis by (fastforce simp: due_def)
qed

interpretation awd: lts_stable aw_next aw_init "\<lambda>s. aw_inv (shared s) (pcs s)" "due n w" for n w
  by unfold_locales (rule due_step)

text \<open>
  The step that matters: the \<open>fetch_or\<close> of a \<open>wake\<close> call makes the registered waker due, and also
  the one a concurrent \<open>register\<close> call is about to store.
\<close>

fun registering :: "'w \<Rightarrow> 'w wpc \<Rightarrow> bool" where
  "registering w (RegTakeOld x) = (x = w)"
| "registering w (RegStore x _) = (x = w)"
| "registering w pc = False"

lemma due_fetch_or:
  assumes inv: "aw_inv (shared s) (pcs s)" and pc: "pcs s t = WakeOr"
    and w: "aw_cell (shared s) = Some w \<or> registering w (pcs s u)"
    and step: "aw_next s (Run t p) = Some s'"
  shows "due (length (woken s)) w s'"
proof (cases "aw_state (shared s) = WAITING")
  case True
  have "pc_ok (pcs s u) (shared s)" using inv by (simp add: aw_inv_def)
  then have "\<not> registering w (pcs s u)"
    using True by (cases "pcs s u") auto
  with w have "carries w WakeTake ((shared s)\<lparr>aw_state := 2\<rparr>)" by simp
  with True pc step show ?thesis
    by (auto simp: due_def atomic_defs intro!: exI [of _ t])
next
  case False
  then obtain v where v: "in_cs (pcs s v)" using inv by (auto simp: aw_inv_def)
  from v pc have "v \<noteq> t" by (auto simp: in_cs_def)
  have ok: "pc_ok (pcs s v) (shared s)" using inv by (auto simp: aw_inv_def)
  have "registering w (pcs s u) \<Longrightarrow> in_cs (pcs s u)"
    by (cases "pcs s u") (auto simp: in_cs_def)
  then have uv: "registering w (pcs s u) \<Longrightarrow> registering w (pcs s v)"
    using aw_inv_unique [OF inv _ v] by metis
  let ?a = "(shared s)\<lparr>aw_state := aw_state (shared s) OR WAKING\<rparr>"
  have "carries w (pcs s v) ?a"
    using v ok w uv False aw_state_cases [OF inv]
    by (cases "pcs s v") (auto simp: in_cs_def)
  with \<open>v \<noteq> t\<close> False pc step aw_state_cases [OF inv] show ?thesis
    by (auto simp: due_def atomic_defs Let_def intro!: exI [of _ v])
qed

lemma due_idle: "due n w s \<Longrightarrow> \<forall>t. aw_idle (pcs s t) \<Longrightarrow> w \<in> set (drop n (woken s))"
  unfolding due_def aw_idle_def by (metis carries.simps(13) carries.simps(16))

section \<open>Both calls are wait-free\<close>

text \<open>An upper bound on the steps a thread still takes before its call returns.\<close>

fun aw_rank :: "'w wpc \<Rightarrow> nat" where
  "aw_rank (RegCas _) = 9"
| "aw_rank (RegInto _) = 8"
| "aw_rank (RegTakeOld _) = 7"
| "aw_rank (RegStore _ _) = 6"
| "aw_rank (RegRelease _ _) = 5"
| "aw_rank (RegTake _ _) = 4"
| "aw_rank (RegSwap _ _ _) = 3"
| "aw_rank (RegWakeOld _ _ _) = 2"
| "aw_rank (RegWakeNew _ _) = 1"
| "aw_rank (RegSelfWake _) = 1"
| "aw_rank WakeOr = 4"
| "aw_rank WakeTake = 3"
| "aw_rank (WakeAnd _) = 2"
| "aw_rank (WakeCall _) = 1"
| "aw_rank _ = 0"

lemma aw_tstep_rank: "aw_tstep p pc a = Some (pc', a', ws) \<Longrightarrow> aw_rank pc' < aw_rank pc"
  by (cases pc) (auto simp: Let_def split: if_splits option.splits prod.splits sum.splits)

lemma aw_tstep_enabled: "aw_rank pc \<noteq> 0 \<Longrightarrow> \<exists>r. aw_tstep p pc a = Some r"
  by (cases pc) (auto simp: Let_def split: if_splits option.splits prod.splits sum.splits)

definition own_steps :: "nat \<Rightarrow> 'w aw_label list \<Rightarrow> nat" where
  "own_steps t ls = length (filter (\<lambda>l. case l of Run u _ \<Rightarrow> u = t | _ \<Rightarrow> False) ls)"

definition no_call :: "nat \<Rightarrow> 'w aw_label list \<Rightarrow> bool" where
  "no_call t ls \<longleftrightarrow> list_all (\<lambda>l. case l of CallRegister u _ \<Rightarrow> u \<noteq> t | CallWake u \<Rightarrow> u \<noteq> t | _ \<Rightarrow> True) ls"

lemma aw_next_rank:
  assumes "aw_next s l = Some s'" "no_call t [l]"
  shows "own_steps t [l] + aw_rank (pcs s' t) \<le> aw_rank (pcs s t)"
  using assms
  by (cases l) (auto simp: no_call_def own_steps_def split: if_splits option.splits dest!: aw_tstep_rank)

lemma exec_rank:
  "exec aw_next s ls = Some s' \<Longrightarrow> no_call t ls \<Longrightarrow>
     own_steps t ls + aw_rank (pcs s' t) \<le> aw_rank (pcs s t)"
proof (induction ls arbitrary: s)
  case Nil
  then show ?case by (simp add: own_steps_def)
next
  case (Cons l ls)
  then obtain u where u: "aw_next s l = Some u" "exec aw_next u ls = Some s'"
    by (auto split: option.splits)
  have "own_steps t [l] + aw_rank (pcs u t) \<le> aw_rank (pcs s t)"
    using aw_next_rank [OF u(1), of t] Cons.prems(2) by (simp add: no_call_def)
  moreover have "own_steps t ls + aw_rank (pcs s' t) \<le> aw_rank (pcs u t)"
    using Cons.IH [OF u(2)] Cons.prems(2) by (simp add: no_call_def)
  moreover have "own_steps t (l # ls) = own_steps t [l] + own_steps t ls"
    by (simp add: own_steps_def)
  ultimately show ?case by simp
qed

section \<open>The calls without interference\<close>

text \<open>
  A call that runs alone: the thread's steps until it is idle.  Nine steps suffice
  (\<open>aw_rank\<close> starts at most at 9).
\<close>

fun aw_solo :: "nat \<Rightarrow> 'w wpc \<Rightarrow> 'w atomic_waker \<Rightarrow> 'w wpc \<times> 'w atomic_waker \<times> 'w list" where
  "aw_solo 0 pc a = (pc, a, [])"
| "aw_solo (Suc n) pc a =
     (case aw_tstep False pc a of
        None \<Rightarrow> (pc, a, [])
      | Some (pc', a', ws) \<Rightarrow> (case aw_solo n pc' a' of (r, b, vs) \<Rightarrow> (r, b, ws @ vs)))"

definition register_by_ref :: "'w \<Rightarrow> 'w atomic_waker \<Rightarrow> 'w wpc \<times> 'w atomic_waker \<times> 'w list" where
  "register_by_ref w a = aw_solo 9 (RegCas w) a"

definition aw_wake :: "'w atomic_waker \<Rightarrow> 'w wpc \<times> 'w atomic_waker \<times> 'w list" where
  "aw_wake a = aw_solo 9 WakeOr a"

section \<open>Properties\<close>

text \<open>
  C18: Mutual exclusion on the waker cell: in every reachable state, at most one thread stands at a
  program point whose next step accesses the cell.  This is the claim of the file's comments that
  the state word is a lock, and what makes the \<open>UnsafeCell\<close> accesses free of data races.
\<close>

theorem waker_cell_exclusive:
  assumes "reaches aw_next aw_init s" and "touches_cell (pcs s t)" and "touches_cell (pcs s u)"
  shows "t = u"
proof -
  have "touches_cell pc \<Longrightarrow> in_cs pc" for pc :: "'a wpc"
    by (cases pc) (auto simp: in_cs_def)
  then show ?thesis
    using aw_inv_unique [OF awi.inv_reaches [OF assms(1)]] assms(2,3) by blast
qed

lemmas aw_eval = aw_init_def aw_new_def aw_idle_def atomic_defs Let_def

theorem waker_cell_exclusive_witness:
  "\<exists>s. reaches aw_next (aw_init :: nat aw_sys) s \<and> touches_cell (pcs s 1) \<and> \<not> touches_cell (pcs s 2)"
proof -
  let ?s = "\<lparr>shared = \<lparr>aw_state = 3, aw_cell = None\<rparr>, pcs = (\<lambda>_. WIdle)(1 := RegTakeOld 7, 2 := WIdle),
    woken = []\<rparr> :: nat aw_sys"
  have "exec aw_next aw_init [CallRegister 1 (7::nat), Run 1 False, Run 1 False, CallWake 2, Run 2 False]
    = Some ?s"
    by (simp add: aw_eval fun_upd_twist)
  then have r: "reaches aw_next aw_init ?s" by (rule reachesI)
  have "\<not> touches_cell (pcs ?s 2)"
    using waker_cell_exclusive [OF r, of 1 2] by auto
  with r show ?thesis by (intro exI [of _ ?s]) simp
qed

text \<open>
  C19: The assertions of \<open>do_register\<close> and \<open>take_waker\<close> about the state word never fail, in any
  interleaving and even when the waker's own code panics: the word read by a failed
  \<open>compare_exchange\<close> or \<open>fetch_or\<close> is one of the values the comments list, and a waker is left to
  wake only when \<open>into_waker\<close> did not panic.
\<close>

theorem waker_asserts_hold:
  assumes "reaches aw_next aw_init s"
  shows "pcs s t \<noteq> WAssert"
  using aw_inv_pc [OF awi.inv_reaches [OF assms], of t] by auto

theorem waker_asserts_hold_witness:
  "\<exists>s. reaches aw_next (aw_init :: nat aw_sys) s \<and> pcs s 1 = RegTake None True \<and> pcs s 2 \<noteq> WAssert"
proof -
  let ?s = "\<lparr>shared = \<lparr>aw_state = 3, aw_cell = None\<rparr>, pcs = (\<lambda>_. WIdle)(1 := RegTake None True, 2 := WIdle),
    woken = []\<rparr> :: nat aw_sys"
  have "exec aw_next aw_init [CallRegister 1 (7::nat), Run 1 False, Run 1 True, CallWake 2, Run 2 False,
    Run 1 False] = Some ?s"
    by (simp add: aw_eval fun_upd_twist)
  then have r: "reaches aw_next aw_init ?s" by (rule reachesI)
  from waker_asserts_hold [OF r, of 2] r show ?thesis by (intro exI [of _ ?s]) simp
qed

text \<open>
  C17: No wake-up is lost.  If a \<open>wake\<close> call executes its \<open>fetch_or\<close> while \<open>w\<close> is registered (in the
  cell), or while another thread is about to store \<open>w\<close> there, then in every continuation, as soon as
  all calls have returned, \<open>w\<close> has been woken after that \<open>fetch_or\<close>; which thread does it depends on
  the interleaving.
\<close>

theorem no_lost_wakeup:
  assumes "reaches aw_next aw_init s" and "pcs s t = WakeOr"
    and "aw_cell (shared s) = Some w \<or> registering w (pcs s u)"
    and "aw_next s (Run t p) = Some s'" and "exec aw_next s' ls = Some s''"
    and "\<forall>v. aw_idle (pcs s'' v)"
  shows "w \<in> set (drop (length (woken s)) (woken s''))"
proof -
  have "due (length (woken s)) w s'"
    by (rule due_fetch_or [OF awi.inv_reaches [OF assms(1)] assms(2-4)])
  then have "due (length (woken s)) w s''"
    by (rule awd.stable_reaches [OF reaches_step [OF assms(1,4)] _ assms(5)])
  then show ?thesis using assms(6) by (rule due_idle)
qed

text \<open>
  The witness: the \<open>wake\<close> call of thread 2 finds thread 1 in the middle of \<open>register\<close>, so thread 1
  wakes its own waker.
\<close>

theorem no_lost_wakeup_witness:
  "\<exists>s'. exec aw_next aw_init ([CallRegister 1 (7::nat), Run 1 False, Run 1 False, CallWake 2, Run 2 False]
      @ replicate 7 (Run 1 False)) = Some s' \<and> 7 \<in> set (woken s')"
proof -
  let ?s = "\<lparr>shared = \<lparr>aw_state = 1, aw_cell = None\<rparr>,
    pcs = (\<lambda>_. WIdle)(1 := RegTakeOld (7::nat), 2 := WakeOr), woken = []\<rparr>"
  let ?t = "\<lparr>shared = \<lparr>aw_state = 3, aw_cell = None\<rparr>,
    pcs = (\<lambda>_. WIdle)(1 := RegTakeOld (7::nat), 2 := WIdle), woken = []\<rparr>"
  let ?u = "\<lparr>shared = \<lparr>aw_state = 0, aw_cell = None\<rparr>,
    pcs = (\<lambda>_. WIdle)(1 := WIdle, 2 := WIdle), woken = [7::nat]\<rparr>"
  have e1: "exec aw_next aw_init [CallRegister 1 (7::nat), Run 1 False, Run 1 False, CallWake 2] = Some ?s"
    by (simp add: aw_eval fun_upd_twist)
  have e2: "aw_next ?s (Run 2 False) = Some ?t" by (simp add: aw_eval fun_upd_twist)
  have e3: "exec aw_next ?t (replicate 7 (Run 1 False)) = Some ?u"
    by (simp add: aw_eval fun_upd_twist eval_nat_numeral)
  have "7 \<in> set (drop (length (woken ?s)) (woken ?u))"
    by (rule no_lost_wakeup [OF reachesI [OF e1] _ _ e2 e3, of _ 1]) (simp_all add: aw_idle_def)
  moreover have "exec aw_next aw_init ([CallRegister 1 (7::nat), Run 1 False, Run 1 False, CallWake 2, Run 2 False]
      @ replicate 7 (Run 1 False)) = Some ?u"
    by (simp add: aw_eval fun_upd_twist eval_nat_numeral)
  ultimately show ?thesis by (intro exI [of _ ?u]) simp
qed

text \<open>
  C20: Both calls are wait-free: as long as a thread starts no new call it takes at most nine steps,
  whatever the other threads do in between, and until its call has returned its next step is always
  enabled.
\<close>

theorem calls_wait_free:
  assumes "reaches aw_next aw_init s" and "exec aw_next s ls = Some s'" and "no_call t ls"
  shows "own_steps t ls \<le> 9 \<and> (aw_idle (pcs s' t) \<or> (\<exists>s''. aw_next s' (Run t p) = Some s''))"
proof
  have "aw_rank (pcs s t) \<le> 9" by (cases "pcs s t") auto
  then show "own_steps t ls \<le> 9" using exec_rank [OF assms(2,3)] by simp
  have "pcs s' t \<noteq> WAssert"
    using aw_inv_pc [OF awi.inv_reaches [OF reaches_exec [OF assms(1,2)]], of t] by auto
  then have "aw_idle (pcs s' t) \<or> aw_rank (pcs s' t) \<noteq> 0"
    by (cases "pcs s' t") (auto simp: aw_idle_def)
  then show "aw_idle (pcs s' t) \<or> (\<exists>s''. aw_next s' (Run t p) = Some s'')"
    using aw_tstep_enabled [of "pcs s' t" p "shared s'"] by (auto split: option.splits)
qed

theorem calls_wait_free_witness:
  "own_steps 1 [CallWake 2, Run 2 False, Run 1 False :: nat aw_label] \<le> 9 \<and>
   (\<exists>s. exec aw_next aw_init [CallRegister 1 (7::nat), CallWake 2, Run 2 False, Run 1 False] = Some s \<and>
     pcs s 1 = RegSelfWake 7)"
proof -
  let ?s = "aw_init\<lparr>pcs := (\<lambda>_. WIdle)(1 := RegCas (7::nat))\<rparr>"
  let ?t = "\<lparr>shared = \<lparr>aw_state = 2, aw_cell = None\<rparr>,
    pcs = (\<lambda>_. WIdle)(1 := RegSelfWake (7::nat), 2 := WakeTake), woken = []\<rparr>"
  have r: "exec aw_next aw_init [CallRegister 1 (7::nat)] = Some ?s" by (simp add: aw_eval)
  have e: "exec aw_next ?s [CallWake 2, Run 2 False, Run 1 False] = Some ?t"
    by (simp add: aw_eval fun_upd_twist)
  have "own_steps 1 [CallWake 2, Run 2 False, Run 1 False :: nat aw_label] \<le> 9"
    using calls_wait_free [OF reachesI [OF r] e, of 1] by (simp add: no_call_def)
  moreover have "exec aw_next aw_init [CallRegister 1 (7::nat), CallWake 2, Run 2 False, Run 1 False] = Some ?t"
    by (simp add: aw_eval fun_upd_twist)
  ultimately show ?thesis by (auto simp: own_steps_def intro!: exI [of _ ?t])
qed

text \<open>
  What the two calls do when nothing interferes: \<open>register_by_ref\<close> stores the waker and wakes
  nobody, replacing the one that was there; \<open>wake\<close> takes the waker out and wakes it exactly once,
  and does nothing when none is registered.  Both release the state word.
\<close>

theorem register_then_wake:
  "register_by_ref w \<lparr>aw_state = WAITING, aw_cell = c\<rparr> = (WIdle, \<lparr>aw_state = WAITING, aw_cell = Some w\<rparr>, []) \<and>
   aw_wake \<lparr>aw_state = WAITING, aw_cell = c\<rparr> =
     (WIdle, \<lparr>aw_state = WAITING, aw_cell = None\<rparr>, case c of None \<Rightarrow> [] | Some v \<Rightarrow> [v])"
  by (simp add: register_by_ref_def aw_wake_def eval_nat_numeral atomic_defs Let_def split: option.splits)

end
