(* ===== verification/PriorityChan.thy ===== *)
theory PriorityChan imports PriorityQueue AtomicWaker begin

text \<open>
  The channel of \<open>priotity_async_mpsc_chan.rs\<close> under concurrency: any number of sender threads and
  one receiving task share the map of queues (behind its read-write lock), the closing flag and the
  waker cell.  Every atomic access is a step; the calls into the waker run the steps of the theory
  of the waker cell.
\<close>

section \<open>State\<close>

text \<open>
  \<open>readers\<close> counts the read guards of the map's lock; the write guard is held for a single step,
  which needs \<open>readers = 0\<close>.  \<open>pushed\<close>, \<open>popped\<close> and \<open>overwritten\<close> are history: the values pushed and
  taken out, and the queues that an \<open>insert\<close> replaced (and Rust then drops with their values).
\<close>

record ('i, 'p, 'q) pchan =
  queue :: "('p, 'q) btree"
  readers :: nat
  end_flag :: bool
  waker :: "nat atomic_waker"
  pushed :: "('p \<times> 'i) list"
  popped :: "('p \<times> 'i) list"
  overwritten :: "('p \<times> 'q) list"

text \<open>
  Program points of a thread with a \<open>Sender\<close>: the steps of \<open>send_sync\<close>, of \<open>PriorityQueue::push\<close>
  inside it, and of the drop of the shared \<open>SenderInner\<close>.
\<close>

datatype ('i, 'p) txpc =
    TxIdle
  | TxFlag 'i 'p      \<comment> \<open>before \<open>end_flag.load\<close>\<close>
  | TxCheck 'i 'p     \<comment> \<open>before \<open>contains_key\<close>\<close>
  | TxFast 'i 'p      \<comment> \<open>holding the read guard, before \<open>get(..).unwrap().push\<close>\<close>
  | TxSlow 'i 'p      \<comment> \<open>holding no guard, before \<open>map.write()\<close>\<close>
  | TxWake "nat wpc"  \<comment> \<open>inside \<open>waker.wake()\<close>\<close>
  | TxDone bool       \<comment> \<open>\<open>send_sync\<close> returned \<open>Ok(())\<close> or \<open>Err(())\<close>\<close>
  | TxClose           \<comment> \<open>before \<open>end_flag.store(true)\<close> of the last sender's drop\<close>
  | TxPanic

text \<open>
  Program points of the receiving task: one \<open>poll\<close> of the future returned by \<open>recv\<close>.  The boolean
  says whether this is the second \<open>try_recv!\<close>; the list holds the priorities not yet visited.
\<close>

datatype ('i, 'p) rxpc =
    RxIdle
  | RxLock bool
  | RxPop bool "'p list"
  | RxEnd bool
  | RxReg "nat wpc"
  | RxPending
  | RxReady "'i option"

text \<open>
  The system.  \<open>tx\<close> are the threads, \<open>owns\<close> the \<open>Sender\<close>s that exist, by a number for each.  \<open>send_sync\<close> and
  \<open>clone\<close> take \<open>&self\<close>, so any thread can call them through any \<open>Sender\<close>, several threads through the same one
  at a time; \<open>loans\<close> has the thread and the \<open>Sender\<close> of each call under way, and a \<open>Sender\<close> that is lent cannot
  be dropped.  \<open>strong\<close> is the count of the \<open>Arc<SenderInner>\<close>.
\<close>

record ('i, 'p, 'q) psys =
  chan :: "('i, 'p, 'q) pchan"
  tx :: "nat \<Rightarrow> ('i, 'p) txpc"
  owns :: "nat \<Rightarrow> bool"
  loans :: "(nat \<times> nat) list"
  strong :: nat
  rx :: "('i, 'p) rxpc"
  task :: nat
  notified :: bool

definition pchan_new :: "('i, 'p, 'q) pchan" where
  "pchan_new = \<lparr>queue = [], readers = 0, end_flag = False, waker = aw_new,
     pushed = [], popped = [], overwritten = []\<rparr>"

text \<open>\<open>new()\<close>: the first \<open>Sender\<close> has the number 0, the receiver is not polled yet.\<close>

definition psys_init :: "('i, 'p, 'q) psys" where
  "psys_init = \<lparr>chan = pchan_new, tx = (\<lambda>_. TxIdle), owns = (\<lambda>h. h = 0), loans = [], strong = 1,
     rx = RxIdle, task = 0, notified = False\<rparr>"

section \<open>The steps of a sender\<close>

fun tx_step :: "('q, 'i) segq \<Rightarrow> ('i, 'p::linorder) txpc \<Rightarrow> ('i, 'p, 'q) pchan \<Rightarrow>
    (('i, 'p) txpc \<times> ('i, 'p, 'q) pchan \<times> nat list) option" where
  "tx_step Q (TxFlag i p) c =
     Some (if end_flag c then TxDone False else TxCheck i p, c, [])"
| "tx_step Q (TxCheck i p) c =
     Some (if bt_contains_key (queue c) p
       then (TxFast i p, c\<lparr>readers := Suc (readers c)\<rparr>, [])
       else (TxSlow i p, c, []))"
| "tx_step Q (TxFast i p) c =
     (case bt_get (queue c) p of
        None \<Rightarrow> Some (TxPanic, c\<lparr>readers := readers c - 1\<rparr>, [])
      | Some q \<Rightarrow> Some (TxWake WakeOr,
          c\<lparr>queue := bt_update p (\<lambda>q. sq_push Q q i) (queue c), readers := readers c - 1,
            pushed := pushed c @ [(p, i)]\<rparr>, []))"
| "tx_step Q (TxSlow i p) c =
     (if readers c \<noteq> 0 then None
      else let m = bt_insert p (sq_new Q) (queue c) in
        case bt_get m p of
          None \<Rightarrow> Some (TxPanic, c\<lparr>queue := m\<rparr>, [])
        | Some q \<Rightarrow> Some (TxWake WakeOr,
            c\<lparr>queue := bt_update p (\<lambda>q. sq_push Q q i) m, pushed := pushed c @ [(p, i)],
              overwritten := overwritten c @
                (case bt_get (queue c) p of None \<Rightarrow> [] | Some q \<Rightarrow> [(p, q)])\<rparr>, []))"
| "tx_step Q (TxWake pc) c =
     (case aw_tstep False pc (waker c) of
        None \<Rightarrow> None
      | Some (pc', a, ws) \<Rightarrow>
          Some (if pc' = WIdle then TxDone True else TxWake pc', c\<lparr>waker := a\<rparr>, ws))"
| "tx_step Q TxClose c = Some (TxIdle, c\<lparr>end_flag := True\<rparr>, [])"
| "tx_step Q TxIdle c = None"
| "tx_step Q (TxDone b) c = None"
| "tx_step Q TxPanic c = None"

section \<open>The steps of the receiver\<close>

fun rx_step :: "('q, 'i) segq \<Rightarrow> nat \<Rightarrow> ('i, 'p::linorder) rxpc \<Rightarrow> ('i, 'p, 'q) pchan \<Rightarrow>
    (('i, 'p) rxpc \<times> ('i, 'p, 'q) pchan \<times> nat list) option" where
  "rx_step Q w (RxLock b) c =
     Some (RxPop b (map fst (queue c)), c\<lparr>readers := Suc (readers c)\<rparr>, [])"
| "rx_step Q w (RxPop b []) c = Some (RxEnd b, c\<lparr>readers := readers c - 1\<rparr>, [])"
| "rx_step Q w (RxPop b (p # ps)) c =
     (case bt_get (queue c) p of
        None \<Rightarrow> Some (RxPop b ps, c, [])
      | Some q \<Rightarrow>
          (case sq_pop Q q of
             (Some i, q') \<Rightarrow> Some (RxReady (Some i),
               c\<lparr>queue := bt_update p (\<lambda>_. q') (queue c), readers := readers c - 1,
                 popped := popped c @ [(p, i)]\<rparr>, [])
           | (None, q') \<Rightarrow> Some (RxPop b ps, c\<lparr>queue := bt_update p (\<lambda>_. q') (queue c)\<rparr>, [])))"
| "rx_step Q w (RxEnd b) c =
     Some (if end_flag c then RxReady None else if b then RxPending else RxReg (RegCas w), c, [])"
| "rx_step Q w (RxReg pc) c =
     (case aw_tstep False pc (waker c) of
        None \<Rightarrow> None
      | Some (pc', a, ws) \<Rightarrow>
          Some (if pc' = WIdle then RxLock True else RxReg pc', c\<lparr>waker := a\<rparr>, ws))"
| "rx_step Q w RxIdle c = None"
| "rx_step Q w RxPending c = None"
| "rx_step Q w (RxReady r) c = None"

section \<open>The system\<close>

text \<open>
  Labels: a clone of the \<open>Sender\<close> \<open>h\<close> gets the number \<open>u\<close>; thread \<open>t\<close> drops the \<open>Sender\<close> \<open>h\<close>, starts a \<open>send_sync\<close> through
  it, or takes its next step; a task \<open>w\<close> starts a \<open>recv\<close>; the executor polls the pending future again, which it does
  after the task's waker has been called; the receiver takes its next step.
\<close>

datatype ('i, 'p) plabel =
    LClone nat nat
  | LDrop nat nat
  | LSend nat nat 'i 'p
  | LTx nat
  | LRecv nat
  | LPoll
  | LRx

definition tx_free :: "('i, 'p) txpc \<Rightarrow> bool" where
  "tx_free pc \<longleftrightarrow> (case pc of TxIdle \<Rightarrow> True | TxDone _ \<Rightarrow> True | _ \<Rightarrow> False)"

fun sending :: "('i, 'p) txpc \<Rightarrow> bool" where
  "sending (TxFlag _ _) = True"
| "sending (TxCheck _ _) = True"
| "sending (TxFast _ _) = True"
| "sending (TxSlow _ _) = True"
| "sending (TxWake _) = True"
| "sending _ = False"

text \<open>A call that is over gives its \<open>Sender\<close> back.\<close>

definition give_back :: "nat \<Rightarrow> ('i, 'p) txpc \<Rightarrow> (nat \<times> nat) list \<Rightarrow> (nat \<times> nat) list" where
  "give_back t pc ls = (if sending pc then ls else filter (\<lambda>l. fst l \<noteq> t) ls)"

definition rx_free :: "('i, 'p) rxpc \<Rightarrow> bool" where
  "rx_free pc \<longleftrightarrow> (case pc of RxIdle \<Rightarrow> True | RxReady _ \<Rightarrow> True | _ \<Rightarrow> False)"

fun psys_next :: "('q, 'i) segq \<Rightarrow> ('i, 'p::linorder, 'q) psys \<Rightarrow> ('i, 'p) plabel \<Rightarrow>
    ('i, 'p, 'q) psys option" where
  "psys_next Q s (LClone h u) =
     (if owns s h \<and> \<not> owns s u
      then Some (s\<lparr>owns := (owns s)(u := True), strong := Suc (strong s)\<rparr>) else None)"
| "psys_next Q s (LDrop t h) =
     (if owns s h \<and> list_all (\<lambda>l. snd l \<noteq> h) (loans s) \<and> tx_free (tx s t)
      then Some (s\<lparr>owns := (owns s)(h := False), strong := strong s - 1,
        tx := (tx s)(t := if strong s = 1 then TxClose else TxIdle)\<rparr>) else None)"
| "psys_next Q s (LSend t h i p) =
     (if owns s h \<and> tx_free (tx s t)
      then Some (s\<lparr>tx := (tx s)(t := TxFlag i p), loans := (t, h) # loans s\<rparr>) else None)"
| "psys_next Q s (LTx t) =
     (case tx_step Q (tx s t) (chan s) of
        None \<Rightarrow> None
      | Some (pc, c, ws) \<Rightarrow> Some (s\<lparr>chan := c, tx := (tx s)(t := pc), loans := give_back t pc (loans s),
          notified := (notified s \<or> task s \<in> set ws)\<rparr>))"
| "psys_next Q s (LRecv w) =
     (if rx_free (rx s) then Some (s\<lparr>rx := RxLock False, task := w, notified := False\<rparr>) else None)"
| "psys_next Q s LPoll =
     (if rx s = RxPending \<and> notified s then Some (s\<lparr>rx := RxLock False, notified := False\<rparr>) else None)"
| "psys_next Q s LRx =
     (case rx_step Q (task s) (rx s) (chan s) of
        None \<Rightarrow> None
      | Some (pc, c, ws) \<Rightarrow> Some (s\<lparr>chan := c, rx := pc,
          notified := (notified s \<or> task s \<in> set ws)\<rparr>))"

section \<open>Structure: waker protocol, map, handles\<close>

text \<open>The threads' positions inside the waker cell's code: \<^term>\<open>None\<close> is the receiver.\<close>

fun wp_tx :: "('i, 'p) txpc \<Rightarrow> nat wpc" where
  "wp_tx (TxWake pc) = pc"
| "wp_tx _ = WIdle"

fun wp_rx :: "('i, 'p) rxpc \<Rightarrow> nat wpc" where
  "wp_rx (RxReg pc) = pc"
| "wp_rx _ = WIdle"

definition wpcs :: "('i, 'p, 'q) psys \<Rightarrow> nat option \<Rightarrow> nat wpc" where
  "wpcs s x = (case x of None \<Rightarrow> wp_rx (rx s) | Some t \<Rightarrow> wp_tx (tx s t))"

fun wake_pc :: "'w wpc \<Rightarrow> bool" where
  "wake_pc WakeOr = True"
| "wake_pc WakeTake = True"
| "wake_pc (WakeAnd _) = True"
| "wake_pc (WakeCall _) = True"
| "wake_pc _ = False"

text \<open>The receiver inside \<open>register_by_ref\<close>: its own waker is the one in its hands or in the cell.\<close>

fun reg_pc :: "'w \<Rightarrow> 'w wpc \<Rightarrow> 'w option \<Rightarrow> bool" where
  "reg_pc w (RegCas x) c = (x = w)"
| "reg_pc w (RegInto x) c = (x = w)"
| "reg_pc w (RegTakeOld x) c = (x = w)"
| "reg_pc w (RegStore x _) c = (x = w)"
| "reg_pc w (RegRelease _ mp) c = (\<not> mp \<and> c = Some w)"
| "reg_pc w (RegTake _ mp) c = (\<not> mp \<and> c = Some w)"
| "reg_pc w (RegSwap _ mp wk) c = (\<not> mp \<and> wk = Some w)"
| "reg_pc w (RegWakeOld _ wk mp) c = (\<not> mp \<and> wk = Some w)"
| "reg_pc w (RegWakeNew wk mp) c = (\<not> mp \<and> wk = Some w)"
| "reg_pc w (RegSelfWake x) c = (x = w)"
| "reg_pc w _ c = False"

definition waker_inv :: "('i, 'p, 'q) psys \<Rightarrow> bool" where
  "waker_inv s \<longleftrightarrow> aw_inv (waker (chan s)) (wpcs s) \<and>
     (\<forall>t pc. tx s t = TxWake pc \<longrightarrow> wake_pc pc) \<and>
     (\<forall>pc. rx s = RxReg pc \<longrightarrow> reg_pc (task s) pc (aw_cell (waker (chan s))))"

lemma wpcs_tx [simp]:
  "wpcs (s\<lparr>chan := c, tx := (tx s)(t := pc), loans := ls, notified := n\<rparr>) = (wpcs s)(Some t := wp_tx pc)"
  "wpcs (s\<lparr>tx := (tx s)(t := pc), loans := ls\<rparr>) = (wpcs s)(Some t := wp_tx pc)"
  "wpcs (s\<lparr>owns := ow, strong := n', tx := (tx s)(t := pc)\<rparr>) = (wpcs s)(Some t := wp_tx pc)"
  by (auto simp: wpcs_def fun_eq_iff split: option.splits)

lemma wpcs_rx [simp]:
  "wpcs (s\<lparr>chan := c, rx := r, notified := n\<rparr>) = (wpcs s)(None := wp_rx r)"
  "wpcs (s\<lparr>rx := r, task := w, notified := n\<rparr>) = (wpcs s)(None := wp_rx r)"
  "wpcs (s\<lparr>rx := r, notified := n\<rparr>) = (wpcs s)(None := wp_rx r)"
  by (auto simp: wpcs_def fun_eq_iff split: option.splits)

lemma wpcs_owns [simp]: "wpcs (s\<lparr>owns := ow, strong := n\<rparr>) = wpcs s"
  by (auto simp: wpcs_def fun_eq_iff split: option.splits)

lemma wpcs_simps [simp]: "wpcs s None = wp_rx (rx s)" "wpcs s (Some t) = wp_tx (tx s t)"
  by (simp_all add: wpcs_def)

text \<open>Starting a call, and moves outside the waker's code, keep the waker protocol.\<close>

lemma aw_inv_quiet:
  assumes "aw_inv a ps" "\<not> in_cs (ps x)" "pc = WIdle \<or> pc = WakeOr \<or> pc = RegCas w"
  shows "aw_inv a (ps(x := pc))"
  by (rule aw_inv_outside [OF assms(1,2)]) (use assms(3) in \<open>auto simp: in_cs_def\<close>)

lemma aw_inv_same: "aw_inv a ps \<Longrightarrow> ps x = pc \<Longrightarrow> aw_inv a (ps(x := pc))"
  by (simp add: fun_upd_idem)

lemma not_in_cs_WIdle [simp]: "\<not> in_cs WIdle" "\<not> in_cs WakeOr" "\<not> in_cs (RegCas w)"
  by (simp_all add: in_cs_def)

lemma tx_free_wp: "tx_free pc \<Longrightarrow> wp_tx pc = WIdle"
  by (cases pc) (auto simp: tx_free_def)

lemma rx_free_wp: "rx_free pc \<Longrightarrow> wp_rx pc = WIdle"
  by (cases pc) (auto simp: rx_free_def)

lemma wake_pc_step:
  "wake_pc pc \<Longrightarrow> aw_tstep False pc a = Some (pc', a', ws) \<Longrightarrow> pc' = WIdle \<or> pc' = WAssert \<or> wake_pc pc'"
  by (cases pc) (auto simp: fetch_or_def fetch_and_def Let_def split: if_splits option.splits)

lemma wake_pc_cell:
  "wake_pc pc \<Longrightarrow> aw_tstep False pc a = Some (pc', a', ws) \<Longrightarrow> \<not> in_cs pc \<Longrightarrow> aw_cell a' = aw_cell a"
  by (cases pc) (auto simp: fetch_or_def fetch_and_def in_cs_def Let_def split: if_splits option.splits)

lemma reg_pc_no_cell: "reg_pc w pc c \<Longrightarrow> \<not> in_cs pc \<Longrightarrow> reg_pc w pc c'"
  by (cases pc) (auto simp: in_cs_def)

end
