(* ===== verification/PriorityChanProofs.thy ===== *)
theory PriorityChanProofs imports PriorityChan begin

text \<open>
  Invariants of the priority channel: the waker protocol inside the channel, the ordered map, the
  sender handles, the conservation of values and the wake-up of the receiver; then the properties
  of the channel, with the runs that show where it loses a value, misses the last close, or reports
  the end too early.
\<close>

section \<open>The waker protocol\<close>

lemma wpcs_chan [simp]: "wpcs (s\<lparr>chan := c\<rparr>) = wpcs s"
  by (auto simp: wpcs_def fun_eq_iff split: option.splits)

lemma waker_inv_tx:
  assumes inv: "waker_inv s" and step: "tx_step Q (tx s t) (chan s) = Some (pc, c, ws)"
  shows "waker_inv (s\<lparr>chan := c, tx := (tx s)(t := pc), loans := ls, notified := n\<rparr>)"
proof (cases "\<exists>w. tx s t = TxWake w")
  case False
  then have wp: "wp_tx (tx s t) = WIdle" by (cases "tx s t") auto
  have "waker c = waker (chan s) \<and> (wp_tx pc = WIdle \<or> wp_tx pc = WakeOr) \<and> (\<forall>w. pc = TxWake w \<longrightarrow> wake_pc w)"
    using step False by (cases "tx s t") (auto simp: Let_def split: if_splits option.splits)
  moreover have "aw_inv (waker (chan s)) ((wpcs s)(Some t := wp_tx pc))"
    if "wp_tx pc = WIdle \<or> wp_tx pc = WakeOr"
    using inv that wp by (intro aw_inv_quiet) (auto simp: waker_inv_def)
  ultimately show ?thesis using inv by (auto simp: waker_inv_def)
next
  case True
  then obtain w where w: "tx s t = TxWake w" by blast
  with step obtain w' a where a: "aw_tstep False w (waker (chan s)) = Some (w', a, ws)"
    and c: "c = (chan s)\<lparr>waker := a\<rparr>" and pc: "pc = (if w' = WIdle then TxDone True else TxWake w')"
    by (auto split: option.splits)
  have wp: "wp_tx pc = w'" by (simp add: pc)
  have ai: "aw_inv (waker (chan s)) (wpcs s)" using inv by (simp add: waker_inv_def)
  have "aw_inv a ((wpcs s)(Some t := w'))"
    using aw_tstep_inv [OF ai, of False "Some t"] a w by simp
  then have ai': "aw_inv a ((wpcs s)(Some t := wp_tx pc))" by (simp add: wp)
  have wk: "wake_pc w" using inv w by (auto simp: waker_inv_def)
  have "w' \<noteq> WAssert" using aw_inv_pc [OF ai', of "Some t"] wp by auto
  then have wk': "wake_pc w'" if "w' \<noteq> WIdle" using wake_pc_step [OF wk a] that by auto
  have "reg_pc (task s) r (aw_cell a)" if r: "rx s = RxReg r" for r
  proof (cases "in_cs r")
    case True
    then have "\<not> in_cs w"
      using aw_inv_unique [OF ai, of None "Some t"] w r by auto
    with wake_pc_cell [OF wk a] inv r show ?thesis by (simp add: waker_inv_def)
  next
    case False
    with inv r show ?thesis by (auto simp: waker_inv_def intro: reg_pc_no_cell)
  qed
  with inv ai' wk' c pc w show ?thesis by (auto simp: waker_inv_def)
qed

lemma reg_pc_step:
  assumes "reg_pc w pc (aw_cell a)" "pc_ok pc a" "aw_state a \<noteq> 1 \<and> aw_state a \<noteq> 3 \<or> in_cs pc"
    and "aw_tstep False pc a = Some (pc', a', ws)"
  shows "reg_pc w pc' (aw_cell a') \<or> pc' = WAssert \<or> pc' = WIdle \<and> (w \<in> set ws \<or> aw_cell a' = Some w)"
  using assms
  by (cases pc) (auto simp: compare_exchange_def in_cs_def Let_def split: if_splits option.splits)

lemma waker_inv_rx:
  assumes inv: "waker_inv s" and step: "rx_step Q (task s) (rx s) (chan s) = Some (pc, c, ws)"
  shows "waker_inv (s\<lparr>chan := c, rx := pc, notified := n\<rparr>) \<and>
    (\<forall>w. rx s = RxReg w \<and> pc = RxLock True \<longrightarrow> task s \<in> set ws \<or> aw_cell (waker c) = Some (task s))"
proof (cases "\<exists>w. rx s = RxReg w")
  case False
  then have wp: "wp_rx (rx s) = WIdle" by (cases "rx s") auto
  have "waker c = waker (chan s) \<and> (wp_rx pc = WIdle \<or> wp_rx pc = RegCas (task s)) \<and>
    (\<forall>w. pc = RxReg w \<longrightarrow> reg_pc (task s) w (aw_cell (waker c)))"
    using step False
    by (cases "(Q, task s, rx s, chan s)" rule: rx_step.cases)
      (auto simp: Let_def split: if_splits option.splits prod.splits)
  moreover have "aw_inv (waker (chan s)) ((wpcs s)(None := wp_rx pc))"
    if "wp_rx pc = WIdle \<or> wp_rx pc = RegCas (task s)"
    using inv that wp by (intro aw_inv_quiet) (auto simp: waker_inv_def)
  ultimately show ?thesis using inv False by (auto simp: waker_inv_def)
next
  case True
  then obtain w where w: "rx s = RxReg w" by blast
  with step obtain w' a where a: "aw_tstep False w (waker (chan s)) = Some (w', a, ws)"
    and c: "c = (chan s)\<lparr>waker := a\<rparr>" and pc: "pc = (if w' = WIdle then RxLock True else RxReg w')"
    by (auto split: option.splits)
  have wp: "wp_rx pc = w'" by (simp add: pc)
  have ai: "aw_inv (waker (chan s)) (wpcs s)" using inv by (simp add: waker_inv_def)
  have "aw_inv a ((wpcs s)(None := w'))"
    using aw_tstep_inv [OF ai, of False None] a w by simp
  then have ai': "aw_inv a ((wpcs s)(None := wp_rx pc))" by (simp add: wp)
  have na: "w' \<noteq> WAssert" using aw_inv_pc [OF ai', of None] wp by auto
  have ok: "pc_ok w (waker (chan s))" using aw_inv_pc [OF ai, of None] w by simp
  have st: "aw_state (waker (chan s)) \<noteq> 1 \<and> aw_state (waker (chan s)) \<noteq> 3 \<or> in_cs w"
  proof (rule ccontr)
    assume neg: "\<not> ?thesis"
    then obtain x where x: "in_cs (wpcs s x)" using ai by (auto simp: aw_inv_def)
    with neg w obtain t where t: "x = Some t" by (cases x) auto
    with x have "\<exists>v. tx s t = TxWake v" by (cases "tx s t") auto
    with t inv have "wake_pc (wpcs s x)" by (auto simp: waker_inv_def)
    moreover have "pc_ok (wpcs s x) (waker (chan s))" using ai by (rule aw_inv_pc)
    ultimately show False using x neg by (cases "wpcs s x") (auto simp: in_cs_def)
  qed
  have "reg_pc (task s) w (aw_cell (waker (chan s)))" using inv w by (simp add: waker_inv_def)
  from reg_pc_step [OF this ok st a] na
  have "reg_pc (task s) w' (aw_cell a) \<or> w' = WIdle \<and> (task s \<in> set ws \<or> aw_cell a = Some (task s))" by blast
  with inv ai' c pc w show ?thesis by (auto simp: waker_inv_def)
qed

lemma waker_inv_next:
  assumes "waker_inv s" "psys_next Q s l = Some s'"
  shows "waker_inv s'"
proof (cases l)
  case (LTx t)
  with assms waker_inv_tx show ?thesis by (auto split: option.splits)
next
  case LRx
  with assms waker_inv_rx [THEN conjunct1] show ?thesis by (auto split: option.splits)
next
  case (LDrop t h)
  with assms show ?thesis
    by (auto simp: waker_inv_def tx_free_wp aw_inv_same split: if_splits)
next
  case (LSend t h i p)
  with assms show ?thesis
    by (auto simp: waker_inv_def tx_free_wp aw_inv_same split: if_splits)
next
  case (LRecv w)
  with assms show ?thesis
    by (auto simp: waker_inv_def rx_free_wp aw_inv_same split: if_splits)
next
  case LPoll
  with assms show ?thesis
    by (auto simp: waker_inv_def aw_inv_same split: if_splits)
qed (use assms in \<open>auto simp: waker_inv_def split: if_splits\<close>)

section \<open>The map and the handles\<close>

definition map_inv :: "('i, 'p::linorder, 'q) psys \<Rightarrow> bool" where
  "map_inv s \<longleftrightarrow> bt_ok (queue (chan s)) \<and>
     (\<forall>t i p. tx s t = TxFast i p \<longrightarrow> bt_contains_key (queue (chan s)) p) \<and>
     (\<forall>t. tx s t \<noteq> TxPanic)"

lemma tx_step_map:
  assumes "bt_ok (queue c)" "\<forall>i p. pc = TxFast i p \<longrightarrow> bt_contains_key (queue c) p"
    and "tx_step Q pc c = Some (pc', c', ws)"
  shows "bt_ok (queue c') \<and> (\<forall>i p. pc' = TxFast i p \<longrightarrow> bt_contains_key (queue c') p) \<and> pc' \<noteq> TxPanic \<and>
    (\<forall>p. bt_contains_key (queue c) p \<longrightarrow> bt_contains_key (queue c') p)"
  using assms
  by (cases pc) (auto simp: Let_def bt_contains_key_def split: if_splits option.splits)

lemma rx_step_map:
  assumes "rx_step Q w pc c = Some (pc', c', ws)"
  shows "map fst (queue c') = map fst (queue c)"
  using assms
  by (cases "(Q, w, pc, c)" rule: rx_step.cases) (auto split: if_splits option.splits prod.splits)

lemma bt_ok_keys: "map fst m = map fst m' \<Longrightarrow> bt_ok m \<longleftrightarrow> bt_ok m'"
  by (simp add: bt_ok_def)

lemma bt_contains_keys: "map fst m = map fst m' \<Longrightarrow> bt_contains_key m k \<longleftrightarrow> bt_contains_key m' k"
  by (metis bt_contains_key_iff list.set_map)

lemma map_inv_next:
  assumes inv: "map_inv s" and step: "psys_next Q s l = Some s'"
  shows "map_inv s'"
proof (cases l)
  case (LTx t)
  with step obtain pc c ws where ts: "tx_step Q (tx s t) (chan s) = Some (pc, c, ws)"
    and s': "s' = s\<lparr>chan := c, tx := (tx s)(t := pc), loans := give_back t pc (loans s), notified := (notified s \<or> task s \<in> set ws)\<rparr>"
    by (auto split: option.splits)
  have "bt_ok (queue (chan s))" "\<forall>i p. tx s t = TxFast i p \<longrightarrow> bt_contains_key (queue (chan s)) p"
    using inv by (auto simp: map_inv_def)
  from tx_step_map [OF this ts] inv s' show ?thesis by (auto simp: map_inv_def)
next
  case LRx
  with step obtain pc c ws where rs: "rx_step Q (task s) (rx s) (chan s) = Some (pc, c, ws)"
    and s': "s' = s\<lparr>chan := c, rx := pc, notified := (notified s \<or> task s \<in> set ws)\<rparr>"
    by (auto split: option.splits)
  note k = rx_step_map [OF rs]
  from inv s' bt_ok_keys [OF k] bt_contains_keys [OF k] show ?thesis by (auto simp: map_inv_def)
qed (use inv step in \<open>auto simp: map_inv_def split: if_splits\<close>)

definition handle_inv :: "('i, 'p, 'q) psys \<Rightarrow> bool" where
  "handle_inv s \<longleftrightarrow> finite {t. owns s t} \<and> strong s = card {t. owns s t} \<and>
     (end_flag (chan s) \<longrightarrow> strong s = 0) \<and>
     (\<forall>t. tx s t = TxClose \<longrightarrow> strong s = 0) \<and>
     (\<forall>t. sending (tx s t) \<longrightarrow> t \<in> fst ` set (loans s)) \<and> (\<forall>t h. (t, h) \<in> set (loans s) \<longrightarrow> owns s h) \<and>
     (\<forall>t. tx s t \<noteq> TxDone False)"

lemma handle_inv_strong: "handle_inv s \<Longrightarrow> owns s h \<Longrightarrow> 0 < strong s"
  by (auto simp: handle_inv_def card_gt_0_iff)

lemma handle_inv_sending:
  assumes "handle_inv s" "sending (tx s t)"
  shows "0 < strong s"
proof -
  obtain l where "l \<in> set (loans s)" using assms unfolding handle_inv_def by blast
  then have "owns s (snd l)" using assms(1) unfolding handle_inv_def by (metis prod.collapse)
  then show ?thesis by (rule handle_inv_strong [OF assms(1)])
qed

lemma give_back_simps:
  "l \<in> set (give_back t pc ls) \<Longrightarrow> l \<in> set ls"
  "u \<noteq> t \<or> sending pc \<Longrightarrow> u \<in> fst ` set (give_back t pc ls) \<longleftrightarrow> u \<in> fst ` set ls"
  by (auto simp: give_back_def split: if_splits)

lemma tx_step_handle:
  assumes "tx_step Q pc c = Some (pc', c', ws)"
  shows "(sending pc' \<longrightarrow> sending pc) \<and> pc' \<noteq> TxClose \<and>
    (end_flag c' \<longrightarrow> end_flag c \<or> pc = TxClose) \<and> (pc' = TxDone False \<longrightarrow> sending pc \<and> end_flag c)"
  using assms by (cases pc) (auto simp: Let_def split: if_splits option.splits)

lemma rx_step_flag: "rx_step Q w pc c = Some (pc', c', ws) \<Longrightarrow> end_flag c' = end_flag c"
  by (cases "(Q, w, pc, c)" rule: rx_step.cases) (auto split: if_splits option.splits prod.splits)

lemma not_sending_free: "tx_free pc \<Longrightarrow> \<not> sending pc \<and> pc \<noteq> TxClose"
  by (cases pc) (auto simp: tx_free_def)

lemma handle_inv_next:
  assumes inv: "handle_inv s" and step: "psys_next Q s l = Some s'"
  shows "handle_inv s'"
proof (cases l)
  case (LTx t)
  with step obtain pc c ws where ts: "tx_step Q (tx s t) (chan s) = Some (pc, c, ws)"
    and s': "s' = s\<lparr>chan := c, tx := (tx s)(t := pc), loans := give_back t pc (loans s), notified := (notified s \<or> task s \<in> set ws)\<rparr>"
    by (auto split: option.splits)
  have "\<not> (sending (tx s t) \<and> end_flag (chan s))"
    using inv handle_inv_sending [OF inv, of t] by (auto simp: handle_inv_def)
  with tx_step_handle [OF ts] inv s' show ?thesis
    by (auto simp: handle_inv_def give_back_simps(2) dest: give_back_simps(1))
next
  case LRx
  with step rx_step_flag inv show ?thesis
    by (fastforce simp: handle_inv_def split: option.splits)
next
  case (LClone h u)
  with step have own: "owns s h" "\<not> owns s u" and s': "s' = s\<lparr>owns := (owns s)(u := True), strong := Suc (strong s)\<rparr>"
    by (auto split: if_splits)
  have set: "{v. ((owns s)(u := True)) v} = insert u {v. owns s v}" by auto
  have "0 < strong s" using handle_inv_strong [OF inv own(1)] .
  with inv own s' set show ?thesis by (auto simp: handle_inv_def simp del: fun_upd_apply)
next
  case (LDrop t h)
  with step have own: "owns s h" "tx_free (tx s t)" and lent: "\<forall>l \<in> set (loans s). snd l \<noteq> h"
    and s': "s' = s\<lparr>owns := (owns s)(h := False), strong := strong s - 1,
        tx := (tx s)(t := if strong s = 1 then TxClose else TxIdle)\<rparr>"
    by (auto simp: list_all_iff split: if_splits)
  have set: "{v. ((owns s)(h := False)) v} = {v. owns s v} - {h}" by auto
  have "0 < strong s" using handle_inv_strong [OF inv own(1)] .
  then have fl: "\<not> end_flag (chan s)" "\<forall>v. tx s v \<noteq> TxClose" using inv by (auto simp: handle_inv_def)
  have "finite {v. ((owns s)(h := False)) v}" "strong s - 1 = card {v. ((owns s)(h := False)) v}"
    unfolding set using inv own by (auto simp: handle_inv_def)
  with inv own s' fl lent not_sending_free [OF own(2)] show ?thesis
    by (auto simp: handle_inv_def split: if_splits simp del: fun_upd_apply)
      (auto simp: fun_upd_apply split: if_splits)
next
  case (LSend t h i p)
  with step have own: "owns s h" "tx_free (tx s t)" and s': "s' = s\<lparr>tx := (tx s)(t := TxFlag i p), loans := (t, h) # loans s\<rparr>"
    by (auto split: if_splits)
  with inv show ?thesis by (auto simp: handle_inv_def split: if_splits)
qed (use inv step in \<open>auto simp: handle_inv_def split: if_splits\<close>)

section \<open>Conservation of values\<close>

definition cons_inv :: "('q \<Rightarrow> 'i list) \<Rightarrow> ('i, 'p, 'q) pchan \<Rightarrow> bool" where
  "cons_inv cs c \<longleftrightarrow>
     mset (pushed c) = mset (popped c) + mset (bt_items cs (queue c)) + mset (bt_items cs (overwritten c))"

lemma mset_bt_update:
  assumes "bt_ok m" "bt_get m p = Some q"
  shows "mset (bt_items cs (bt_update p f m)) + mset (map (Pair p) (cs q)) =
    mset (bt_items cs m) + mset (map (Pair p) (cs (f q)))"
  using bt_update_split [OF assms, of f] by auto

context seg_queue
begin

lemma tx_step_cons:
  assumes ok: "bt_ok (queue c)" and inv: "cons_inv contents c"
    and step: "tx_step Q pc c = Some (pc', c', ws)"
  shows "cons_inv contents c'"
proof (cases pc)
  case (TxFast i p)
  show ?thesis
  proof (cases "bt_get (queue c) p")
    case None
    with TxFast step inv show ?thesis by (auto simp: cons_inv_def)
  next
    case (Some q)
    from mset_bt_update [OF ok Some, of contents "\<lambda>q. sq_push Q q i"] Some TxFast step inv
    show ?thesis by (auto simp: cons_inv_def contents_push)
  qed
next
  case (TxSlow i p)
  let ?m = "bt_insert p (sq_new Q) (queue c)"
  have m: "bt_ok ?m" "bt_get ?m p = Some (sq_new Q)" using ok by simp_all
  note upd = mset_bt_update [OF m, of contents "\<lambda>q. sq_push Q q i"]
  show ?thesis
  proof (cases "bt_get (queue c) p")
    case None
    then have "p \<notin> fst ` set (queue c)" by (simp add: map_of_eq_None_iff)
    from bt_items_insert_new [OF ok this] None upd TxSlow step inv show ?thesis
      by (auto simp: cons_inv_def contents_push contents_new Let_def m split: if_splits)
  next
    case (Some q)
    from mset_bt_update [OF ok Some, of contents "\<lambda>_. sq_new Q"]
    have "mset (bt_items contents ?m) + mset (map (Pair p) (contents q)) = mset (bt_items contents (queue c))"
      by (simp add: bt_insert_over [OF ok Some] contents_new)
    with Some upd TxSlow step inv show ?thesis
      by (auto simp: cons_inv_def contents_push contents_new Let_def m split: if_splits)
  qed
qed (use step inv in \<open>auto simp: cons_inv_def split: if_splits option.splits\<close>)

lemma rx_step_cons:
  assumes ok: "bt_ok (queue c)" and inv: "cons_inv contents c"
    and step: "rx_step Q w pc c = Some (pc', c', ws)"
  shows "cons_inv contents c'"
proof (cases "\<exists>b p ps q. pc = RxPop b (p # ps) \<and> bt_get (queue c) p = Some q")
  case True
  then obtain b p ps q where pc: "pc = RxPop b (p # ps)" and q: "bt_get (queue c) p = Some q" by blast
  obtain r q' where pop: "sq_pop Q q = (r, q')" by force
  note upd = mset_bt_update [OF ok q, of contents "\<lambda>_. q'"]
  show ?thesis
  proof (cases r)
    case None
    with pop have "contents q = []" "contents q' = []" by (auto dest: pop_NoneD)
    with upd pc q pop None step inv show ?thesis by (auto simp: cons_inv_def)
  next
    case (Some i)
    with pop have "contents q = i # contents q'" by (auto dest: pop_SomeD)
    with upd pc q pop Some step inv show ?thesis by (auto simp: cons_inv_def)
  qed
next
  case False
  with step inv show ?thesis
    by (cases "(Q, w, pc, c)" rule: rx_step.cases) (auto simp: cons_inv_def split: if_splits option.splits)
qed

lemma cons_inv_next:
  assumes inv: "map_inv s" "cons_inv contents (chan s)" and step: "psys_next Q s l = Some s'"
  shows "cons_inv contents (chan s')"
proof -
  have ok: "bt_ok (queue (chan s))" using inv by (simp add: map_inv_def)
  show ?thesis
    using inv(2) step by (cases l) (auto split: if_splits option.splits dest: tx_step_cons [OF ok] rx_step_cons [OF ok])
qed

end

section \<open>The wake-up of the receiver\<close>

text \<open>
  From the end of \<open>register_by_ref\<close> on, the receiver relies on its waker.  \<open>armed\<close>: it has been
  called, or some sender is certain to call it.  \<open>unvisited\<close>: the queues the second \<open>pop\<close> will still
  look at.  The invariant: armed, or the waker is in the cell, and a value in a queue that will not
  be looked at any more implies that some sender is about to execute the \<open>fetch_or\<close> of \<open>wake\<close>.
\<close>

fun second_phase :: "('i, 'p) rxpc \<Rightarrow> bool" where
  "second_phase (RxLock b) = b"
| "second_phase (RxPop b _) = b"
| "second_phase (RxEnd b) = b"
| "second_phase RxPending = True"
| "second_phase _ = False"

fun unvisited :: "('i, 'p) rxpc \<Rightarrow> ('p, 'q) btree \<Rightarrow> 'p set" where
  "unvisited (RxLock _) m = fst ` set m"
| "unvisited (RxPop _ ps) m = set ps"
| "unvisited _ m = {}"

definition quiet :: "('q \<Rightarrow> 'i list) \<Rightarrow> ('i, 'p, 'q) psys \<Rightarrow> bool" where
  "quiet cs s \<longleftrightarrow> (\<forall>p q. (p, q) \<in> set (queue (chan s)) \<and> cs q \<noteq> [] \<longrightarrow> p \<in> unvisited (rx s) (queue (chan s)))"

lemma quiet_cong:
  "queue (chan s') = queue (chan s) \<Longrightarrow> rx s' = rx s \<Longrightarrow> quiet cs s' = quiet cs s"
  by (simp add: quiet_def)

definition armed :: "('i, 'p, 'q) psys \<Rightarrow> bool" where
  "armed s \<longleftrightarrow> notified s \<or> (\<exists>t. carries (task s) (wp_tx (tx s t)) (waker (chan s)))"

definition wakeup_inv :: "('q \<Rightarrow> 'i list) \<Rightarrow> ('i, 'p, 'q) psys \<Rightarrow> bool" where
  "wakeup_inv cs s \<longleftrightarrow> (second_phase (rx s) \<longrightarrow>
     armed s \<or> aw_cell (waker (chan s)) = Some (task s) \<and> (quiet cs s \<or> (\<exists>t. tx s t = TxWake WakeOr)))"

text \<open>A \<open>fetch_or\<close> of \<open>wake\<close> that finds the receiver's waker in the cell arms it.\<close>

lemma wake_or_arms:
  assumes inv: "waker_inv s" and rx: "second_phase (rx s)" and c: "aw_cell (waker (chan s)) = Some (task s)"
    and tx: "tx s t = TxWake WakeOr" and step: "psys_next Q s (LTx t) = Some s'"
  shows "armed s'"
proof -
  let ?a = "waker (chan s)"
  have ai: "aw_inv ?a (wpcs s)" using inv by (simp add: waker_inv_def)
  have rw: "wpcs s None = WIdle" using rx by (cases "rx s") auto
  show ?thesis
  proof (cases "aw_state ?a = WAITING")
    case True
    with tx step c show ?thesis by (auto simp: armed_def fetch_or_def Let_def intro!: exI [of _ t])
  next
    case False
    then obtain x where x: "in_cs (wpcs s x)" using ai by (auto simp: aw_inv_def)
    with rw obtain v where v: "x = Some v" by (cases x) auto
    have ok: "pc_ok (wpcs s x) ?a" using ai by (rule aw_inv_pc)
    from x v have "\<exists>w. tx s v = TxWake w" by (cases "tx s v") auto
    with v inv have "wake_pc (wpcs s x)" by (auto simp: waker_inv_def)
    with x ok c have tk: "tx s v = TxWake WakeTake" using v
      by (cases "wpcs s x"; cases "tx s v") (auto simp: in_cs_def)
    with tx have "v \<noteq> t" by auto
    with tk tx step c False show ?thesis
      by (auto simp: armed_def fetch_or_def Let_def split: if_splits intro!: exI [of _ v])
  qed
qed

lemma armed_tx:
  assumes inv: "waker_inv s" and arm: "armed s" and step: "psys_next Q s (LTx t) = Some s'"
  shows "armed s'"
proof -
  from step obtain pc c ws where ts: "tx_step Q (tx s t) (chan s) = Some (pc, c, ws)"
    and s': "s' = s\<lparr>chan := c, tx := (tx s)(t := pc), loans := give_back t pc (loans s), notified := (notified s \<or> task s \<in> set ws)\<rparr>"
    by (auto split: option.splits)
  have ai: "aw_inv (waker (chan s)) (wpcs s)" using inv by (simp add: waker_inv_def)
  from arm consider "notified s" | v where "carries (task s) (wpcs s (Some v)) (waker (chan s))"
    by (auto simp: armed_def)
  then show ?thesis
  proof cases
    case 1
    with s' show ?thesis by (simp add: armed_def)
  next
    case (2 v)
    show ?thesis
    proof (cases "\<exists>w. tx s t = TxWake w")
      case False
      with ts have "waker c = waker (chan s)"
        by (cases "tx s t") (auto simp: Let_def split: if_splits option.splits)
      moreover have "v \<noteq> t" using 2 False by (cases "tx s t") auto
      ultimately show ?thesis using 2 s' by (auto simp: armed_def intro!: exI [of _ v])
    next
      case True
      then obtain w where w: "tx s t = TxWake w" by blast
      with ts obtain w' a where a: "aw_tstep False w (waker (chan s)) = Some (w', a, ws)"
        and c: "c = (chan s)\<lparr>waker := a\<rparr>" and pc: "pc = (if w' = WIdle then TxDone True else TxWake w')"
        by (auto split: option.splits)
      show ?thesis
      proof (cases "v = t")
        case True
        with 2 w a carries_own_step [of "task s" w] aw_inv_pc [OF ai, of "Some t"]
        have "task s \<in> set ws \<or> carries (task s) w' a" by auto
        with c pc s' show ?thesis by (auto simp: armed_def intro: exI [of _ t])
      next
        case False
        have "carries (task s) (wpcs s (Some v)) a"
          by (rule carries_other_step [OF ai 2, of "Some t" False]) (use False w a in auto)
        with False c s' show ?thesis by (auto simp: armed_def intro!: exI [of _ v])
      qed
    qed
  qed
qed

text \<open>What a sender's step does to the cell and to the queues when it is not inside the waker's code.\<close>

lemma tx_step_outside:
  assumes "tx_step Q pc c = Some (pc', c', ws)" "\<forall>w. pc \<noteq> TxWake w"
  shows "waker c' = waker c \<and> (pc' = TxWake WakeOr \<or> pc' = TxPanic \<or> queue c' = queue c)"
  using assms by (cases pc) (auto simp: Let_def split: if_splits option.splits)

lemma wakeup_inv_tx:
  assumes inv: "waker_inv s" "map_inv s" and wk: "wakeup_inv cs s"
    and step: "psys_next Q s (LTx t) = Some s'"
  shows "wakeup_inv cs s'"
proof -
  from step obtain pc c ws where ts: "tx_step Q (tx s t) (chan s) = Some (pc, c, ws)"
    and s': "s' = s\<lparr>chan := c, tx := (tx s)(t := pc), loans := give_back t pc (loans s), notified := (notified s \<or> task s \<in> set ws)\<rparr>"
    by (auto split: option.splits)
  show ?thesis
  proof (cases "second_phase (rx s) \<and> \<not> armed s'")
    case False
    with s' show ?thesis by (auto simp: wakeup_inv_def)
  next
    case True
    then have "\<not> armed s" using armed_tx [OF inv(1) _ step] by blast
    with wk True have cell: "aw_cell (waker (chan s)) = Some (task s)"
      and q: "quiet cs s \<or> (\<exists>t. tx s t = TxWake WakeOr)"
      by (auto simp: wakeup_inv_def)
    have nt: "tx s t \<noteq> TxWake WakeOr" using wake_or_arms [OF inv(1) _ cell _ step] True by blast
    show ?thesis
    proof (cases "\<exists>w. tx s t = TxWake w")
      case False
      from tx_step_outside [OF ts] False have w: "waker c = waker (chan s)" and
        p: "pc = TxWake WakeOr \<or> pc = TxPanic \<or> queue c = queue (chan s)" by auto
      have "tx s' t \<noteq> TxPanic" using map_inv_next [OF inv(2) step] unfolding map_inv_def by blast
      then have "pc \<noteq> TxPanic" using s' by simp
      with p q have "quiet cs s' \<or> (\<exists>t. tx s' t = TxWake WakeOr)"
        using nt s' quiet_cong [of s' s cs] by auto
      with cell w s' show ?thesis by (simp add: wakeup_inv_def)
    next
      case True': True
      then obtain w where w: "tx s t = TxWake w" by blast
      with ts obtain w' a where a: "aw_tstep False w (waker (chan s)) = Some (w', a, ws)"
        and c: "c = (chan s)\<lparr>waker := a\<rparr>"
        by (auto split: option.splits)
      have wp: "wake_pc w" using inv(1) w by (auto simp: waker_inv_def)
      have "w \<noteq> WakeTake"
      proof
        assume "w = WakeTake"
        with w cell have "carries (task s) (wp_tx (tx s t)) (waker (chan s))" by simp
        with \<open>\<not> armed s\<close> show False by (auto simp: armed_def)
      qed
      with wp a have "aw_cell a = aw_cell (waker (chan s))" using nt w
        by (cases w) (auto split: option.splits)
      moreover have "quiet cs s' \<or> (\<exists>t. tx s' t = TxWake WakeOr)"
        using q nt s' c quiet_cong [of s' s cs] by auto
      ultimately show ?thesis using cell c s' by (simp add: wakeup_inv_def)
    qed
  qed
qed

context seg_queue
begin

lemma wakeup_inv_rx:
  assumes inv: "waker_inv s" "map_inv s" and wk: "wakeup_inv contents s"
    and step: "psys_next Q s LRx = Some s'"
  shows "wakeup_inv contents s'"
proof -
  from step obtain pc c ws where rs: "rx_step Q (task s) (rx s) (chan s) = Some (pc, c, ws)"
    and s': "s' = s\<lparr>chan := c, rx := pc, notified := (notified s \<or> task s \<in> set ws)\<rparr>"
    by (auto split: option.splits)
  show ?thesis
  proof (cases "rx s")
    case (RxReg w)
    have "pc = RxLock True \<or> \<not> second_phase pc" using rs RxReg by (auto split: option.splits if_splits)
    with waker_inv_rx [OF inv(1) rs] RxReg s' show ?thesis
      by (auto simp: wakeup_inv_def armed_def quiet_def rev_image_eqI)
  next
    case (RxPop b ps)
    show ?thesis
    proof (cases ps)
      case Nil
      with wk RxPop rs s' show ?thesis by (auto simp: wakeup_inv_def armed_def quiet_def)
    next
      case (Cons p ps')
      show ?thesis
      proof (cases "bt_get (queue (chan s)) p")
        case None
        then have "p \<notin> fst ` set (queue (chan s))" by (simp add: map_of_eq_None_iff)
        with wk RxPop Cons None rs s' show ?thesis
          by (auto simp: wakeup_inv_def armed_def quiet_def rev_image_eqI)
      next
        case (Some q)
        obtain r q' where pop: "sq_pop Q q = (r, q')" by force
        show ?thesis
        proof (cases r)
          case None
          with pop have e: "contents q = []" "contents q' = []" by (auto dest: pop_NoneD)
          from RxPop Cons Some pop None rs have pc: "pc = RxPop b ps'" "ws = []"
            and c: "c = (chan s)\<lparr>queue := bt_update p (\<lambda>_. q') (queue (chan s))\<rparr>" by auto
          have "quiet contents s'" if "quiet contents s"
            unfolding quiet_def
          proof (intro allI impI)
            fix a x assume ax: "(a, x) \<in> set (queue (chan s')) \<and> contents x \<noteq> []"
            with e s' c have "a \<noteq> p" "(a, x) \<in> set (queue (chan s))"
              by (auto simp: bt_update_def split: if_splits)
            with that ax RxPop Cons have "a \<in> set ps'" by (auto simp: quiet_def)
            with s' pc show "a \<in> unvisited (rx s') (queue (chan s'))" by simp
          qed
          with wk RxPop s' pc c show ?thesis
            by (auto simp: wakeup_inv_def armed_def)
        next
          case (Some i)
          with RxPop Cons \<open>bt_get (queue (chan s)) p = Some q\<close> pop rs s' show ?thesis
            by (auto simp: wakeup_inv_def)
        qed
      qed
    qed
  next
    case (RxLock b)
    with rs have pc: "pc = RxPop b (map fst (queue (chan s)))" "ws = []" and c: "waker c = waker (chan s)" "queue c = queue (chan s)"
      by auto
    have "quiet contents s'" using s' pc c by (auto simp: quiet_def rev_image_eqI)
    with wk RxLock s' pc c show ?thesis by (auto simp: wakeup_inv_def armed_def)
  next
    case (RxEnd b)
    show ?thesis
    proof (cases "pc = RxPending")
      case True
      with RxEnd rs have b: b and c: "c = chan s" "ws = []" by (auto split: if_splits)
      have "quiet contents s \<Longrightarrow> quiet contents s'" using s' c RxEnd by (auto simp: quiet_def)
      with wk RxEnd b True c s' show ?thesis by (auto simp: wakeup_inv_def armed_def)
    next
      case False
      with RxEnd rs s' show ?thesis by (auto simp: wakeup_inv_def split: if_splits)
    qed
  qed (use rs in auto)
qed

lemma free_not_waking:
  assumes "tx_free (tx s t)"
  shows "\<not> carries w (wp_tx (tx s t)) a" "tx s t \<noteq> TxWake WakeOr"
  using tx_free_wp [OF assms] assms by (auto simp: tx_free_def)

lemma wakeup_inv_start:
  assumes wk: "wakeup_inv cs s" and f: "tx_free (tx s t)"
    and s': "tx s' = (tx s)(t := pc)" "chan s' = chan s" "rx s' = rx s" "task s' = task s" "notified s' = notified s"
  shows "wakeup_inv cs s'"
proof -
  have "tx s' v = tx s v" if "carries (task s) (wp_tx (tx s v)) (waker (chan s)) \<or> tx s v = TxWake WakeOr" for v
    using that free_not_waking [OF f] s' by auto
  then have "armed s \<Longrightarrow> armed s'" "\<exists>v. tx s v = TxWake WakeOr \<Longrightarrow> \<exists>v. tx s' v = TxWake WakeOr"
    unfolding armed_def s' by metis+
  moreover have "quiet cs s' = quiet cs s" by (rule quiet_cong) (simp_all add: s')
  ultimately show ?thesis using wk unfolding wakeup_inv_def s'(2-4) by blast
qed

lemma wakeup_inv_next:
  assumes inv: "waker_inv s" "map_inv s" and wk: "wakeup_inv contents s"
    and step: "psys_next Q s l = Some s'"
  shows "wakeup_inv contents s'"
proof (cases l)
  case (LTx t)
  with assms show ?thesis by (blast intro: wakeup_inv_tx)
next
  case LRx
  with assms show ?thesis by (blast intro: wakeup_inv_rx)
next
  case (LDrop t h)
  with step show ?thesis by (auto intro: wakeup_inv_start [OF wk] split: if_splits)
next
  case (LSend t h i p)
  with step show ?thesis by (auto intro: wakeup_inv_start [OF wk] split: if_splits)
next
  case (LRecv w)
  with step show ?thesis by (auto simp: wakeup_inv_def split: if_splits)
next
  case LPoll
  with step show ?thesis by (auto simp: wakeup_inv_def split: if_splits)
next
  case (LClone h u)
  with step have s': "s' = s\<lparr>owns := (owns s)(u := True), strong := Suc (strong s)\<rparr>" by (auto split: if_splits)
  have "quiet contents s' = quiet contents s" by (rule quiet_cong) (simp_all add: s')
  with wk show ?thesis by (simp add: s' wakeup_inv_def armed_def)
qed

end

section \<open>Order of the values of one priority\<close>

definition of_prio :: "'p \<Rightarrow> ('p \<times> 'i) list \<Rightarrow> 'i list" where
  "of_prio p xs = map snd (filter (\<lambda>x. fst x = p) xs)"

lemma of_prio_simps [simp]:
  "of_prio p [] = []"
  "of_prio p (xs @ ys) = of_prio p xs @ of_prio p ys"
  "of_prio p [(p', i)] = (if p' = p then [i] else [])"
  by (simp_all add: of_prio_def)

definition queued :: "('q \<Rightarrow> 'i list) \<Rightarrow> ('p::linorder, 'q) btree \<Rightarrow> 'p \<Rightarrow> 'i list" where
  "queued cs m p = (case bt_get m p of None \<Rightarrow> [] | Some q \<Rightarrow> cs q)"

lemma queued_cases:
  "bt_get m p = Some q \<Longrightarrow> queued cs m p = cs q"
  "bt_get m p = None \<Longrightarrow> queued cs m p = []"
  by (simp_all add: queued_def)

lemma queued_update [simp]:
  "queued cs (bt_update p f m) p' =
    (if p' = p then (case bt_get m p of None \<Rightarrow> [] | Some q \<Rightarrow> cs (f q)) else queued cs m p')"
  by (auto simp: queued_def split: option.splits)

lemma queued_insert [simp]:
  "bt_ok m \<Longrightarrow> queued cs (bt_insert p q m) p' = (if p' = p then cs q else queued cs m p')"
  by (auto simp: queued_def)

definition fifo_inv :: "('q \<Rightarrow> 'i list) \<Rightarrow> ('i, 'p::linorder, 'q) pchan \<Rightarrow> bool" where
  "fifo_inv cs c \<longleftrightarrow> overwritten c = [] \<longrightarrow>
     (\<forall>p. of_prio p (pushed c) = of_prio p (popped c) @ queued cs (queue c) p)"

context seg_queue
begin

lemma tx_step_fifo:
  assumes ok: "bt_ok (queue c)" and inv: "fifo_inv contents c"
    and step: "tx_step Q pc c = Some (pc', c', ws)"
  shows "fifo_inv contents c'"
proof (cases pc)
  case (TxFast i p)
  with step inv show ?thesis
    by (auto simp: fifo_inv_def queued_cases contents_push split: option.splits)
next
  case (TxSlow i p)
  with step inv ok show ?thesis
    by (auto simp: fifo_inv_def queued_cases contents_push contents_new Let_def
        split: option.splits if_splits)
qed (use step inv in \<open>auto simp: fifo_inv_def split: if_splits option.splits\<close>)

lemma rx_step_fifo:
  assumes ok: "bt_ok (queue c)" and inv: "fifo_inv contents c"
    and step: "rx_step Q w pc c = Some (pc', c', ws)"
  shows "fifo_inv contents c'"
proof (cases "\<exists>b p ps q. pc = RxPop b (p # ps) \<and> bt_get (queue c) p = Some q")
  case True
  then obtain b p ps q where pc: "pc = RxPop b (p # ps)" and q: "bt_get (queue c) p = Some q" by blast
  obtain r q' where pop: "sq_pop Q q = (r, q')" by force
  show ?thesis
  proof (cases r)
    case None
    with pop have "contents q = []" "contents q' = []" by (auto dest: pop_NoneD)
    with pc q pop None step inv show ?thesis by (auto simp: fifo_inv_def queued_cases)
  next
    case (Some i)
    with pop have "contents q = i # contents q'" by (auto dest: pop_SomeD)
    with pc q pop Some step inv show ?thesis
      by (auto simp: fifo_inv_def queued_cases)
  qed
next
  case False
  with step inv show ?thesis
    by (cases "(Q, w, pc, c)" rule: rx_step.cases) (auto simp: fifo_inv_def split: if_splits option.splits)
qed

lemma fifo_inv_next:
  assumes inv: "map_inv s" "fifo_inv contents (chan s)" and step: "psys_next Q s l = Some s'"
  shows "fifo_inv contents (chan s')"
proof -
  have ok: "bt_ok (queue (chan s))" using inv by (simp add: map_inv_def)
  show ?thesis
    using inv(2) step by (cases l) (auto split: if_splits option.splits dest: tx_step_fifo [OF ok] rx_step_fifo [OF ok])
qed

end

text \<open>
  \<open>end_inv\<close>: the receiver reports the end only after the closing flag was set.  \<open>single_sender\<close>: only
  thread 0 is ever inside \<open>push\<close>, so the queue of a priority is created at most once.
\<close>

definition end_inv :: "('i, 'p, 'q) psys \<Rightarrow> bool" where
  "end_inv s \<longleftrightarrow> (rx s = RxReady None \<longrightarrow> end_flag (chan s))"

lemma tx_step_flag: "tx_step Q pc c = Some (pc', c', ws) \<Longrightarrow> end_flag c \<Longrightarrow> end_flag c'"
  by (cases pc) (auto simp: Let_def split: if_splits option.splits)

lemma rx_step_end: "rx_step Q w pc c = Some (RxReady None, c', ws) \<Longrightarrow> end_flag c'"
  by (cases "(Q, w, pc, c)" rule: rx_step.cases) (auto split: if_splits option.splits prod.splits)

lemma end_inv_next:
  assumes "end_inv s" "psys_next Q s l = Some s'"
  shows "end_inv s'"
  using assms
  by (cases l) (auto simp: end_inv_def rx_step_end dest: tx_step_flag split: if_splits option.splits)

definition single_sender :: "('i, 'p::linorder, 'q) psys \<Rightarrow> bool" where
  "single_sender s \<longleftrightarrow> overwritten (chan s) = [] \<and>
     (\<forall>t i p. tx s t = TxSlow i p \<longrightarrow> bt_get (queue (chan s)) p = None) \<and>
     (\<forall>t. sending (tx s t) \<longrightarrow> t = 0)"

fun from_zero :: "('i, 'p) plabel \<Rightarrow> bool" where
  "from_zero (LSend t h i p) = (t = 0)"
| "from_zero _ = True"

lemma tx_step_single:
  assumes "tx_step Q pc c = Some (pc', c', ws)" "overwritten c = []"
    and "\<forall>i p. pc = TxSlow i p \<longrightarrow> bt_get (queue c) p = None"
  shows "overwritten c' = [] \<and> (\<forall>i p. pc' = TxSlow i p \<longrightarrow> bt_get (queue c') p = None) \<and>
    (sending pc' \<longrightarrow> sending pc) \<and> (\<not> sending pc \<longrightarrow> queue c' = queue c)"
  using assms
  by (cases pc) (auto simp: Let_def bt_contains_key_def split: if_splits option.splits)

lemma rx_step_single:
  assumes "rx_step Q w pc c = Some (pc', c', ws)"
  shows "overwritten c' = overwritten c \<and> (bt_get (queue c') p = None \<longleftrightarrow> bt_get (queue c) p = None)"
  using assms
  by (cases "(Q, w, pc, c)" rule: rx_step.cases) (auto split: if_splits option.splits prod.splits)

lemma single_sender_next:
  assumes inv: "single_sender s" and l: "from_zero l" and step: "psys_next Q s l = Some s'"
  shows "single_sender s'"
proof (cases l)
  case (LTx t)
  with step obtain pc c ws where ts: "tx_step Q (tx s t) (chan s) = Some (pc, c, ws)"
    and s': "s' = s\<lparr>chan := c, tx := (tx s)(t := pc), loans := give_back t pc (loans s), notified := (notified s \<or> task s \<in> set ws)\<rparr>"
    by (auto split: option.splits)
  have o: "overwritten (chan s) = []" "\<forall>i p. tx s t = TxSlow i p \<longrightarrow> bt_get (queue (chan s)) p = None"
    using inv by (auto simp: single_sender_def)
  note st = tx_step_single [OF ts o]
  have "bt_get (queue c) p = None" if "tx s' v = TxSlow i p" for v i p
  proof (cases "v = t")
    case True
    with that st s' show ?thesis by simp
  next
    case False
    with that s' have v: "tx s v = TxSlow i p" by simp
    then have "v = 0" using inv by (auto simp: single_sender_def)
    with False have "\<not> sending (tx s t)" using inv by (auto simp: single_sender_def)
    with st v inv show ?thesis by (auto simp: single_sender_def)
  qed
  with st inv s' show ?thesis by (auto simp: single_sender_def)
next
  case LRx
  with step inv show ?thesis
    by (auto simp: single_sender_def dest: rx_step_single split: option.splits)
qed (use inv l step in \<open>auto simp: single_sender_def split: if_splits\<close>)

lemma single_sender_exec:
  "single_sender s \<Longrightarrow> list_all from_zero ls \<Longrightarrow> exec (psys_next Q) s ls = Some s' \<Longrightarrow> single_sender s'"
  by (induction ls arbitrary: s) (auto split: option.splits intro: single_sender_next)

lemma single_sender_init: "single_sender psys_init"
  by (simp add: single_sender_def psys_init_def pchan_new_def)

section \<open>The invariant of the channel\<close>

definition psys_inv :: "('q \<Rightarrow> 'i list) \<Rightarrow> ('i, 'p::linorder, 'q) psys \<Rightarrow> bool" where
  "psys_inv cs s \<longleftrightarrow> waker_inv s \<and> map_inv s \<and> handle_inv s \<and> cons_inv cs (chan s) \<and> wakeup_inv cs s \<and>
     fifo_inv cs (chan s) \<and> end_inv s"

lemma psys_inv_init: "psys_inv cs psys_init"
  by (auto simp: psys_inv_def psys_init_def pchan_new_def waker_inv_def map_inv_def handle_inv_def
      cons_inv_def wakeup_inv_def fifo_inv_def queued_def end_inv_def aw_inv_def aw_new_def in_cs_def wpcs_def split: option.splits)

lemma psys_invD:
  assumes "psys_inv cs s"
  shows "waker_inv s" "map_inv s" "handle_inv s" "cons_inv cs (chan s)" "wakeup_inv cs s"
    "fifo_inv cs (chan s)" "end_inv s"
  using assms by (simp_all add: psys_inv_def)

sublocale seg_queue \<subseteq> pch: lts_invariant "psys_next Q" psys_init "psys_inv contents"
proof (unfold_locales, goal_cases)
  case 1
  show ?case by (rule psys_inv_init)
next
  case (2 s l s')
  note inv = psys_invD [OF 2(1)]
  show ?case
    unfolding psys_inv_def
    using waker_inv_next [OF inv(1) 2(2)] map_inv_next [OF inv(2) 2(2)] handle_inv_next [OF inv(3) 2(2)]
      cons_inv_next [OF inv(2,4) 2(2)] wakeup_inv_next [OF inv(1,2,5) 2(2)]
      fifo_inv_next [OF inv(2,6) 2(2)] end_inv_next [OF inv(7) 2(2)]
    by simp
qed

context seg_queue
begin

lemmas psys_reaches_inv = pch.inv_reaches

end

section \<open>The properties\<close>

text \<open>A thread that takes no step keeps its program point.\<close>

fun acts :: "nat \<Rightarrow> ('i, 'p) plabel \<Rightarrow> bool" where
  "acts t (LDrop u h) = (t = u)"
| "acts t (LSend u h i p) = (t = u)"
| "acts t (LTx u) = (t = u)"
| "acts t _ = False"

lemma tx_idle_thread:
  "exec (psys_next Q) s ls = Some s' \<Longrightarrow> list_all (\<lambda>l. \<not> acts t l) ls \<Longrightarrow> tx s' t = tx s t"
proof (induction ls arbitrary: s)
  case (Cons l ls)
  then obtain s1 where s1: "psys_next Q s l = Some s1" "exec (psys_next Q) s1 ls = Some s'"
    by (auto split: option.splits)
  then have "tx s1 t = tx s t" using Cons.prems(2) by (cases l) (auto split: option.splits if_splits)
  with Cons s1 show ?case by simp
qed simp

text \<open>
  values are neither duplicated nor invented.  In every reachable state of the channel, whatever
  the interleaving of senders, drops and polls, the values pushed are exactly the values handed to
  the receiver, the values still in the queues, and the values in queues that a second \<open>insert\<close> of
  the same priority replaced.
\<close>

theorem pchan_conservation:
  assumes "seg_queue Q contents" "reaches (psys_next Q) psys_init s"
  shows "mset (pushed (chan s)) = mset (popped (chan s)) + mset (bt_items contents (queue (chan s)))
    + mset (bt_items contents (overwritten (chan s)))"
  using seg_queue.psys_reaches_inv [OF assms] by (simp add: psys_inv_def cons_inv_def)

theorem pchan_conservation_witness:
  "\<exists>s :: (nat, nat, nat list) psys. reaches (psys_next list_segq) psys_init s \<and> popped (chan s) = [(5, 71)] \<and>
     (5, 71) \<in> set (pushed (chan s))"
proof -
  let ?ls = "LSend 0 0 71 5 # replicate 7 (LTx 0) @ LSend 0 0 72 5 # replicate 7 (LTx 0) @
    [LRecv 3, LRx, LRx] :: (nat, nat) plabel list"
  let ?P = "\<lambda>s :: (nat, nat, nat list) psys. popped (chan s) = [(5, 71)] \<and> overwritten (chan s) = []"
  have "run_ok (psys_next list_segq) psys_init ?ls ?P" by code_simp
  then obtain s where e: "exec (psys_next list_segq) psys_init ?ls = Some s" and p: "?P s"
    by (blast dest: run_ok_exec)
  have "(5, 71) \<in># mset (pushed (chan s))"
    unfolding pchan_conservation [OF seg_queue_list reachesI [OF e]] using p by simp
  with p reachesI [OF e] show ?thesis by (intro exI [of _ s]) simp
qed

text \<open>
  values of one priority are received in the order in which they were pushed, and none is
  missing, as long as no queue has been replaced.
\<close>

theorem pchan_fifo_per_priority:
  assumes "seg_queue Q contents" "reaches (psys_next Q) psys_init s" "overwritten (chan s) = []"
  shows "of_prio p (pushed (chan s)) = of_prio p (popped (chan s)) @ queued contents (queue (chan s)) p"
  using seg_queue.psys_reaches_inv [OF assms(1,2)] assms(3) by (simp add: psys_inv_def fifo_inv_def)

theorem pchan_fifo_per_priority_witness:
  "\<exists>s :: (nat, nat, nat list) psys. reaches (psys_next list_segq) psys_init s \<and> popped (chan s) = [(5, 71)] \<and>
     of_prio 5 (pushed (chan s)) = 71 # queued id (queue (chan s)) 5"
proof -
  let ?ls = "LSend 0 0 71 5 # replicate 7 (LTx 0) @ LSend 0 0 72 5 # replicate 7 (LTx 0) @
    [LRecv 3, LRx, LRx] :: (nat, nat) plabel list"
  let ?P = "\<lambda>s :: (nat, nat, nat list) psys. popped (chan s) = [(5, 71)] \<and> overwritten (chan s) = []"
  have "run_ok (psys_next list_segq) psys_init ?ls ?P" by code_simp
  then obtain s where e: "exec (psys_next list_segq) psys_init ?ls = Some s" and p: "?P s"
    by (blast dest: run_ok_exec)
  have "of_prio 5 (pushed (chan s)) = 71 # queued id (queue (chan s)) 5"
    using pchan_fifo_per_priority [OF seg_queue_list reachesI [OF e], of 5] p by simp
  with p reachesI [OF e] show ?thesis by blast
qed

text \<open>
  with a single sending thread no queue is ever replaced, so nothing is lost: the pushed values
  are the received ones and the queued ones.  Clones, drops and the receiver interleave freely.
\<close>

theorem pchan_single_sender_lossless:
  assumes "seg_queue Q contents" "exec (psys_next Q) psys_init ls = Some s" "list_all from_zero ls"
  shows "mset (pushed (chan s)) = mset (popped (chan s)) + mset (bt_items contents (queue (chan s)))"
proof -
  have "single_sender s" using single_sender_exec [OF single_sender_init assms(3,2)] .
  with seg_queue.psys_reaches_inv [OF assms(1) reachesI [OF assms(2)]]
  show ?thesis by (simp add: psys_inv_def cons_inv_def single_sender_def bt_items_def)
qed

theorem pchan_single_sender_lossless_witness:
  "\<exists>s :: (nat, nat, nat list) psys. popped (chan s) = [(5, 71)] \<and>
     mset (pushed (chan s)) = mset (popped (chan s)) + mset (bt_items id (queue (chan s)))"
proof -
  let ?ls = "LSend 0 0 71 5 # replicate 7 (LTx 0) @ LSend 0 0 72 5 # replicate 7 (LTx 0) @
    [LRecv 3, LRx, LRx] :: (nat, nat) plabel list"
  let ?P = "\<lambda>s :: (nat, nat, nat list) psys. popped (chan s) = [(5, 71)] \<and> overwritten (chan s) = []"
  have "run_ok (psys_next list_segq) psys_init ?ls ?P" by code_simp
  then obtain s where e: "exec (psys_next list_segq) psys_init ?ls = Some s" and p: "?P s"
    by (blast dest: run_ok_exec)
  from pchan_single_sender_lossless [OF seg_queue_list e] p show ?thesis
    by (intro exI [of _ s]) (simp add: list_all_iff)
qed

text \<open>
  a send on a live handle succeeds.  In every reachable state no call of \<open>send_sync\<close> has panicked
  (the \<open>unwrap\<close> of \<open>get(&p)\<close> finds the queue in both branches of \<open>push\<close>) or returned \<open>Err(())\<close>.
\<close>

theorem pchan_send_succeeds:
  assumes "seg_queue Q contents" "reaches (psys_next Q) psys_init s"
  shows "tx s t \<noteq> TxPanic \<and> tx s t \<noteq> TxDone False"
  using seg_queue.psys_reaches_inv [OF assms] by (auto simp: psys_inv_def map_inv_def handle_inv_def)

theorem pchan_send_succeeds_witness:
  "\<exists>s :: (nat, nat, nat list) psys. reaches (psys_next list_segq) psys_init s \<and> popped (chan s) = [(5, 71)] \<and>
     tx s 0 \<noteq> TxPanic"
proof -
  let ?ls = "LSend 0 0 71 5 # replicate 7 (LTx 0) @ LSend 0 0 72 5 # replicate 7 (LTx 0) @
    [LRecv 3, LRx, LRx] :: (nat, nat) plabel list"
  let ?P = "\<lambda>s :: (nat, nat, nat list) psys. popped (chan s) = [(5, 71)] \<and> overwritten (chan s) = []"
  have "run_ok (psys_next list_segq) psys_init ?ls ?P" by code_simp
  then obtain s where e: "exec (psys_next list_segq) psys_init ?ls = Some s" and p: "?P s"
    by (blast dest: run_ok_exec)
  from pchan_send_succeeds [OF seg_queue_list reachesI [OF e], of 0] p reachesI [OF e]
  show ?thesis by (intro exI [of _ s]) simp
qed

text \<open>
  C16: no lost wake-up.  When the receiving task is pending, has not been woken, and no sender is
  inside \<open>wake\<close> (every \<open>send_sync\<close> in progress has not pushed yet), all queues are empty.
\<close>

theorem pchan_no_lost_wakeup:
  assumes "seg_queue Q contents" "reaches (psys_next Q) psys_init s"
    and "rx s = RxPending" "\<not> notified s" "\<forall>t. wp_tx (tx s t) = WIdle"
  shows "bt_items contents (queue (chan s)) = []"
proof -
  have "wakeup_inv contents s" using seg_queue.psys_reaches_inv [OF assms(1,2)] by (simp add: psys_inv_def)
  moreover have "tx s t \<noteq> TxWake WakeOr" for t using assms(5) [rule_format, of t] by auto
  ultimately have "quiet contents s" using assms(3-5) by (auto simp: wakeup_inv_def armed_def)
  with assms(3) show ?thesis by (auto simp: quiet_def bt_items_def)
qed

theorem pchan_no_lost_wakeup_witness:
  "\<exists>s :: (nat, nat, nat list) psys. reaches (psys_next list_segq) psys_init s \<and> rx s = RxPending \<and>
     bt_items id (queue (chan s)) = []"
proof -
  let ?ls = "LSend 0 0 71 5 # replicate 7 (LTx 0) @ [LRecv 2, LRx, LRx, LRecv 3] @ replicate 13 LRx
    :: (nat, nat) plabel list"
  let ?P = "\<lambda>s :: (nat, nat, nat list) psys. rx s = RxPending \<and> \<not> notified s \<and> tx s 0 = TxDone True"
  have "run_ok (psys_next list_segq) psys_init ?ls ?P" by code_simp
  then obtain s where e: "exec (psys_next list_segq) psys_init ?ls = Some s" and p: "?P s"
    by (blast dest: run_ok_exec)
  have "wp_tx (tx s t) = WIdle" for t
    using tx_idle_thread [OF e, of t] p by (cases "t = 0") (auto simp: psys_init_def list_all_iff)
  with pchan_no_lost_wakeup [OF seg_queue_list reachesI [OF e]] p reachesI [OF e] show ?thesis by blast
qed

text \<open>
  \<open>recv\<close> reports the end (\<open>None\<close>) only when every \<open>Sender\<close> has been dropped: the closing flag
  is set and no handle is left.
\<close>

theorem pchan_end_means_closed:
  assumes "seg_queue Q contents" "reaches (psys_next Q) psys_init s" "rx s = RxReady None"
  shows "end_flag (chan s) \<and> strong s = 0 \<and> (\<forall>t. \<not> owns s t)"
  using seg_queue.psys_reaches_inv [OF assms(1,2)] assms(3)
  by (auto simp: psys_inv_def end_inv_def handle_inv_def)

theorem pchan_end_means_closed_witness:
  "\<exists>s :: (nat, nat, nat list) psys. reaches (psys_next list_segq) psys_init s \<and> rx s = RxReady None \<and>
     strong s = 0"
proof -
  have "run_ok (psys_next list_segq) (psys_init :: (nat, nat, nat list) psys) [LDrop 0 0, LTx 0, LRecv 3, LRx, LRx, LRx] (\<lambda>s. rx s = RxReady None)"
    by code_simp
  then obtain s :: "(nat, nat, nat list) psys" where r: "reaches (psys_next list_segq) psys_init s"
    and e: "rx s = RxReady None"
    by (blast dest: run_ok_reaches)
  from pchan_end_means_closed [OF seg_queue_list r e] r e show ?thesis by (intro exI [of _ s]) simp
qed


section \<open>Runs that show what the channel does not promise\<close>

text \<open>
  two threads that send values of the same new priority, here through one shared \<open>Sender\<close>, can lose a
  value: both calls of \<open>send_sync\<close> return \<open>Ok(())\<close>, the second \<open>insert\<close> replaces the queue that holds the
  first value, and only one value is left to receive.
\<close>

theorem pchan_overwrite_loses_value:
  "\<exists>s. reaches (psys_next list_segq) (psys_init :: (nat, nat, nat list) psys) s \<and>
     (tx s 0 = TxDone True \<and> tx s 1 = TxDone True \<and> pushed (chan s) = [(5, 71), (5, 72)] \<and>
      popped (chan s) = [] \<and> bt_items id (queue (chan s)) = [(5, 72)])"
proof (rule run_ok_reaches)
  show "run_ok (psys_next list_segq) (psys_init :: (nat, nat, nat list) psys)
    [LSend 0 0 71 5, LSend 1 0 72 5, LTx 0, LTx 0, LTx 1, LTx 1,
     LTx 0, LTx 1, LTx 0, LTx 0, LTx 0, LTx 0, LTx 1, LTx 1, LTx 1, LTx 1]
    (\<lambda>s. tx s 0 = TxDone True \<and> tx s 1 = TxDone True \<and> pushed (chan s) = [(5, 71), (5, 72)] \<and>
      popped (chan s) = [] \<and> bt_items id (queue (chan s)) = [(5, 72)])"
    by code_simp
qed

lemma closed_pending_stuck:
  assumes "\<forall>t. \<not> owns s t" "\<forall>t. tx_free (tx s t)" "rx s = RxPending" "\<not> notified s"
  shows "psys_next Q s l = None"
proof (cases l)
  case (LTx t)
  with assms(2) [rule_format, of t] show ?thesis by (cases "tx s t") (auto simp: tx_free_def)
qed (use assms in \<open>auto simp: rx_free_def\<close>)

text \<open>
  dropping the last \<open>Sender\<close> does not wake a pending receiver.  There is a reachable state in
  which every handle is gone, the closing flag is set, the receiving task is pending, and no step of
  any thread or of the executor is possible.
\<close>

theorem pchan_close_not_seen:
  "\<exists>s. reaches (psys_next list_segq) (psys_init :: (nat, nat, nat list) psys) s \<and>
     end_flag (chan s) \<and> rx s = RxPending \<and> (\<forall>l. psys_next list_segq s l = None)"
proof -
  let ?ls = "LRecv 3 # replicate 11 LRx @ [LDrop 0 0, LTx 0] :: (nat, nat) plabel list"
  let ?P = "\<lambda>s :: (nat, nat, nat list) psys. end_flag (chan s) \<and> rx s = RxPending \<and> \<not> notified s \<and>
    tx s 0 = TxIdle \<and> strong s = 0"
  have "run_ok (psys_next list_segq) psys_init ?ls ?P" by code_simp
  then obtain s where e: "exec (psys_next list_segq) psys_init ?ls = Some s" and p: "?P s"
    by (blast dest: run_ok_exec)
  have "tx s t = TxIdle" for t
    using tx_idle_thread [OF e, of t] p by (cases "t = 0") (auto simp: psys_init_def list_all_iff)
  then have free: "\<forall>t. tx_free (tx s t)" by (simp add: tx_free_def)
  have "handle_inv s" using lsq.psys_reaches_inv [OF reachesI [OF e]] by (rule psys_invD(3))
  with p have "\<forall>t. \<not> owns s t" by (auto simp: handle_inv_def)
  then have "psys_next list_segq s l = None" for l
    using closed_pending_stuck [OF _ free] p by blast
  with p reachesI [OF e] show ?thesis by blast
qed

text \<open>
  \<open>recv\<close> can report the end although a value is queued: its first \<open>pop\<close> finds nothing, then a
  sender pushes and drops its handle, then the receiver reads the closing flag.
\<close>

theorem pchan_end_drops_queued:
  "\<exists>s. reaches (psys_next list_segq) (psys_init :: (nat, nat, nat list) psys) s \<and>
     (rx s = RxReady None \<and> bt_items id (queue (chan s)) = [(5, 71)])"
proof (rule run_ok_reaches)
  show "run_ok (psys_next list_segq) (psys_init :: (nat, nat, nat list) psys)
    ([LRecv 3, LRx, LRx, LSend 0 0 71 5] @ replicate 7 (LTx 0) @ [LDrop 0 0, LTx 0, LRx])
    (\<lambda>s. rx s = RxReady None \<and> bt_items id (queue (chan s)) = [(5, 71)])"
    by code_simp
qed

end
