(* ===== verification/PriorityProgress.thy ===== *)
theory PriorityProgress imports PriorityChanProofs begin




end
