(* ===== verification/PriorityRefine.thy ===== *)
theory PriorityRefine imports PriorityProgress Simulation begin

text \<open>
  An abstract specification of a priority channel and the proof that \<open>priotity_async_mpsc_chan.rs\<close>
  implements it.  The abstract channel is one list of values in the order of their arrival.  It says
  what the code promises of priorities under concurrency: a poll looks for the values that were queued
  when it began, and hands out a value of no larger priority than any of those; and when a send can drop
  queued values: only when the send of another thread put a value of the same priority during its call.
\<close>

section \<open>The abstract channel\<close>

text \<open>
  \<open>call\<close> has for each thread the arguments of a call of \<open>send_sync\<close> that has not taken effect yet, \<open>seen\<close> the
  priorities of the sends of other threads that took effect since its last call began, and \<open>held\<close> the
  priorities of the values that were queued when the present poll began.
\<close>

record ('i, 'p) pspec =
  stored :: "('p \<times> 'i) list"
  senders :: nat
  call :: "nat \<Rightarrow> ('i \<times> 'p) option"
  seen :: "nat \<Rightarrow> 'p list"
  held :: "'p list"

datatype ('i, 'p) pevent =
    PvClone
  | PvDrop
  | PvCall nat 'i 'p     \<comment> \<open>a thread calls \<open>send_sync\<close>\<close>
  | PvSend nat 'i 'p     \<comment> \<open>its value is queued\<close>
  | PvReplace nat 'i 'p  \<comment> \<open>its value is queued in place of the queued values of its priority\<close>
  | PvReturn nat         \<comment> \<open>the call returns\<close>
  | PvPoll
  | PvRecv 'i 'p         \<comment> \<open>the poll answers \<open>Ready(Some)\<close>\<close>
  | PvEnd                \<comment> \<open>the poll answers \<open>Ready(None)\<close>\<close>
  | PvPending            \<comment> \<open>the poll answers \<open>Pending\<close>\<close>

definition pspec_init :: "('i, 'p) pspec" where
  "pspec_init = \<lparr>stored = [], senders = 1, call = (\<lambda>_. None), seen = (\<lambda>_. []), held = []\<rparr>"

text \<open>The send of thread \<open>t\<close> takes effect and leaves the values \<open>xs\<close>.\<close>

definition take_effect :: "('i, 'p) pspec \<Rightarrow> nat \<Rightarrow> 'p \<Rightarrow> ('p \<times> 'i) list \<Rightarrow> ('i, 'p) pspec" where
  "take_effect a t p xs = a\<lparr>stored := xs, call := (call a)(t := None),
     seen := (\<lambda>u. if u = t then seen a u else p # seen a u)\<rparr>"

fun pspec_next :: "('i, 'p::linorder) pspec \<Rightarrow> ('i, 'p) pevent \<Rightarrow> ('i, 'p) pspec option" where
  "pspec_next a PvClone = (if 0 < senders a then Some (a\<lparr>senders := Suc (senders a)\<rparr>) else None)"
| "pspec_next a PvDrop = (if 0 < senders a then Some (a\<lparr>senders := senders a - 1\<rparr>) else None)"
| "pspec_next a (PvCall t i p) =
     (if 0 < senders a \<and> call a t = None
      then Some (a\<lparr>call := (call a)(t \<mapsto> (i, p)), seen := (seen a)(t := [])\<rparr>) else None)"
| "pspec_next a (PvSend t i p) =
     (if 0 < senders a \<and> call a t = Some (i, p)
      then Some (take_effect a t p (stored a @ [(p, i)])) else None)"
| "pspec_next a (PvReplace t i p) =
     (if 0 < senders a \<and> call a t = Some (i, p) \<and> p \<in> set (seen a t)
      then Some (take_effect a t p (filter (\<lambda>x. fst x \<noteq> p) (stored a) @ [(p, i)])) else None)"
| "pspec_next a (PvReturn t) = (if 0 < senders a \<and> call a t = None then Some a else None)"
| "pspec_next a PvPoll = Some (a\<lparr>held := map fst (stored a)\<rparr>)"
| "pspec_next a (PvRecv i p) =
     (case of_prio p (stored a) of
        [] \<Rightarrow> None
      | x # _ \<Rightarrow> if x = i \<and> list_all (\<lambda>q. p \<le> q) (held a)
          then Some (a\<lparr>stored := remove1 (p, i) (stored a), held := []\<rparr>) else None)"
| "pspec_next a PvEnd = (if senders a = 0 \<and> held a = [] then Some a else None)"
| "pspec_next a PvPending = (if held a = [] then Some a else None)"

section \<open>Events\<close>

text \<open>
  A send takes effect at its push, a receive where \<open>try_pop\<close> finds the value; the other answers of a poll
  are shown by the step that gives them.
\<close>

definition pchan_event :: "('q, 'i) segq \<Rightarrow> ('i, 'p::linorder, 'q) psys \<Rightarrow> ('i, 'p) plabel \<Rightarrow> ('i, 'p) pevent option" where
  "pchan_event Q s l = (case l of
     LClone h u \<Rightarrow> Some PvClone
   | LDrop t h \<Rightarrow> Some PvDrop
   | LSend t h i p \<Rightarrow> Some (PvCall t i p)
   | LTx t \<Rightarrow> (case tx s t of
       TxFast i p \<Rightarrow> Some (PvSend t i p)
     | TxSlow i p \<Rightarrow> Some (if bt_contains_key (queue (chan s)) p then PvReplace t i p else PvSend t i p)
     | _ \<Rightarrow> (case tx_step Q (tx s t) (chan s) of
         Some (TxDone b, c, ws) \<Rightarrow> Some (PvReturn t)
       | _ \<Rightarrow> None))
   | LRecv w \<Rightarrow> Some PvPoll
   | LPoll \<Rightarrow> Some PvPoll
   | LRx \<Rightarrow> (case rx_step Q (task s) (rx s) (chan s) of
       Some (RxReady (Some i), c, ws) \<Rightarrow> (case rx s of RxPop b (p # ps) \<Rightarrow> Some (PvRecv i p) | _ \<Rightarrow> None)
     | Some (RxReady None, c, ws) \<Rightarrow> Some PvEnd
     | Some (RxPending, c, ws) \<Rightarrow> Some PvPending
     | _ \<Rightarrow> None))"

section \<open>The relation\<close>

text \<open>
  The priorities held are those still to be looked at by the first \<open>try_recv!\<close>; when it has found
  nothing, there are none.
\<close>

fun scan_rel :: "('i, 'p::linorder) rxpc \<Rightarrow> 'p list \<Rightarrow> ('p \<Rightarrow> bool) \<Rightarrow> bool" where
  "scan_rel (RxLock False) h ne \<longleftrightarrow> (\<forall>p \<in> set h. ne p)"
| "scan_rel (RxPop False ps) h ne \<longleftrightarrow> (\<forall>p \<in> set h. ne p) \<and> set h \<subseteq> set ps \<and> sorted_wrt (<) ps"
| "scan_rel _ h ne \<longleftrightarrow> h = []"

fun unsent :: "('i, 'p) txpc \<Rightarrow> ('i \<times> 'p) option" where
  "unsent (TxFlag i p) = Some (i, p)"
| "unsent (TxCheck i p) = Some (i, p)"
| "unsent (TxFast i p) = Some (i, p)"
| "unsent (TxSlow i p) = Some (i, p)"
| "unsent _ = None"

definition send_rel :: "('i, 'p::linorder, 'q) psys \<Rightarrow> ('i, 'p) pspec \<Rightarrow> bool" where
  "send_rel s a \<longleftrightarrow> senders a = strong s \<and> (\<forall>t. call a t = unsent (tx s t)) \<and>
     (\<forall>t i p. tx s t = TxSlow i p \<and> bt_contains_key (queue (chan s)) p \<longrightarrow> p \<in> set (seen a t))"

definition pchan_rel :: "('q \<Rightarrow> 'i list) \<Rightarrow> ('i, 'p::linorder, 'q) psys \<Rightarrow> ('i, 'p) pspec \<Rightarrow> bool" where
  "pchan_rel cs s a \<longleftrightarrow> psys_inv cs s \<and> (\<forall>p. of_prio p (stored a) = queued cs (queue (chan s)) p) \<and>
     send_rel s a \<and> scan_rel (rx s) (held a) (\<lambda>p. queued cs (queue (chan s)) p \<noteq> [])"

lemma of_prio_Cons [simp]: "of_prio p ((q, i) # xs) = (if q = p then i # of_prio p xs else of_prio p xs)"
  by (simp add: of_prio_def)

lemma of_prio_remove1: "of_prio p xs = i # is \<Longrightarrow> of_prio q (remove1 (p, i) xs) = (if q = p then is else of_prio q xs)"
  by (induction xs) (auto split: if_splits)

lemma of_prio_filter: "of_prio q (filter (\<lambda>x. fst x \<noteq> p) xs) = (if q = p then [] else of_prio q xs)"
  by (induction xs) auto

lemma of_prio_mem: "p \<in> set (map fst xs) \<longleftrightarrow> of_prio p xs \<noteq> []"
  by (induction xs) (auto split: if_splits)

lemma scan_rel_mono: "scan_rel pc h ne \<Longrightarrow> (\<And>p. ne p \<Longrightarrow> ne' p) \<Longrightarrow> scan_rel pc h ne'"
  by (induction pc h ne rule: scan_rel.induct) auto

lemma scan_rel_skip: "scan_rel (RxPop b (p # ps)) h ne \<Longrightarrow> \<not> ne p \<Longrightarrow> scan_rel (RxPop b ps) h ne"
  by (cases b) auto

lemma unsent_free: "tx_free pc \<Longrightarrow> unsent pc = None"
  by (cases pc) (auto simp: tx_free_def)

text \<open>What a step of a sender does to the contents of the queues.\<close>

context seg_queue
begin

lemma tx_step_queued:
  assumes ok: "bt_ok (queue c)" and st: "tx_step Q pc c = Some (pc', c', ws)" and np: "pc' \<noteq> TxPanic"
  shows "queued contents (queue c') q = (case pc of
      TxFast i p \<Rightarrow> (if q = p then queued contents (queue c) p @ [i] else queued contents (queue c) q)
    | TxSlow i p \<Rightarrow> (if q = p then [i] else queued contents (queue c) q)
    | _ \<Rightarrow> queued contents (queue c) q)"
  using st np ok by (cases pc)
    (auto simp: queued_cases contents_push contents_new Let_def split: option.splits if_splits)

lemma tx_step_contains:
  assumes "tx_step Q pc c = Some (pc', c', ws)" "bt_ok (queue c)"
  shows "bt_contains_key (queue c') q \<longleftrightarrow> bt_contains_key (queue c) q \<or> (\<exists>i. pc = TxSlow i q)"
    and "pc' = TxSlow i p \<Longrightarrow> pc = TxCheck i p \<and> \<not> bt_contains_key (queue c) p"
  using assms by (cases pc; auto simp: Let_def split: option.splits if_splits)+

text \<open>Events that leave the values alone.\<close>

lemma rel_tx_quiet:
  assumes R: "pchan_rel contents s a" and st: "psys_next Q s (LTx t) = Some s'"
    and np: "\<forall>i p. tx s t \<noteq> TxFast i p \<and> tx s t \<noteq> TxSlow i p"
  shows "sim_step pspec_next a (pchan_event Q s (LTx t)) a \<and> pchan_rel contents s' a"
proof -
  obtain pc c ws where ts: "tx_step Q (tx s t) (chan s) = Some (pc, c, ws)"
    and s': "s' = s\<lparr>chan := c, tx := (tx s)(t := pc), loans := give_back t pc (loans s), notified := (notified s \<or> task s \<in> set ws)\<rparr>"
    using st by (auto split: option.splits)
  have i: "psys_inv contents s" using R by (simp add: pchan_rel_def)
  have i': "psys_inv contents s'" by (rule pch.inv_step [OF i st])
  have ok: "bt_ok (queue (chan s))" using psys_invD(2) [OF i] by (simp add: map_inv_def)
  have h: "sending (tx s t) \<Longrightarrow> 0 < strong s \<and> \<not> end_flag (chan s)"
    using handle_inv_sending [OF psys_invD(3) [OF i]] psys_invD(3) [OF i] by (auto simp: handle_inv_def)
  have u: "unsent pc = unsent (tx s t)" "queue c = queue (chan s)" "\<And>b. pc = TxDone b \<Longrightarrow> sending (tx s t) \<and> unsent (tx s t) = None"
    using ts np h by (cases "tx s t"; auto split: option.splits if_splits)+
  have "send_rel s' a" unfolding send_rel_def
  proof (intro conjI allI impI, goal_cases)
    case (3 v i p)
    show ?case
    proof (cases "v = t")
      case True
      with 3 have "pc = TxSlow i p" "bt_contains_key (queue (chan s)) p" using s' u(2) by simp_all
      then show ?thesis using tx_step_contains(2) [OF ts ok] by blast
    qed (use 3 R s' u(2) in \<open>auto simp: pchan_rel_def send_rel_def\<close>)
  qed (use R s' u(1) in \<open>auto simp: pchan_rel_def send_rel_def\<close>)
  then have "pchan_rel contents s' a" using R i' s' u(2) by (simp add: pchan_rel_def)
  moreover have "sim_step pspec_next a (pchan_event Q s (LTx t)) a"
    using R np ts u(3) h by (cases pc; cases "tx s t"; auto simp: pchan_event_def pchan_rel_def send_rel_def)
  ultimately show ?thesis by blast
qed

text \<open>A push: the event is the send, or the replacement of a queue that another thread made during the call.\<close>

lemma rel_tx_push:
  assumes R: "pchan_rel contents s a" and st: "psys_next Q s (LTx t) = Some s'"
    and pc: "tx s t = TxFast i p \<or> tx s t = TxSlow i p"
  shows "\<exists>b. sim_step pspec_next a (pchan_event Q s (LTx t)) b \<and> pchan_rel contents s' b"
proof -
  obtain pc' c ws where ts: "tx_step Q (tx s t) (chan s) = Some (pc', c, ws)"
    and s': "s' = s\<lparr>chan := c, tx := (tx s)(t := pc'), loans := give_back t pc' (loans s), notified := (notified s \<or> task s \<in> set ws)\<rparr>"
    using st by (auto split: option.splits)
  have i: "psys_inv contents s" using R by (simp add: pchan_rel_def)
  have i': "psys_inv contents s'" by (rule pch.inv_step [OF i st])
  have "tx s' t \<noteq> TxPanic" using psys_invD(2) [OF i'] unfolding map_inv_def by blast
  then have np: "pc' \<noteq> TxPanic" using s' by simp
  then have pc': "pc' = TxWake WakeOr" using ts pc by (auto simp: Let_def split: option.splits if_splits)
  have ok: "bt_ok (queue (chan s))" using psys_invD(2) [OF i] by (simp add: map_inv_def)
  note q = tx_step_queued [OF ok ts np]
  let ?xs = "if (\<exists>i p. tx s t = TxSlow i p) \<and> bt_contains_key (queue (chan s)) p
    then filter (\<lambda>x. fst x \<noteq> p) (stored a) @ [(p, i)] else stored a @ [(p, i)]"
  have o: "of_prio r ?xs = queued contents (queue c) r" for r
    using R q pc by (auto simp: pchan_rel_def of_prio_filter bt_contains_key_def queued_cases)
  have sr: "send_rel s' (take_effect a t p ?xs)" unfolding send_rel_def
  proof (intro conjI allI impI, goal_cases)
    case (3 v i' p')
    then have v: "v \<noteq> t" "tx s v = TxSlow i' p'" "bt_contains_key (queue c) p'"
      using s' pc' by (auto split: if_splits)
    then have "bt_contains_key (queue (chan s)) p' \<or> p' = p" using tx_step_contains(1) [OF ts ok] pc by auto
    then show ?case using R v by (auto simp: pchan_rel_def send_rel_def take_effect_def)
  qed (use R s' pc' in \<open>auto simp: pchan_rel_def send_rel_def take_effect_def\<close>)
  have "scan_rel (rx s) (held a) (\<lambda>p. queued contents (queue c) p \<noteq> [])"
    by (rule scan_rel_mono [of _ _ "\<lambda>p. queued contents (queue (chan s)) p \<noteq> []"])
      (use R in \<open>auto simp: pchan_rel_def q split: txpc.splits\<close>)
  then have "pchan_rel contents s' (take_effect a t p ?xs)" using i' s' o sr by (simp add: pchan_rel_def take_effect_def)
  moreover have "0 < strong s" using handle_inv_sending [OF psys_invD(3) [OF i], of t] pc by auto
  then have "sim_step pspec_next a (pchan_event Q s (LTx t)) (take_effect a t p ?xs)"
    using R pc by (auto simp: pchan_event_def pchan_rel_def send_rel_def)
  ultimately show ?thesis by blast
qed

lemma rel_tx:
  assumes R: "pchan_rel contents s a" and st: "psys_next Q s (LTx t) = Some s'"
  shows "\<exists>b. sim_step pspec_next a (pchan_event Q s (LTx t)) b \<and> pchan_rel contents s' b"
  using rel_tx_push [OF R st] rel_tx_quiet [OF R st] by blast

lemma send_rel_rx:
  assumes "send_rel s a" "s' = s\<lparr>chan := c, rx := pc, notified := n\<rparr>" "map fst (queue c) = map fst (queue (chan s))"
  shows "send_rel s' (a\<lparr>stored := xs, held := h\<rparr>)"
  using assms bt_contains_keys [OF assms(3)] by (simp add: send_rel_def)

lemma rel_rx_quiet:
  assumes R: "pchan_rel contents s a" and st: "psys_next Q s LRx = Some s'"
    and s': "s' = s\<lparr>chan := c, rx := pc, notified := n\<rparr>" and k: "map fst (queue c) = map fst (queue (chan s))"
    and q: "\<forall>p. queued contents (queue c) p = queued contents (queue (chan s)) p"
    and sc: "scan_rel pc (held a) (\<lambda>p. queued contents (queue (chan s)) p \<noteq> [])"
  shows "pchan_rel contents s' a"
proof -
  have "psys_inv contents s'" using R pch.inv_step [OF _ st] by (simp add: pchan_rel_def)
  moreover have "send_rel s' (a\<lparr>stored := stored a, held := held a\<rparr>)"
    by (rule send_rel_rx [OF _ s' k]) (use R in \<open>simp add: pchan_rel_def\<close>)
  ultimately show ?thesis using R s' q sc by (simp add: pchan_rel_def)
qed

lemma rel_rx_pop:
  assumes R: "pchan_rel contents s a" and st: "psys_next Q s LRx = Some s'" and rx: "rx s = RxPop b (p # ps)"
  shows "\<exists>d. sim_step pspec_next a (pchan_event Q s LRx) d \<and> pchan_rel contents s' d"
proof -
  have i: "psys_inv contents s" using R by (simp add: pchan_rel_def)
  have sc: "scan_rel (rx s) (held a) (\<lambda>p. queued contents (queue (chan s)) p \<noteq> [])"
    using R by (simp add: pchan_rel_def)
  note skip = scan_rel_skip [OF sc [unfolded rx]]
  show ?thesis
  proof (cases "bt_get (queue (chan s)) p")
    case None
    then have "s' = s\<lparr>chan := chan s, rx := RxPop b ps, notified := notified s\<rparr>" using st rx None by auto
    then have "pchan_rel contents s' a"
      by (rule rel_rx_quiet [OF R st]) (use skip None in \<open>simp_all add: queued_cases\<close>)
    then show ?thesis using rx None by (auto simp: pchan_event_def)
  next
    case (Some q)
    obtain r q' where pop: "sq_pop Q q = (r, q')" by force
    show ?thesis
    proof (cases r)
      case None
      with pop have e: "contents q = []" "contents q' = []" by (auto dest: pop_NoneD)
      have "s' = s\<lparr>chan := (chan s)\<lparr>queue := bt_update p (\<lambda>_. q') (queue (chan s))\<rparr>, rx := RxPop b ps, notified := notified s\<rparr>"
        using st rx Some pop None by auto
      then have "pchan_rel contents s' a"
        by (rule rel_rx_quiet [OF R st]) (use skip Some e in \<open>simp_all add: queued_cases\<close>)
      then show ?thesis using rx Some pop None by (auto simp: pchan_event_def)
    next
      case (Some j)
      with pop have e: "contents q = j # contents q'" by (auto dest: pop_SomeD)
      let ?a = "a\<lparr>stored := remove1 (p, j) (stored a), held := []\<rparr>"
      have s': "s' = s\<lparr>chan := (chan s)\<lparr>queue := bt_update p (\<lambda>_. q') (queue (chan s)), readers := readers (chan s) - 1,
          popped := popped (chan s) @ [(p, j)]\<rparr>, rx := RxReady (Some j), notified := notified s\<rparr>"
        using st rx \<open>bt_get (queue (chan s)) p = Some q\<close> pop Some by auto
      have o: "of_prio p (stored a) = j # contents q'"
        using R e \<open>bt_get (queue (chan s)) p = Some q\<close> by (simp add: pchan_rel_def queued_cases)
      have l: "list_all (\<lambda>q. p \<le> q) (held a)" using sc rx by (cases b) (auto simp: list_all_iff less_imp_le)
      have "sim_step pspec_next a (pchan_event Q s LRx) ?a"
        using rx \<open>bt_get (queue (chan s)) p = Some q\<close> pop Some o l by (simp add: pchan_event_def)
      moreover have "pchan_rel contents s' ?a"
        using R pch.inv_step [OF i st] s' of_prio_remove1 [OF o] send_rel_rx [OF _ s'] \<open>bt_get (queue (chan s)) p = Some q\<close>
        by (auto simp: pchan_rel_def)
      ultimately show ?thesis by blast
    qed
  qed
qed

lemma rel_rx:
  assumes R: "pchan_rel contents s a" and st: "psys_next Q s LRx = Some s'"
  shows "\<exists>b. sim_step pspec_next a (pchan_event Q s LRx) b \<and> pchan_rel contents s' b"
proof (cases "rx s")
  case (RxLock b)
  have "bt_ok (queue (chan s))" using R by (simp add: pchan_rel_def psys_inv_def map_inv_def)
  then have ok: "sorted_wrt (<) (map fst (queue (chan s)))" by (simp add: bt_ok_def)
  have k: "queued contents (queue (chan s)) p \<noteq> [] \<Longrightarrow> p \<in> set (map fst (queue (chan s)))" for p
    by (cases "bt_get (queue (chan s)) p") (auto simp: queued_cases dest!: map_of_SomeD intro: rev_image_eqI)
  have "s' = s\<lparr>chan := (chan s)\<lparr>readers := Suc (readers (chan s))\<rparr>, rx := RxPop b (map fst (queue (chan s))), notified := notified s\<rparr>"
    using st RxLock by auto
  then have "pchan_rel contents s' a"
    by (rule rel_rx_quiet [OF R st]) (use R RxLock k ok in \<open>cases b; auto simp: pchan_rel_def\<close>)+
  then show ?thesis using RxLock by (auto simp: pchan_event_def)
next
  case (RxPop b ps)
  show ?thesis
  proof (cases ps)
    case Nil
    have "s' = s\<lparr>chan := (chan s)\<lparr>readers := readers (chan s) - 1\<rparr>, rx := RxEnd b, notified := notified s\<rparr>"
      using st RxPop Nil by auto
    then have "pchan_rel contents s' a"
      by (rule rel_rx_quiet [OF R st]) (use R RxPop Nil in \<open>cases b; auto simp: pchan_rel_def\<close>)+
    then show ?thesis using RxPop Nil by (auto simp: pchan_event_def)
  next
    case (Cons p ps')
    then show ?thesis using rel_rx_pop [OF R st] RxPop by blast
  qed
next
  case (RxEnd b)
  let ?pc = "if end_flag (chan s) then RxReady None else if b then RxPending else RxReg (RegCas (task s))"
  have h: "held a = []" using R RxEnd by (simp add: pchan_rel_def)
  have "s' = s\<lparr>chan := chan s, rx := ?pc, notified := notified s\<rparr>" using st RxEnd by auto
  then have "pchan_rel contents s' a" by (rule rel_rx_quiet [OF R st]) (simp_all add: h)
  moreover have "end_flag (chan s) \<Longrightarrow> senders a = 0"
    using R psys_invD(3) [of contents s] by (auto simp: pchan_rel_def send_rel_def handle_inv_def)
  ultimately show ?thesis using RxEnd h by (auto simp: pchan_event_def)
next
  case (RxReg w)
  then obtain w' x ws where w: "aw_tstep False w (waker (chan s)) = Some (w', x, ws)"
    and s': "s' = s\<lparr>chan := (chan s)\<lparr>waker := x\<rparr>, rx := (if w' = WIdle then RxLock True else RxReg w'),
      notified := notified s \<or> task s \<in> set ws\<rparr>" using st by (auto split: option.splits)
  have "pchan_rel contents s' a"
    by (rule rel_rx_quiet [OF R st s']) (use R RxReg in \<open>simp_all add: pchan_rel_def\<close>)
  then show ?thesis using RxReg w by (auto simp: pchan_event_def)
qed (use st in auto)

lemma rel_next:
  assumes R: "pchan_rel contents s a" and st: "psys_next Q s l = Some s'"
  shows "\<exists>b. sim_step pspec_next a (pchan_event Q s l) b \<and> pchan_rel contents s' b"
proof -
  have i: "psys_inv contents s" using R by (simp add: pchan_rel_def)
  note i' = pch.inv_step [OF i st] and own = handle_inv_strong [OF psys_invD(3) [OF i]]
  note defs = pchan_event_def pchan_rel_def send_rel_def
  show ?thesis
  proof (cases l)
    case (LTx t)
    then show ?thesis using rel_tx [OF R] st by blast
  next
    case LRx
    then show ?thesis using rel_rx [OF R] st by blast
  next
    case (LClone h u)
    then have "owns s h" "s' = s\<lparr>owns := (owns s)(u := True), strong := Suc (strong s)\<rparr>" using st by (auto split: if_splits)
    then show ?thesis using LClone R i' own [of h] by (simp add: defs)
  next
    case (LDrop t h)
    then have o: "owns s h" "tx_free (tx s t)" and s': "s' = s\<lparr>owns := (owns s)(h := False), strong := strong s - 1,
        tx := (tx s)(t := if strong s = 1 then TxClose else TxIdle)\<rparr>" using st by (auto split: if_splits)
    then show ?thesis using LDrop R i' own [OF o(1)] unsent_free [OF o(2)] by (simp add: defs)
  next
    case (LSend t h i p)
    then have o: "owns s h" "tx_free (tx s t)" and s': "s' = s\<lparr>tx := (tx s)(t := TxFlag i p), loans := (t, h) # loans s\<rparr>"
      using st by (auto split: if_splits)
    then show ?thesis using LSend R i' own [OF o(1)] unsent_free [OF o(2)] by (simp add: defs)
  next
    case (LRecv w)
    then have "s' = s\<lparr>rx := RxLock False, task := w, notified := False\<rparr>" using st by (auto split: if_splits)
    then show ?thesis using LRecv R i' of_prio_mem [of _ "stored a"] by (simp add: defs)
  next
    case LPoll
    then have "s' = s\<lparr>rx := RxLock False, notified := False\<rparr>" using st by (auto split: if_splits)
    then show ?thesis using LPoll R i' of_prio_mem [of _ "stored a"] by (simp add: defs)
  qed
qed

lemma rel_init: "pchan_rel contents psys_init pspec_init"
  using psys_inv_init [of contents]
  by (simp add: pchan_rel_def send_rel_def pspec_init_def psys_init_def pchan_new_def queued_def)

end

sublocale seg_queue \<subseteq> psim: forward_simulation "psys_next Q" psys_init pspec_next pspec_init "pchan_rel contents" "pchan_event Q"
  by unfold_locales (fact rel_init, fact rel_next)

context seg_queue
begin

lemmas pchan_sim_runs = psim.rel_runs

end

text \<open>
  C6: refinement.  Every interleaving of senders, receiver and executor, with any number of threads that call
  \<open>send_sync\<close> through the same or through different \<open>Sender\<close>s, seen through its events, is a run of the
  abstract channel: each call of \<open>send_sync\<close> takes effect exactly once before it returns; a poll hands out the
  oldest value of a priority that is no larger than that of any value queued when the poll began; it
  answers \<open>Pending\<close> or the end only when nothing was queued then, and the end only when no \<open>Sender\<close> is
  left; queued values are lost only to a send during whose call the send of another thread put a value of
  the same priority.
\<close>

theorem pchan_refines:
  assumes sq: "seg_queue Q contents" and run: "exec (psys_next Q) psys_init ls = Some s"
  shows "\<exists>a. exec pspec_next pspec_init (trace (psys_next Q) (pchan_event Q) psys_init ls) = Some a \<and>
    senders a = strong s \<and> (\<forall>p. of_prio p (stored a) = queued contents (queue (chan s)) p)"
  using seg_queue.pchan_sim_runs [OF sq run] by (auto simp: pchan_rel_def send_rel_def)

theorem pchan_refines_witness:
  "(\<exists>a. exec pspec_next pspec_init [PvCall 0 71 5, PvCall 1 72 5, PvSend 0 71 5, PvReturn 0, PvReplace 1 72 5, PvReturn 1,
       PvPoll, PvRecv 72 (5 :: nat)] = Some a \<and> of_prio 5 (stored a) = ([] :: nat list)) \<and>
   exec pspec_next pspec_init [PvCall 0 71 5, PvSend 0 71 5, PvReturn 0, PvCall 1 72 5, PvReplace 1 72 (5 :: nat)] =
     (None :: (nat, nat) pspec option)"
proof -
  let ?ls = "[LSend 0 0 71 5, LSend 1 0 72 5, LTx 0, LTx 0, LTx 1, LTx 1] @ replicate 5 (LTx 0) @ replicate 5 (LTx 1) @
    [LRecv 3, LRx, LRx] :: (nat, nat) plabel list"
  let ?es = "[PvCall 0 71 5, PvCall 1 72 5, PvSend 0 71 5, PvReturn 0, PvReplace 1 72 5, PvReturn 1, PvPoll, PvRecv 72 5]"
  let ?n = "psys_next list_segq :: (nat, nat, nat list) psys \<Rightarrow> _"
  have "run_ok ?n psys_init ?ls (\<lambda>s. queue (chan s) = [(5, [])])" by code_simp
  then obtain s where e: "exec ?n psys_init ?ls = Some s" and q: "queue (chan s) = [(5, [])]" by (blast dest: run_ok_exec)
  have "trace ?n (pchan_event list_segq) psys_init ?ls = ?es" by code_simp
  from pchan_refines [OF seg_queue_list e, unfolded this] obtain a where
    a: "exec pspec_next pspec_init ?es = Some a" "\<forall>p. of_prio p (stored a) = queued id (queue (chan s)) p" by blast
  then have "of_prio 5 (stored a) = []" using q by (simp add: queued_def)
  moreover have "exec pspec_next pspec_init [PvCall 0 71 5, PvSend 0 71 5, PvReturn 0, PvCall 1 72 5, PvReplace 1 72 (5 :: nat)] =
     (None :: (nat, nat) pspec option)" by (simp add: pspec_init_def take_effect_def)
  ultimately show ?thesis using a(1) by blast
qed

end
