(* ===== verification/LinkQueue.thy ===== *)
theory LinkQueue imports Atomics begin

text \<open>
  \<open>lockfree_link_queue.rs\<close>: a multi-producer single-consumer queue as a linked list with a dummy head.
  The nodes live in a heap from addresses to nodes; \<open>Box::into_raw\<close> takes any free non-null address
  (the label of the step names it, so that an address can be reused after it was freed) and dropping
  the box frees it.  Reading or writing through a pointer to no node ends the run with the fault
  \<^const>\<open>UseAfterFree\<close>.  \<open>push\<close> and \<open>pop\<close> are program points, one shared access per step, so that
  any number of pushing threads and the consumer interleave; \<open>pushed\<close> and \<open>popped\<close> are history: the
  values in the order in which their nodes became the tail, and the values that \<open>pop\<close> returned.
\<close>

section \<open>Nodes and the queue\<close>

type_synonym ptr = nat

abbreviation null :: ptr where
  "null \<equiv> 0"

record 'a node =
  nt :: "'a option"
  nnext :: ptr

record 'a lqueue =
  heap :: "ptr \<rightharpoonup> 'a node"
  dummyhead :: ptr
  tail :: ptr
  cnt :: i32
  pushed :: "'a list"

definition node_new_head :: "ptr \<Rightarrow> (ptr \<rightharpoonup> 'a node) \<Rightarrow> ptr \<rightharpoonup> 'a node" where
  "node_new_head a h = h(a \<mapsto> \<lparr>nt = None, nnext = null\<rparr>)"

definition node_new :: "ptr \<Rightarrow> 'a \<Rightarrow> (ptr \<rightharpoonup> 'a node) \<Rightarrow> ptr \<rightharpoonup> 'a node" where
  "node_new a t h = h(a \<mapsto> \<lparr>nt = Some t, nnext = null\<rparr>)"

definition deref :: "ptr \<Rightarrow> (ptr \<rightharpoonup> 'a node) \<Rightarrow> panic + 'a node" where
  "deref p h = (case h p of None \<Rightarrow> Inl UseAfterFree | Some n \<Rightarrow> Inr n)"

definition set_next :: "ptr \<Rightarrow> ptr \<Rightarrow> (ptr \<rightharpoonup> 'a node) \<Rightarrow> panic + (ptr \<rightharpoonup> 'a node)" where
  "set_next p v h = bindE (deref p h) (\<lambda>n. Inr (h(p \<mapsto> n\<lparr>nnext := v\<rparr>)))"

text \<open>\<open>Node::free\<close>: the value is swapped out, the box is dropped, and then the value is unwrapped.\<close>

definition node_free :: "ptr \<Rightarrow> (ptr \<rightharpoonup> 'a node) \<Rightarrow> panic + ('a \<times> (ptr \<rightharpoonup> 'a node))" where
  "node_free p h = bindE (deref p h) (\<lambda>n. case nt n of
     None \<Rightarrow> Inl UnwrapNone
   | Some t \<Rightarrow> Inr (t, h(p := None)))"

definition lq_new :: "ptr \<Rightarrow> 'a lqueue" where
  "lq_new a = \<lparr>heap = node_new_head a Map.empty, dummyhead = a, tail = a, cnt = 0, pushed = []\<rparr>"

text \<open>
  \<open>Drop\<close>: free nodes from the head on until one without a value.  The loop is a partial function:
  \<^term>\<open>None\<close> would mean that it does not return.
\<close>

partial_function (option) lq_drop :: "'a lqueue \<Rightarrow> (panic + 'a lqueue) option" where
  "lq_drop q = (case deref (dummyhead q) (heap q) of
     Inl e \<Rightarrow> Some (Inl e)
   | Inr n \<Rightarrow> if nt n = None then Some (Inr q) else
       (case node_free (dummyhead q) (heap q) of
          Inl e \<Rightarrow> Some (Inl e)
        | Inr (t, h) \<Rightarrow> lq_drop (q\<lparr>heap := h, dummyhead := nnext n\<rparr>)))"

section \<open>push\<close>

datatype ppc =
    PIdle
  | PLoad ptr        \<comment> \<open>\<open>self.tail.load\<close>; the new node\<close>
  | PCas ptr ptr     \<comment> \<open>\<open>compare_exchange_weak\<close>; the new node and the old tail\<close>
  | PCnt ptr ptr     \<comment> \<open>\<open>self.cnt.fetch_add(1)\<close>\<close>
  | PLink ptr ptr    \<comment> \<open>\<open>(*oldtail).next.store(new)\<close>\<close>

text \<open>The flag of a step decides whether a weak compare-exchange fails spuriously.\<close>

definition node_vals :: "(ptr \<rightharpoonup> 'a node) \<Rightarrow> ptr \<Rightarrow> 'a list" where
  "node_vals h p = (case h p of None \<Rightarrow> [] | Some n \<Rightarrow> (case nt n of None \<Rightarrow> [] | Some t \<Rightarrow> [t]))"

fun push_step :: "bool \<Rightarrow> ppc \<Rightarrow> 'a lqueue \<Rightarrow> (panic + (ppc \<times> 'a lqueue)) option" where
  "push_step w (PLoad new) q = Some (Inr (PCas new (tail q), q))"
| "push_step w (PCas new old) q =
     (case (if w then (Inl (tail q), tail q) else compare_exchange old new (tail q)) of
        (Inl _, v) \<Rightarrow> Some (Inr (PLoad new, q\<lparr>tail := v\<rparr>))
      | (Inr _, v) \<Rightarrow> Some (Inr (PCnt new old, q\<lparr>tail := v, pushed := pushed q @ node_vals (heap q) new\<rparr>)))"
| "push_step w (PCnt new old) q = Some (Inr (PLink new old, q\<lparr>cnt := snd (fetch_add 1 (cnt q))\<rparr>))"
| "push_step w (PLink new old) q =
     Some (bindE (set_next old new (heap q)) (\<lambda>h. Inr (PIdle, q\<lparr>heap := h\<rparr>)))"
| "push_step w PIdle q = None"

section \<open>pop\<close>

datatype 'a cpc =
    CIdle
  | CHead            \<comment> \<open>\<open>self.dummyhead.load\<close>\<close>
  | CNext ptr        \<comment> \<open>\<open>(*dummyhead).next.load\<close>, retried while null\<close>
  | CLoad ptr ptr    \<comment> \<open>\<open>(*head).next.load\<close>\<close>
  | CStore ptr ptr ptr \<comment> \<open>\<open>(*dummyhead).next.store\<close>\<close>
  | CFree ptr        \<comment> \<open>\<open>Node::free(head)\<close>\<close>
  | CSub 'a          \<comment> \<open>\<open>self.cnt.fetch_sub(1)\<close>\<close>
  | CRet "'a option"

definition pop_start :: "'a lqueue \<Rightarrow> 'a cpc" where
  "pop_start q = (if cnt q = 0 then CRet None else CHead)"

fun pop_step :: "'a cpc \<Rightarrow> 'a lqueue \<Rightarrow> (panic + ('a cpc \<times> 'a lqueue)) option" where
  "pop_step CHead q = Some (Inr (CNext (dummyhead q), q))"
| "pop_step (CNext d) q =
     Some (bindE (deref d (heap q)) (\<lambda>n. Inr (if nnext n = null then CHead else CLoad d (nnext n), q)))"
| "pop_step (CLoad d hn) q =
     Some (bindE (deref hn (heap q)) (\<lambda>n. Inr (CStore d hn (nnext n), q)))"
| "pop_step (CStore d hn nx) q =
     Some (bindE (set_next d nx (heap q)) (\<lambda>h. Inr (CFree hn, q\<lparr>heap := h\<rparr>)))"
| "pop_step (CFree hn) q =
     Some (bindE (node_free hn (heap q)) (\<lambda>(t, h). Inr (CSub t, q\<lparr>heap := h\<rparr>)))"
| "pop_step (CSub t) q = Some (Inr (CRet (Some t), q\<lparr>cnt := snd (fetch_sub 1 (cnt q))\<rparr>))"
| "pop_step CIdle q = None"
| "pop_step (CRet r) q = None"

section \<open>The system\<close>

text \<open>
  Labels: thread \<open>t\<close> calls \<open>push(x)\<close> and its node gets the address \<open>a\<close>; the next step of the push of
  thread \<open>t\<close>; the consumer calls \<open>pop\<close>; its next step.  After a fault nothing runs.
\<close>

datatype 'a lqlabel =
    LqPush nat ptr 'a
  | LqTx nat bool
  | LqPop
  | LqRx

record 'a lqsys =
  lq :: "'a lqueue"
  ppc :: "nat \<Rightarrow> ppc"
  cpc :: "'a cpc"
  popped :: "'a list"
  fault :: "panic option"

definition lqsys_init :: "ptr \<Rightarrow> 'a lqsys" where
  "lqsys_init a = \<lparr>lq = lq_new a, ppc = (\<lambda>_. PIdle), cpc = CIdle, popped = [], fault = None\<rparr>"

fun lqsys_step :: "'a lqsys \<Rightarrow> 'a lqlabel \<Rightarrow> 'a lqsys option" where
  "lqsys_step s (LqPush t a x) =
     (if ppc s t = PIdle \<and> a \<noteq> null \<and> heap (lq s) a = None
      then Some (s\<lparr>lq := (lq s)\<lparr>heap := node_new a x (heap (lq s))\<rparr>, ppc := (ppc s)(t := PLoad a)\<rparr>)
      else None)"
| "lqsys_step s (LqTx t w) =
     (case push_step w (ppc s t) (lq s) of
        None \<Rightarrow> None
      | Some (Inl e) \<Rightarrow> Some (s\<lparr>fault := Some e\<rparr>)
      | Some (Inr (pc, q)) \<Rightarrow> Some (s\<lparr>lq := q, ppc := (ppc s)(t := pc)\<rparr>))"
| "lqsys_step s LqPop = (if cpc s = CIdle then Some (s\<lparr>cpc := pop_start (lq s)\<rparr>) else None)"
| "lqsys_step s LqRx =
     (case cpc s of
        CRet r \<Rightarrow> Some (s\<lparr>cpc := CIdle, popped := popped s @ (case r of None \<Rightarrow> [] | Some x \<Rightarrow> [x])\<rparr>)
      | _ \<Rightarrow> (case pop_step (cpc s) (lq s) of
               None \<Rightarrow> None
             | Some (Inl e) \<Rightarrow> Some (s\<lparr>fault := Some e\<rparr>)
             | Some (Inr (pc, q)) \<Rightarrow> Some (s\<lparr>lq := q, cpc := pc\<rparr>)))"

definition lqsys_next :: "'a lqsys \<Rightarrow> 'a lqlabel \<Rightarrow> 'a lqsys option" where
  "lqsys_next s l = (if fault s = None then lqsys_step s l else None)"

text \<open>
  The discipline the code needs and does not enforce: when \<open>pop\<close> reads the successor of the node it
  is about to free, that successor is linked, so that the freed node is not the tail.
\<close>

definition keeps_last :: "'a lqsys \<Rightarrow> 'a lqlabel \<Rightarrow> bool" where
  "keeps_last s l \<longleftrightarrow> (case (l, cpc s) of
     (LqRx, CLoad d hn) \<Rightarrow> (case heap (lq s) hn of None \<Rightarrow> False | Some n \<Rightarrow> nnext n \<noteq> null)
   | _ \<Rightarrow> True)"

abbreviation lq_kept :: "'a lqsys \<Rightarrow> 'a lqlabel \<Rightarrow> 'a lqsys option" where
  "lq_kept \<equiv> restrict_lts keeps_last lqsys_next"

end
