(* ===== verification/LinkQueueProofs.thy ===== *)
theory LinkQueueProofs imports LinkQueue begin

text \<open>
  The link queue: under the discipline \<^const>\<open>keeps_last\<close> it is a first-in first-out queue that never
  touches a freed node; without it a single thread that pushes, pops and pushes again does.
\<close>

section \<open>Lists of addresses\<close>

fun adj :: "'b \<Rightarrow> 'b \<Rightarrow> 'b list \<Rightarrow> bool" where
  "adj u v (x # y # xs) \<longleftrightarrow> u = x \<and> v = y \<or> adj u v (y # xs)"
| "adj u v _ \<longleftrightarrow> False"

lemma adj_snoc: "adj u v (xs @ [w]) \<longleftrightarrow> adj u v xs \<or> xs \<noteq> [] \<and> u = last xs \<and> v = w"
  by (induction xs rule: induct_list012) auto

lemma adj_set: "adj u v xs \<Longrightarrow> u \<in> set xs \<and> v \<in> set (tl xs)"
  by (induction xs rule: induct_list012) auto

lemma adj_Cons: "adj u v (x # xs) \<longleftrightarrow> (\<exists>ys. xs = v # ys \<and> u = x) \<or> adj u v xs"
  by (cases xs) auto

lemma adj_hd: "distinct (d # xs) \<Longrightarrow> adj d v (d # xs) \<longleftrightarrow> (\<exists>ys. xs = v # ys)"
  by (auto simp: adj_Cons dest: adj_set)

lemma adj_last: "distinct xs \<Longrightarrow> \<not> adj (last xs) v xs"
  by (induction xs rule: induct_list012) (auto dest: adj_set split: if_splits)

lemma adj_fun: "distinct xs \<Longrightarrow> adj u v xs \<Longrightarrow> adj u w xs \<Longrightarrow> v = w"
  by (induction xs rule: induct_list012) (auto dest: adj_set)

lemma adj_inj: "distinct xs \<Longrightarrow> adj u v xs \<Longrightarrow> adj w v xs \<Longrightarrow> u = w"
  by (induction xs rule: induct_list012) (auto dest: adj_set)

lemma adj_ex: "u \<in> set xs \<Longrightarrow> u \<noteq> last xs \<Longrightarrow> \<exists>v. adj u v xs"
  by (induction xs rule: induct_list012) (auto split: if_splits)

section \<open>The heap\<close>

definition nxt :: "(ptr \<rightharpoonup> 'a node) \<Rightarrow> ptr \<Rightarrow> ptr" where
  "nxt h p = (case h p of None \<Rightarrow> null | Some n \<Rightarrow> nnext n)"

definition holds_val :: "(ptr \<rightharpoonup> 'a node) \<Rightarrow> ptr \<Rightarrow> bool" where
  "holds_val h p \<longleftrightarrow> (case h p of None \<Rightarrow> False | Some n \<Rightarrow> nt n \<noteq> None)"

lemma heap_upd [simp]:
  "nxt (h(a \<mapsto> n)) p = (if p = a then nnext n else nxt h p)"
  "nxt (h(a := None)) p = (if p = a then null else nxt h p)"
  "node_vals (h(a \<mapsto> n)) p = (if p = a then (case nt n of None \<Rightarrow> [] | Some t \<Rightarrow> [t]) else node_vals h p)"
  "node_vals (h(a := None)) p = (if p = a then [] else node_vals h p)"
  "holds_val (h(a \<mapsto> n)) p \<longleftrightarrow> (if p = a then nt n \<noteq> None else holds_val h p)"
  "holds_val (h(a := None)) p \<longleftrightarrow> p \<noteq> a \<and> holds_val h p"
  by (auto simp: nxt_def node_vals_def holds_val_def split: option.splits)

lemma holds_valD: "holds_val h p \<Longrightarrow> \<exists>n t. h p = Some n \<and> nt n = Some t \<and> node_vals h p = [t] \<and> nnext n = nxt h p"
  by (auto simp: holds_val_def node_vals_def nxt_def split: option.splits)

lemma set_next_Some: "h p = Some n \<Longrightarrow> set_next p v h = Inr (h(p \<mapsto> n\<lparr>nnext := v\<rparr>))"
  by (simp add: set_next_def deref_def)

lemma set_next_heap:
  assumes "h p = Some n"
  shows "nxt (h(p \<mapsto> n\<lparr>nnext := v\<rparr>)) = (nxt h)(p := v)"
    and "node_vals (h(p \<mapsto> n\<lparr>nnext := v\<rparr>)) = node_vals h"
    and "holds_val (h(p \<mapsto> n\<lparr>nnext := v\<rparr>)) = holds_val h"
  using assms by (auto simp: fun_eq_iff node_vals_def holds_val_def split: option.splits)

lemma node_free_holds: "holds_val h p \<Longrightarrow> \<exists>t. node_free p h = Inr (t, h(p := None)) \<and> node_vals h p = [t]"
  by (auto simp: node_free_def deref_def dest: holds_valD)

section \<open>The invariant of a disciplined run\<close>

text \<open>
  \<open>as\<close> are the addresses of the queued nodes in order.  Two neighbours are linked, or a thread that
  has swung the tail is about to link them; a new node that is not the tail yet belongs to one thread
  and is not in the list.
\<close>

fun linking :: "ppc \<Rightarrow> (ptr \<times> ptr) option" where
  "linking (PCnt v u) = Some (u, v)"
| "linking (PLink v u) = Some (u, v)"
| "linking _ = None"

fun newnode :: "ppc \<Rightarrow> ptr option" where
  "newnode (PLoad v) = Some v"
| "newnode (PCas v u) = Some v"
| "newnode _ = None"

fun unlinked :: "'a cpc \<Rightarrow> ptr option" where
  "unlinked (CFree hn) = Some hn"
| "unlinked _ = None"

definition list_inv :: "'a lqueue \<Rightarrow> ptr list \<Rightarrow> bool" where
  "list_inv q as \<longleftrightarrow> heap q null = None \<and> distinct (dummyhead q # as) \<and> tail q = last (dummyhead q # as) \<and>
     (\<exists>n. heap q (dummyhead q) = Some n \<and> nt n = None) \<and> (\<forall>a\<in>set as. holds_val (heap q) a) \<and>
     nxt (heap q) (tail q) = null"

definition link_inv :: "'a lqueue \<Rightarrow> (nat \<Rightarrow> ppc) \<Rightarrow> ptr list \<Rightarrow> bool" where
  "link_inv q P as \<longleftrightarrow>
     (\<forall>u v. adj u v (dummyhead q # as) \<longrightarrow>
        nxt (heap q) u = v \<or> nxt (heap q) u = null \<and> (\<exists>t. linking (P t) = Some (u, v))) \<and>
     (\<forall>t u v. linking (P t) = Some (u, v) \<longrightarrow> adj u v (dummyhead q # as) \<and> nxt (heap q) u = null) \<and>
     (\<forall>t t' u v. linking (P t) = Some (u, v) \<longrightarrow> linking (P t') = Some (u, v) \<longrightarrow> t = t')"

definition new_inv :: "'a lqueue \<Rightarrow> (nat \<Rightarrow> ppc) \<Rightarrow> 'a cpc \<Rightarrow> ptr list \<Rightarrow> bool" where
  "new_inv q P c as \<longleftrightarrow>
     (\<forall>t v. newnode (P t) = Some v \<longrightarrow>
        v \<notin> set as \<and> unlinked c \<noteq> Some v \<and> holds_val (heap q) v \<and> nxt (heap q) v = null) \<and>
     (\<forall>t t' v. newnode (P t) = Some v \<longrightarrow> newnode (P t') = Some v \<longrightarrow> t = t')"

fun lq_cons_inv :: "'a lqueue \<Rightarrow> 'a cpc \<Rightarrow> ptr list \<Rightarrow> bool" where
  "lq_cons_inv q (CNext d) as \<longleftrightarrow> d = dummyhead q"
| "lq_cons_inv q (CLoad d hn) as \<longleftrightarrow> d = dummyhead q \<and> nxt (heap q) d = hn \<and> hn \<noteq> null"
| "lq_cons_inv q (CStore d hn n) as \<longleftrightarrow> d = dummyhead q \<and> nxt (heap q) d = hn \<and> hn \<noteq> null \<and>
     nxt (heap q) hn = n \<and> n \<noteq> null"
| "lq_cons_inv q (CFree hn) as \<longleftrightarrow> hn \<notin> set (dummyhead q # as) \<and> holds_val (heap q) hn"
| "lq_cons_inv q _ as \<longleftrightarrow> True"

definition in_hand :: "'a lqueue \<Rightarrow> 'a cpc \<Rightarrow> 'a list" where
  "in_hand q c = (case c of CFree hn \<Rightarrow> node_vals (heap q) hn | CSub t \<Rightarrow> [t] | CRet (Some t) \<Rightarrow> [t] | _ \<Rightarrow> [])"

definition lq_inv :: "'a lqsys \<Rightarrow> bool" where
  "lq_inv s \<longleftrightarrow> fault s = None \<and> (\<exists>as. list_inv (lq s) as \<and> link_inv (lq s) (ppc s) as \<and>
     new_inv (lq s) (ppc s) (cpc s) as \<and> lq_cons_inv (lq s) (cpc s) as \<and>
     pushed (lq s) = popped s @ in_hand (lq s) (cpc s) @ concat (map (node_vals (heap (lq s))) as))"

definition core :: "'a lqueue \<Rightarrow> (nat \<Rightarrow> ppc) \<Rightarrow> 'a cpc \<Rightarrow> ptr list \<Rightarrow> bool" where
  "core q P c as \<longleftrightarrow> list_inv q as \<and> link_inv q P as \<and> new_inv q P c as \<and> lq_cons_inv q c as"

lemma coreD:
  assumes "core q P c as"
  shows "list_inv q as" "link_inv q P as" "new_inv q P c as" "lq_cons_inv q c as"
  using assms by (simp_all add: core_def)

lemma coreI: "list_inv q as \<Longrightarrow> link_inv q P as \<Longrightarrow> new_inv q P c as \<Longrightarrow> lq_cons_inv q c as \<Longrightarrow> core q P c as"
  by (simp add: core_def)

lemma listD:
  assumes "list_inv q as"
  shows "heap q null = None" "distinct (dummyhead q # as)" "tail q = last (dummyhead q # as)"
    "\<exists>n. heap q (dummyhead q) = Some n \<and> nt n = None" "a \<in> set as \<Longrightarrow> holds_val (heap q) a"
    "nxt (heap q) (last (dummyhead q # as)) = null" "dummyhead q \<notin> set as" "distinct as"
  using assms by (auto simp: list_inv_def)

lemma holds_alive: "holds_val h p \<Longrightarrow> h p \<noteq> None"
  by (auto simp: holds_val_def split: option.splits)

lemma list_alive: "list_inv q as \<Longrightarrow> p \<in> set (dummyhead q # as) \<Longrightarrow> \<exists>n. heap q p = Some n"
  using listD(4,5) by (fastforce dest: holds_alive)

lemma list_not_null: "list_inv q as \<Longrightarrow> null \<notin> set (dummyhead q # as)"
  using list_alive [of q as null] listD(1) [of q as] by fastforce

lemma dummy_no_val: "list_inv q as \<Longrightarrow> \<not> holds_val (heap q) (dummyhead q)"
  using listD(4) by (fastforce simp: holds_val_def)

lemma linkD:
  assumes "link_inv q P as" 
  shows "adj u v (dummyhead q # as) \<Longrightarrow> nxt (heap q) u = v \<or> nxt (heap q) u = null \<and> (\<exists>t. linking (P t) = Some (u, v))"
    and "linking (P t) = Some (u, v) \<Longrightarrow> adj u v (dummyhead q # as) \<and> nxt (heap q) u = null"
    and "linking (P t) = Some (u, v) \<Longrightarrow> linking (P t') = Some (u, v) \<Longrightarrow> t = t'"
  using assms unfolding link_inv_def by blast+

lemma newD:
  assumes "new_inv q P c as" "newnode (P t) = Some v"
  shows "v \<notin> set as" "unlinked c \<noteq> Some v" "holds_val (heap q) v" "nxt (heap q) v = null"
    "newnode (P t') = Some v \<Longrightarrow> t = t'"
  using assms unfolding new_inv_def by blast+

text \<open>A non-null successor is the next element of the list.\<close>

lemma nxt_adj:
  assumes l: "list_inv q as" and k: "link_inv q P as" and u: "u \<in> set (dummyhead q # as)" and n: "nxt (heap q) u \<noteq> null"
  shows "adj u (nxt (heap q) u) (dummyhead q # as)"
proof -
  have "u \<noteq> last (dummyhead q # as)" using n listD(6) [OF l] by metis
  then obtain v where v: "adj u v (dummyhead q # as)" using adj_ex [OF u] by blast
  with linkD(1) [OF k] n show ?thesis by metis
qed

lemma list_inv_cong:
  assumes "list_inv q as" "dummyhead q' = dummyhead q" "tail q' = tail q" "heap q' null = None"
    and "\<And>p. p \<in> set (dummyhead q # as) \<Longrightarrow> map_option nt (heap q' p) = map_option nt (heap q p)"
    and "nxt (heap q') (tail q) = null"
  shows "list_inv q' as"
proof -
  have "holds_val (heap q') a" if "a \<in> set as" for a
    using assms(5) [of a] listD(5) [OF assms(1) that] that by (auto simp: holds_val_def split: option.splits)
  moreover have "\<exists>n. heap q' (dummyhead q) = Some n \<and> nt n = None"
    using assms(5) [of "dummyhead q"] listD(4) [OF assms(1)] by auto
  ultimately show ?thesis
    using assms(1-4,6) unfolding list_inv_def by simp
qed

lemma link_inv_cong:
  assumes "link_inv q P as" "dummyhead q' = dummyhead q"
    and "\<And>p. p \<in> set (dummyhead q # as) \<Longrightarrow> nxt (heap q') p = nxt (heap q) p"
    and "\<And>t. linking (P' t) = linking (P t)"
  shows "link_inv q' P' as"
proof -
  have "nxt (heap q') u = nxt (heap q) u" if "adj u v (dummyhead q # as)" for u v
    using adj_set [OF that] assms(3) by blast
  then show ?thesis
    using assms(1) unfolding link_inv_def assms(2,4) by metis
qed

lemma new_inv_cong:
  assumes "new_inv q P c as"
    and "\<And>t v. newnode (P' t) = Some v \<Longrightarrow> newnode (P t) = Some v \<and> unlinked c' \<noteq> Some v \<and> v \<notin> set as' \<and> 
      (holds_val (heap q') v \<longleftrightarrow> holds_val (heap q) v) \<and> nxt (heap q') v = nxt (heap q) v"
  shows "new_inv q' P' c' as'"
  using assms unfolding new_inv_def by metis

lemma nxt_in_list: "list_inv q as \<Longrightarrow> link_inv q P as \<Longrightarrow> u \<in> set (dummyhead q # as) \<Longrightarrow>
    nxt (heap q) u \<noteq> null \<Longrightarrow> nxt (heap q) u \<in> set as"
  by (drule (3) nxt_adj) (auto dest: adj_set)

lemma lq_cons_inv_cong:
  assumes "lq_cons_inv q c as" "list_inv q as" "link_inv q P as" "dummyhead q' = dummyhead q"
    and n: "\<And>p. p \<in> set (dummyhead q # as) \<Longrightarrow> nxt (heap q) p \<noteq> null \<Longrightarrow> nxt (heap q') p = nxt (heap q) p"
    and u: "\<And>p. unlinked c = Some p \<Longrightarrow> p \<notin> set as' \<and> holds_val (heap q') p"
  shows "lq_cons_inv q' c as'"
  using assms(1) n [of "dummyhead q"] n [of "nxt (heap q) (dummyhead q)"] u
    nxt_in_list [OF assms(2,3), of "dummyhead q"] assms(4)
  by (cases c) auto

lemma core_alloc:
  assumes c: "core q P c as" and t: "P t = PIdle" and a: "a \<noteq> null" "heap q a = None"
  shows "core (q\<lparr>heap := node_new a x (heap q)\<rparr>) (P(t := PLoad a)) c as" (is "core ?q ?P c as")
proof -
  note l = coreD(1) [OF c] and k = coreD(2) [OF c] and n = coreD(3) [OF c] and cc = coreD(4) [OF c]
  have na: "a \<notin> set (dummyhead q # as)" using list_alive [OF l] a by fastforce
  have no: "newnode (P t') \<noteq> Some a" for t' using newD(3) [OF n, of t' a] a by (auto dest: holds_alive)
  have nu: "unlinked c \<noteq> Some a" using cc a by (cases c) (auto dest: holds_alive)
  have "tail q \<in> set (dummyhead q # as)" unfolding listD(3) [OF l] by (metis last_in_set list.discI)
  then have "list_inv ?q as"
    using na a listD(1,6) [OF l] listD(3) [OF l] by (intro list_inv_cong [OF l]) (auto simp: node_new_def)
  moreover have "link_inv ?q ?P as"
    using na t by (intro link_inv_cong [OF k]) (auto simp: node_new_def)
  moreover have "new_inv ?q ?P c as"
    using n na no nu t by (auto simp: new_inv_def node_new_def)
  moreover have "lq_cons_inv ?q c as"
    using na nu cc by (intro lq_cons_inv_cong [OF cc l k]) (auto simp: node_new_def, (cases c; simp)+)
  ultimately show ?thesis by (simp add: core_def)
qed

lemma core_cas:
  assumes c: "core q P c as" and t: "P t = PCas new (tail q)"
  shows "core (q\<lparr>tail := new, pushed := ps\<rparr>) (P(t := PCnt new (tail q))) c (as @ [new])" (is "core ?q ?P c ?as")
proof -
  note l = coreD(1) [OF c] and k = coreD(2) [OF c] and n = coreD(3) [OF c] and cc = coreD(4) [OF c]
  have p: "newnode (P t) = Some new" using t by simp
  note d = newD [OF n p]
  have nd: "new \<notin> set (dummyhead q # as)" using d(1,3) dummy_no_val [OF l] by auto
  have l0: "linking (P t) = None" using t by simp
  have lp: "linking (?P t') = (if t' = t then Some (tail q, new) else linking (P t'))" for t' by simp
  have ad: "adj u v (dummyhead q # ?as) \<longleftrightarrow> adj u v (dummyhead q # as) \<or> u = tail q \<and> v = new" for u v
    using adj_snoc [of u v "dummyhead q # as" new] listD(3) [OF l] by simp
  have nl: "linking (P t') \<noteq> Some (u, new)" for t' u
    using linkD(2) [OF k, of t' u new] adj_set [of u new "dummyhead q # as"] nd by auto
  have "list_inv ?q ?as"
    using l nd d(3,4) by (auto simp: list_inv_def)
  moreover have "link_inv ?q ?P ?as"
    unfolding link_inv_def
  proof (intro conjI allI impI)
    fix u v assume "adj u v (dummyhead ?q # ?as)"
    then consider "adj u v (dummyhead q # as)" | "u = tail q" "v = new" by (auto simp: ad)
    then show "nxt (heap ?q) u = v \<or> nxt (heap ?q) u = null \<and> (\<exists>t. linking (?P t) = Some (u, v))"
    proof cases
      case 1
      have "\<exists>t'. linking (?P t') = Some (u, v)" if "linking (P t'') = Some (u, v)" for t''
        using that l0 lp [of t''] by (intro exI [of _ t'']) auto
      with linkD(1) [OF k 1] have "nxt (heap q) u = v \<or> nxt (heap q) u = null \<and> (\<exists>t. linking (?P t) = Some (u, v))"
        by metis
      then show ?thesis by simp
    next
      case 2
      then show ?thesis using listD(3,6) [OF l] lp [of t] by auto
    qed
  next
    fix t' u v assume "linking (?P t') = Some (u, v)"
    then show "adj u v (dummyhead ?q # ?as)" "nxt (heap ?q) u = null"
      using linkD(2) [OF k, of t' u v] listD(3,6) [OF l] by (auto simp: ad lp split: if_splits)
  next
    fix t' t'' u v assume "linking (?P t') = Some (u, v)" "linking (?P t'') = Some (u, v)"
    then show "t' = t''" using linkD(3) [OF k] nl by (auto simp: lp split: if_splits)
  qed
  moreover have "new_inv ?q ?P c ?as"
    using newD [OF n] p by (intro new_inv_cong [OF n]) (auto split: if_splits)
  moreover have "lq_cons_inv ?q c ?as"
    using cc d(2) nd by (intro lq_cons_inv_cong [OF cc l k]) (auto, (cases c; simp)+)
  ultimately show ?thesis by (simp add: core_def)
qed

lemma core_cnt [simp]: "core (q\<lparr>cnt := i\<rparr>) P c as \<longleftrightarrow> core q P c as"
  by (cases c) (simp_all add: core_def list_inv_def link_inv_def new_inv_def)

lemma core_local:
  assumes c: "core q P c as" and t: "linking pc = linking (P t)" "newnode pc = newnode (P t)"
  shows "core q (P(t := pc)) c as" "core (q\<lparr>cnt := i\<rparr>) (P(t := pc)) c as"
proof -
  note l = coreD(1) [OF c] and k = coreD(2) [OF c] and n = coreD(3) [OF c] and cc = coreD(4) [OF c]
  have "link_inv q (P(t := pc)) as" by (rule link_inv_cong [OF k]) (use t in auto)
  moreover have "new_inv q (P(t := pc)) c as" 
  proof (rule new_inv_cong [OF n])
    fix t' v assume "newnode ((P(t := pc)) t') = Some v"
    then have p: "newnode (P t') = Some v" using t by (simp split: if_splits)
    show "newnode (P t') = Some v \<and> unlinked c \<noteq> Some v \<and> v \<notin> set as \<and>
      (holds_val (heap q) v \<longleftrightarrow> holds_val (heap q) v) \<and> nxt (heap q) v = nxt (heap q) v"
      using newD(1-4) [OF n p] p by simp
  qed
  ultimately show 1: "core q (P(t := pc)) c as" using l cc by (blast intro: coreI)
  from 1 show "core (q\<lparr>cnt := i\<rparr>) (P(t := pc)) c as" by simp
qed

lemma core_link:
  assumes c: "core q P c as" and t: "P t = PLink new old"
  shows "\<exists>n. heap q old = Some n \<and> set_next old new (heap q) = Inr ((heap q)(old \<mapsto> n\<lparr>nnext := new\<rparr>)) \<and>
    core (q\<lparr>heap := (heap q)(old \<mapsto> n\<lparr>nnext := new\<rparr>)\<rparr>) (P(t := PIdle)) c as"
proof -
  note l = coreD(1) [OF c] and k = coreD(2) [OF c] and n = coreD(3) [OF c] and cc = coreD(4) [OF c]
  have p: "linking (P t) = Some (old, new)" using t by simp
  note d = linkD(2) [OF k p]
  have o: "old \<in> set (dummyhead q # as)" using d adj_set by metis
  obtain m where m: "heap q old = Some m" using list_alive [OF l o] by blast
  let ?h = "(heap q)(old \<mapsto> m\<lparr>nnext := new\<rparr>)"
  let ?q = "q\<lparr>heap := ?h\<rparr>" and ?P = "P(t := PIdle)"
  note H = set_next_heap [where h = "heap q" and p = old and n = m and v = new, OF m]
  have nt: "old \<noteq> tail q" using d adj_last [OF listD(2) [OF l]] listD(3) [OF l] by metis
  have "old \<noteq> null" using o list_not_null [OF l] by metis
  then have "list_inv ?q as"
    using m nt o listD(1,6) [OF l] listD(3) [OF l] by (intro list_inv_cong [OF l]) (auto simp: H)
  moreover have "link_inv ?q ?P as"
    unfolding link_inv_def
  proof (intro conjI allI impI)
    fix u v assume "adj u v (dummyhead ?q # as)"
    then have a: "adj u v (dummyhead q # as)" by simp
    show "nxt (heap ?q) u = v \<or> nxt (heap ?q) u = null \<and> (\<exists>t. linking (?P t) = Some (u, v))"
    proof (cases "u = old")
      case True
      then have "v = new" using adj_fun [OF listD(2) [OF l]] a d by blast
      with True show ?thesis by (simp add: H)
    next
      case False
      with linkD(1) [OF k a] p have "nxt (heap q) u = v \<or> nxt (heap q) u = null \<and> (\<exists>t. linking (?P t) = Some (u, v))"
        by (metis fun_upd_other old.prod.inject option.inject)
      with False show ?thesis by (simp add: H)
    qed
  next
    fix t' u v assume a: "linking (?P t') = Some (u, v)"
    then have n': "t' \<noteq> t" "linking (P t') = Some (u, v)" by (auto split: if_splits)
    note e = linkD(2) [OF k n'(2)]
    have "u \<noteq> old"
    proof
      assume "u = old"
      then have "v = new" using adj_fun [OF listD(2) [OF l]] e d by blast
      then show False using linkD(3) [OF k p] n' \<open>u = old\<close> by blast
    qed
    then show "adj u v (dummyhead ?q # as)" "nxt (heap ?q) u = null" using e by (auto simp: H)
  next
    fix t' t'' u v assume "linking (?P t') = Some (u, v)" "linking (?P t'') = Some (u, v)"
    then show "t' = t''" using linkD(3) [OF k] by (auto split: if_splits)
  qed
  moreover have "new_inv ?q ?P c as"
  proof (rule new_inv_cong [OF n])
    fix t' v assume "newnode (?P t') = Some v"
    then have "newnode (P t') = Some v" by (auto split: if_splits)
    note e = newD(1-4) [OF n this]
    have "v \<noteq> old" using e(1,3) o dummy_no_val [OF l] by auto
    then show "newnode (P t') = Some v \<and> unlinked c \<noteq> Some v \<and> v \<notin> set as \<and>
      (holds_val (heap ?q) v \<longleftrightarrow> holds_val (heap q) v) \<and> nxt (heap ?q) v = nxt (heap q) v"
      using e \<open>newnode (P t') = Some v\<close> by (simp add: H)
  qed
  moreover have "lq_cons_inv ?q c as"
    using cc d by (intro lq_cons_inv_cong [OF cc l k]) (auto simp: H, (cases c; simp)+)
  ultimately show ?thesis using m by (simp add: core_def set_next_Some)
qed

text \<open>The consumer.\<close>

lemma core_consumer:
  assumes c: "core q P c as" and u: "unlinked c' = unlinked c" "lq_cons_inv q c' as"
  shows "core q P c' as"
proof (rule coreI [OF coreD(1,2) [OF c] _ u(2)])
  show "new_inv q P c' as" by (rule new_inv_cong [OF coreD(3) [OF c]]) (use newD(1-4) [OF coreD(3) [OF c]] u in simp)
qed

lemma core_read_next:
  assumes c: "core q P (CNext d) as"
  shows "\<exists>n. heap q d = Some n \<and> core q P (if nnext n = null then CHead else CLoad d (nnext n)) as"
proof -
  note l = coreD(1) [OF c]
  have d: "d = dummyhead q" using coreD(4) [OF c] by simp
  obtain n where n: "heap q d = Some n" using listD(4) [OF l] d by blast
  then have "nxt (heap q) d = nnext n" by (simp add: nxt_def)
  then have "core q P (if nnext n = null then CHead else CLoad d (nnext n)) as"
    using d by (intro core_consumer [OF c]) auto
  with n show ?thesis by blast
qed

lemma core_load:
  assumes c: "core q P (CLoad d hn) as"
  shows "\<exists>n. heap q hn = Some n \<and> (nnext n \<noteq> null \<longrightarrow> core q P (CStore d hn (nnext n)) as)"
proof -
  note l = coreD(1) [OF c] and k = coreD(2) [OF c]
  have d: "d = dummyhead q" "nxt (heap q) d = hn" "hn \<noteq> null" using coreD(4) [OF c] by auto
  have "hn \<in> set as" using nxt_in_list [OF l k, of d] d by simp
  then obtain n where n: "heap q hn = Some n" using listD(5) [OF l] by (auto dest: holds_valD)
  then have "nxt (heap q) hn = nnext n" by (simp add: nxt_def)
  then have "nnext n \<noteq> null \<longrightarrow> core q P (CStore d hn (nnext n)) as"
    using d by (intro impI core_consumer [OF c]) auto
  with n show ?thesis by blast
qed

lemma core_store:
  assumes c: "core q P (CStore d hn nx) as"
  shows "\<exists>n bs. heap q d = Some n \<and> as = hn # bs \<and>
    core (q\<lparr>heap := (heap q)(d \<mapsto> n\<lparr>nnext := nx\<rparr>)\<rparr>) P (CFree hn) bs"
proof -
  note l = coreD(1) [OF c] and k = coreD(2) [OF c] and n = coreD(3) [OF c]
  have d: "d = dummyhead q" "nxt (heap q) d = hn" "hn \<noteq> null" "nxt (heap q) hn = nx" "nx \<noteq> null"
    using coreD(4) [OF c] by auto
  obtain m where m: "heap q d = Some m" "nt m = None" using listD(4) [OF l] d(1) by blast
  have "adj d hn (d # as)" using nxt_adj [OF l k, of d] d by simp
  then obtain bs where bs: "as = hn # bs" using adj_hd [of d as hn] listD(2) [OF l] d(1) by auto
  have "adj hn nx (d # as)" using nxt_adj [OF l k, of hn] d bs by simp
  then obtain cs where cs: "bs = nx # cs"
    using adj_hd [of hn bs nx] listD(2) [OF l] d(1) bs by (auto simp: adj_Cons dest: adj_set)
  let ?h = "(heap q)(d \<mapsto> m\<lparr>nnext := nx\<rparr>)"
  let ?q = "q\<lparr>heap := ?h\<rparr>"
  note H = set_next_heap [where h = "heap q" and p = d and n = m and v = nx, OF m(1)]
  have a: "adj u v (d # bs) \<longleftrightarrow> u = d \<and> v = nx \<or> adj u v (dummyhead q # as) \<and> u \<noteq> d \<and> u \<noteq> hn" for u v
    using listD(2) [OF l] d(1) unfolding bs cs by (auto dest: adj_set)
  have "list_inv ?q bs"
    unfolding list_inv_def
  proof (intro conjI)
    show "heap ?q null = None" using list_not_null [OF l] listD(1) [OF l] d(1) by simp
    show "distinct (dummyhead ?q # bs)" using listD(2) [OF l] bs by simp
    show "tail ?q = last (dummyhead ?q # bs)" using listD(3) [OF l] bs cs by simp
    show "\<exists>n. heap ?q (dummyhead ?q) = Some n \<and> nt n = None" using m d(1) by simp
    show "\<forall>a\<in>set bs. holds_val (heap ?q) a" using listD(5) [OF l] bs by (simp add: H)
    have "tail q \<noteq> d" using listD(2,3) [OF l] bs cs d(1) by (metis last_in_set distinct.simps(2) last_ConsR list.discI)
    then show "nxt (heap ?q) (tail ?q) = null" using listD(3,6) [OF l] by (simp add: H)
  qed
  moreover have "link_inv ?q P bs"
  proof -
    have nl: "linking (P t) = Some (u, v) \<Longrightarrow> u \<noteq> d \<and> u \<noteq> hn" for t u v
      using linkD(2) [OF k, of t u v] d by auto
    show ?thesis
      unfolding link_inv_def
    proof (intro conjI allI impI)
      fix u v assume "adj u v (dummyhead ?q # bs)"
      then have "u = d \<and> v = nx \<or> adj u v (dummyhead q # as) \<and> u \<noteq> d" using a d(1) by auto
      then show "nxt (heap ?q) u = v \<or> nxt (heap ?q) u = null \<and> (\<exists>t. linking (P t) = Some (u, v))"
        using linkD(1) [OF k, of u v] by (auto simp: H)
    next
      fix t u v assume t: "linking (P t) = Some (u, v)"
      then show "adj u v (dummyhead ?q # bs)" "nxt (heap ?q) u = null"
        using linkD(2) [OF k t] nl [OF t] a [of u v] d(1) by (auto simp: H)
    next
      fix t t' u v assume "linking (P t) = Some (u, v)" "linking (P t') = Some (u, v)"
      then show "t = t'" by (rule linkD(3) [OF k])
    qed
  qed
  moreover have "new_inv ?q P (CFree hn) bs"
  proof (rule new_inv_cong [OF n])
    fix t v assume p: "newnode (P t) = Some v"
    note e = newD(1-4) [OF n p]
    have "v \<noteq> d" using e(3) dummy_no_val [OF l] d(1) by auto
    then show "newnode (P t) = Some v \<and> unlinked (CFree hn) \<noteq> Some v \<and> v \<notin> set bs \<and>
      (holds_val (heap ?q) v \<longleftrightarrow> holds_val (heap q) v) \<and> nxt (heap ?q) v = nxt (heap q) v"
      using e p bs by (simp add: H)
  qed
  moreover have "lq_cons_inv ?q (CFree hn) bs"
    using listD(2,5) [OF l] bs by (auto simp: H)
  ultimately show ?thesis using m(1) bs by (blast intro: coreI)
qed

lemma core_free:
  assumes c: "core q P (CFree hn) as"
  shows "\<exists>t. node_free hn (heap q) = Inr (t, (heap q)(hn := None)) \<and> node_vals (heap q) hn = [t] \<and>
    core (q\<lparr>heap := (heap q)(hn := None)\<rparr>) P (CSub t) as"
proof -
  note l = coreD(1) [OF c] and k = coreD(2) [OF c] and n = coreD(3) [OF c]
  have d: "hn \<notin> set (dummyhead q # as)" "holds_val (heap q) hn" using coreD(4) [OF c] by auto
  obtain t where t: "node_free hn (heap q) = Inr (t, (heap q)(hn := None))" "node_vals (heap q) hn = [t]"
    using node_free_holds [OF d(2)] by blast
  let ?q = "q\<lparr>heap := (heap q)(hn := None)\<rparr>"
  have "list_inv ?q as" by (rule list_inv_cong [OF l]) (use d listD(1,6) [OF l] listD(3) [OF l] in auto)
  moreover have "link_inv ?q P as" by (rule link_inv_cong [OF k]) (use d in auto)
  moreover have "new_inv ?q P (CSub t) as"
  proof (rule new_inv_cong [OF n])
    fix t' v assume p: "newnode (P t') = Some v"
    show "newnode (P t') = Some v \<and> unlinked (CSub t) \<noteq> Some v \<and> v \<notin> set as \<and>
      (holds_val (heap ?q) v \<longleftrightarrow> holds_val (heap q) v) \<and> nxt (heap ?q) v = nxt (heap q) v"
      using newD(1-4) [OF n p] p by simp
  qed
  ultimately have "core ?q P (CSub t) as" by (rule coreI) simp
  with t show ?thesis by blast
qed

section \<open>Every disciplined run keeps the invariant\<close>

definition content_inv :: "'a lqueue \<Rightarrow> 'a cpc \<Rightarrow> 'a list \<Rightarrow> ptr list \<Rightarrow> bool" where
  "content_inv q c ps as \<longleftrightarrow> pushed q = ps @ in_hand q c @ concat (map (node_vals (heap q)) as)"

lemma lq_inv_iff: "lq_inv s \<longleftrightarrow> fault s = None \<and>
    (\<exists>as. core (lq s) (ppc s) (cpc s) as \<and> content_inv (lq s) (cpc s) (popped s) as)"
  by (auto simp: lq_inv_def core_def content_inv_def)

lemma lq_invI: "fault s = None \<Longrightarrow> core (lq s) (ppc s) (cpc s) as \<Longrightarrow> content_inv (lq s) (cpc s) (popped s) as \<Longrightarrow> lq_inv s"
  by (auto simp: lq_inv_iff)

lemma content_cong:
  assumes "content_inv q c ps as" "pushed q' = pushed q"
    and "\<And>p. p \<in> set as \<or> unlinked c = Some p \<Longrightarrow> node_vals (heap q') p = node_vals (heap q) p"
  shows "content_inv q' c ps as"
proof -
  have "in_hand q' c = in_hand q c" using assms(3) by (cases c) (simp_all add: in_hand_def)
  moreover have "map (node_vals (heap q')) as = map (node_vals (heap q)) as" using assms(3) by simp
  ultimately show ?thesis using assms(1,2) by (simp only: content_inv_def)
qed

lemma lq_inv_push:
  assumes i: "lq_inv s" and st: "lqsys_step s (LqPush t a x) = Some s'"
  shows "lq_inv s'"
proof -
  obtain as where c: "core (lq s) (ppc s) (cpc s) as" and ct: "content_inv (lq s) (cpc s) (popped s) as"
    and f: "fault s = None" using i by (auto simp: lq_inv_iff)
  let ?q = "(lq s)\<lparr>heap := node_new a x (heap (lq s))\<rparr>"
  have p: "ppc s t = PIdle" "a \<noteq> null" "heap (lq s) a = None"
    and s': "s' = s\<lparr>lq := ?q, ppc := (ppc s)(t := PLoad a)\<rparr>"
    using st by (auto split: if_splits)
  have "a \<notin> set as" using list_alive [OF coreD(1) [OF c], of a] p by auto
  moreover have "unlinked (cpc s) \<noteq> Some a" using coreD(4) [OF c] p by (cases "cpc s") (auto dest: holds_alive)
  ultimately have "content_inv ?q (cpc s) (popped s) as"
    by (intro content_cong [OF ct]) (auto simp: node_new_def)
  then show ?thesis
    by (intro lq_invI [where as = as]) (use core_alloc [OF c p] f s' in simp_all)
qed

lemma lq_inv_tx:
  assumes i: "lq_inv s" and st: "lqsys_step s (LqTx t w) = Some s'"
  shows "lq_inv s'"
proof -
  obtain as where c: "core (lq s) (ppc s) (cpc s) as" and ct: "content_inv (lq s) (cpc s) (popped s) as"
    and f: "fault s = None" using i by (auto simp: lq_inv_iff)
  show ?thesis
  proof (cases "ppc s t")
    case PIdle
    with st show ?thesis by simp
  next
    case (PLoad new)
    then have "s' = s\<lparr>ppc := (ppc s)(t := PCas new (tail (lq s)))\<rparr>" using st by simp
    then show ?thesis using core_local(1) [OF c, of "PCas new (tail (lq s))" t] PLoad ct f
      by (intro lq_invI [where as = as]) simp_all
  next
    case (PCas new old)
    show ?thesis
    proof (cases "\<not> w \<and> tail (lq s) = old")
      case True
      let ?q = "(lq s)\<lparr>tail := new, pushed := pushed (lq s) @ node_vals (heap (lq s)) new\<rparr>"
      have s': "s' = s\<lparr>lq := ?q, ppc := (ppc s)(t := PCnt new (tail (lq s)))\<rparr>"
        using st PCas True by (simp add: compare_exchange_def)
      have "content_inv ?q (cpc s) (popped s) (as @ [new])"
        using ct by (cases "cpc s") (simp_all add: content_inv_def in_hand_def)
      then show ?thesis using core_cas [OF c, of t new] PCas True f s'
        by (intro lq_invI [where as = "as @ [new]"]) simp_all
    next
      case False
      have "s' = s\<lparr>ppc := (ppc s)(t := PLoad new)\<rparr>"
        using st PCas False by (auto simp: compare_exchange_def split: if_splits)
      then show ?thesis using core_local(1) [OF c, of "PLoad new" t] PCas ct f
        by (intro lq_invI [where as = as]) simp_all
    qed
  next
    case (PCnt new old)
    let ?q = "(lq s)\<lparr>cnt := cnt (lq s) + 1\<rparr>"
    have s': "s' = s\<lparr>lq := ?q, ppc := (ppc s)(t := PLink new old)\<rparr>"
      using st PCnt by (simp add: fetch_add_def)
    have "content_inv ?q (cpc s) (popped s) as" by (rule content_cong [OF ct]) simp_all
    then show ?thesis using core_local(2) [OF c, of "PLink new old" t] PCnt f s'
      by (intro lq_invI [where as = as]) simp_all
  next
    case (PLink new old)
    obtain n where n: "heap (lq s) old = Some n"
      "set_next old new (heap (lq s)) = Inr ((heap (lq s))(old \<mapsto> n\<lparr>nnext := new\<rparr>))"
      "core ((lq s)\<lparr>heap := (heap (lq s))(old \<mapsto> n\<lparr>nnext := new\<rparr>)\<rparr>) ((ppc s)(t := PIdle)) (cpc s) as"
      using core_link [OF c PLink] by blast
    let ?q = "(lq s)\<lparr>heap := (heap (lq s))(old \<mapsto> n\<lparr>nnext := new\<rparr>)\<rparr>"
    have s': "s' = s\<lparr>lq := ?q, ppc := (ppc s)(t := PIdle)\<rparr>"
      using st PLink n(2) by simp
    have "content_inv ?q (cpc s) (popped s) as"
      by (rule content_cong [OF ct]) (use set_next_heap(2) [where h = "heap (lq s)" and p = old and n = n and v = new, OF n(1)] in simp_all)
    then show ?thesis using n(3) f s' by (intro lq_invI [where as = as]) simp_all
  qed
qed

lemma lq_inv_rx:
  assumes i: "lq_inv s" and g: "keeps_last s LqRx" and st: "lqsys_step s LqRx = Some s'"
  shows "lq_inv s'"
proof -
  obtain as where c: "core (lq s) (ppc s) (cpc s) as" and ct: "content_inv (lq s) (cpc s) (popped s) as"
    and f: "fault s = None" using i by (auto simp: lq_inv_iff)
  show ?thesis
  proof (cases "cpc s")
    case CIdle
    with st show ?thesis by simp
  next
    case CHead
    have s': "s' = s\<lparr>cpc := CNext (dummyhead (lq s))\<rparr>" using st CHead by simp
    have "core (lq s) (ppc s) (CNext (dummyhead (lq s))) as" by (rule core_consumer [OF c]) (use CHead in simp_all)
    then show ?thesis using ct CHead f s' by (intro lq_invI [where as = as]) (simp_all add: content_inv_def in_hand_def)
  next
    case (CNext d)
    obtain n where n: "heap (lq s) d = Some n"
      "core (lq s) (ppc s) (if nnext n = null then CHead else CLoad d (nnext n)) as"
      using core_read_next c CNext by metis
    have s': "s' = s\<lparr>cpc := if nnext n = null then CHead else CLoad d (nnext n)\<rparr>"
      using st CNext n(1) by (simp add: deref_def)
    show ?thesis using n(2) ct CNext f s' by (intro lq_invI [where as = as]) (simp_all add: content_inv_def in_hand_def)
  next
    case (CLoad d hn)
    obtain n where n: "heap (lq s) hn = Some n" "nnext n \<noteq> null \<longrightarrow> core (lq s) (ppc s) (CStore d hn (nnext n)) as"
      using core_load c CLoad by metis
    have s': "s' = s\<lparr>cpc := CStore d hn (nnext n)\<rparr>" using st CLoad n(1) by (simp add: deref_def)
    have "nnext n \<noteq> null" using g CLoad n(1) by (simp add: keeps_last_def)
    then show ?thesis using n(2) ct CLoad f s' by (intro lq_invI [where as = as]) (simp_all add: content_inv_def in_hand_def)
  next
    case (CStore d hn nx)
    obtain n bs where n: "heap (lq s) d = Some n" "as = hn # bs"
      "core ((lq s)\<lparr>heap := (heap (lq s))(d \<mapsto> n\<lparr>nnext := nx\<rparr>)\<rparr>) (ppc s) (CFree hn) bs"
      using core_store c CStore by metis
    let ?q = "(lq s)\<lparr>heap := (heap (lq s))(d \<mapsto> n\<lparr>nnext := nx\<rparr>)\<rparr>"
    have s': "s' = s\<lparr>lq := ?q, cpc := CFree hn\<rparr>" using st CStore n(1) by (simp add: set_next_Some)
    have "content_inv ?q (CFree hn) (popped s) bs"
      using ct CStore n(2) set_next_heap(2) [where h = "heap (lq s)" and p = d and n = n and v = nx, OF n(1)] by (simp add: content_inv_def in_hand_def)
    then show ?thesis using n(3) f s' by (intro lq_invI [where as = bs]) simp_all
  next
    case (CFree hn)
    obtain t where n: "node_free hn (heap (lq s)) = Inr (t, (heap (lq s))(hn := None))" "node_vals (heap (lq s)) hn = [t]"
      "core ((lq s)\<lparr>heap := (heap (lq s))(hn := None)\<rparr>) (ppc s) (CSub t) as"
      using core_free c CFree by metis
    let ?q = "(lq s)\<lparr>heap := (heap (lq s))(hn := None)\<rparr>"
    have s': "s' = s\<lparr>lq := ?q, cpc := CSub t\<rparr>" using st CFree n(1) by simp
    have "hn \<notin> set as" using coreD(4) [OF c] CFree by simp
    then have "map (node_vals (heap ?q)) as = map (node_vals (heap (lq s))) as" by auto
    then have "content_inv ?q (CSub t) (popped s) as"
      using ct CFree n(2) by (simp only: content_inv_def in_hand_def) simp
    then show ?thesis using n(3) f s' by (intro lq_invI [where as = as]) simp_all
  next
    case (CSub x)
    have s': "s' = s\<lparr>lq := (lq s)\<lparr>cnt := cnt (lq s) - 1\<rparr>, cpc := CRet (Some x)\<rparr>"
      using st CSub by (simp add: fetch_sub_def)
    have "core (lq s) (ppc s) (CRet (Some x)) as" by (rule core_consumer [OF c]) (use CSub in simp_all)
    then show ?thesis using ct CSub f s' by (intro lq_invI [where as = as]) (simp_all add: content_inv_def in_hand_def)
  next
    case (CRet r)
    have s': "s' = s\<lparr>cpc := CIdle, popped := popped s @ (case r of None \<Rightarrow> [] | Some x \<Rightarrow> [x])\<rparr>" using st CRet by simp
    have "core (lq s) (ppc s) CIdle as" by (rule core_consumer [OF c]) (use CRet in simp_all)
    then show ?thesis using ct CRet f s'
      by (intro lq_invI [where as = as]) (simp_all add: content_inv_def in_hand_def split: option.splits)
  qed
qed

lemma lq_inv_step:
  assumes "lq_inv s" "lq_kept s l = Some s'"
  shows "lq_inv s'"
proof -
  have g: "keeps_last s l" and st: "lqsys_step s l = Some s'"
    using assms(2) by (auto simp: lqsys_next_def dest!: restrict_ltsD split: if_splits)
  show ?thesis
  proof (cases l)
    case LqPop
    obtain as where c: "core (lq s) (ppc s) (cpc s) as" and ct: "content_inv (lq s) (cpc s) (popped s) as"
      and f: "fault s = None" using assms(1) by (auto simp: lq_inv_iff)
    have p: "cpc s = CIdle" and s': "s' = s\<lparr>cpc := pop_start (lq s)\<rparr>" using st LqPop by (auto split: if_splits)
    have "core (lq s) (ppc s) (pop_start (lq s)) as"
      by (rule core_consumer [OF c]) (use p in \<open>simp_all add: pop_start_def\<close>)
    then show ?thesis using ct p f s'
      by (intro lq_invI [where as = as]) (simp_all add: content_inv_def in_hand_def pop_start_def)
  qed (use assms g st in \<open>auto intro: lq_inv_push lq_inv_tx lq_inv_rx simp del: lqsys_step.simps\<close>)
qed

lemma lq_inv_init: "a \<noteq> null \<Longrightarrow> lq_inv (lqsys_init a)"
  by (intro lq_invI [where as = "[]"])
    (auto simp: core_def list_inv_def link_inv_def new_inv_def content_inv_def in_hand_def lqsys_init_def lq_new_def node_new_head_def)

section \<open>The counter\<close>

definition counting :: "(nat \<Rightarrow> ppc) \<Rightarrow> nat set" where
  "counting P = {t. \<exists>v u. P t = PCnt v u}"

definition returned :: "'a cpc \<Rightarrow> nat" where
  "returned c = (case c of CRet (Some x) \<Rightarrow> 1 | _ \<Rightarrow> 0)"

definition count_inv :: "'a lqsys \<Rightarrow> bool" where
  "count_inv s \<longleftrightarrow> finite (counting (ppc s)) \<and>
     cnt (lq s) + of_nat (card (counting (ppc s)) + length (popped s) + returned (cpc s)) = of_nat (length (pushed (lq s)))"

lemma counting_upd:
  "counting (P(t := pc)) = (if \<exists>v u. pc = PCnt v u then insert t (counting P) else counting P - {t})"
  by (auto simp: counting_def)

lemma counting_out: "(\<nexists>v u. P t = PCnt v u) \<Longrightarrow> counting P - {t} = counting P"
  by (auto simp: counting_def)

lemma count_inv_step:
  assumes i: "lq_inv s" and n: "count_inv s" and st: "lq_kept s l = Some s'"
  shows "count_inv s'"
proof -
  have sl: "lqsys_step s l = Some s'" and g: "keeps_last s l"
    using st by (auto simp: lqsys_next_def dest!: restrict_ltsD split: if_splits)
  have f': "fault s' = None" using lq_inv_step [OF i st] by (simp add: lq_inv_def)
  obtain as where c: "core (lq s) (ppc s) (cpc s) as" and f: "fault s = None" using i by (auto simp: lq_inv_iff)
  show ?thesis
  proof (cases l)
    case (LqPush t a x)
    then show ?thesis using n sl by (auto simp: count_inv_def counting_upd counting_out split: if_splits)
  next
    case (LqTx t w)
    show ?thesis
    proof (cases "ppc s t")
      case (PCas new old)
      have "holds_val (heap (lq s)) new" using newD(3) [OF coreD(3) [OF c], of t new] PCas by simp
      then obtain y where y: "node_vals (heap (lq s)) new = [y]" by (auto dest: holds_valD)
      have "t \<notin> counting (ppc s)" using PCas by (simp add: counting_def)
      then show ?thesis using n sl LqTx PCas y
        by (auto simp: count_inv_def counting_upd counting_out compare_exchange_def ac_simps split: if_splits)
    next
      case (PCnt new old)
      have t: "t \<in> counting (ppc s)" using PCnt by (simp add: counting_def)
      obtain k where k: "card (counting (ppc s)) = Suc k" "card (counting (ppc s) - {t}) = k"
        using n t card.remove [of "counting (ppc s)" t] by (simp add: count_inv_def)
      have s': "s' = s\<lparr>lq := (lq s)\<lparr>cnt := cnt (lq s) + 1\<rparr>, ppc := (ppc s)(t := PLink new old)\<rparr>"
        using sl LqTx PCnt by (simp add: fetch_add_def)
      then show ?thesis using n by (simp add: count_inv_def counting_upd k ac_simps)
    next
      case (PLink new old)
      then show ?thesis using n sl LqTx f f'
        by (auto simp: count_inv_def counting_upd counting_out bindE_def split: sum.splits)
    qed (use n sl LqTx in \<open>auto simp: count_inv_def counting_upd counting_out\<close>)
  next
    case LqPop
    then show ?thesis using n sl by (auto simp: count_inv_def returned_def pop_start_def split: if_splits)
  next
    case LqRx
    then show ?thesis using n sl f f'
      by (cases "cpc s") (auto simp: count_inv_def returned_def bindE_def fetch_sub_def algebra_simps split: sum.splits option.splits)
  qed
qed

lemma count_inv_init: "count_inv (lqsys_init a)"
  by (simp add: count_inv_def counting_def returned_def lqsys_init_def lq_new_def)

text \<open>The invariant of the disciplined system, as an instance of the generic invariant rule.\<close>

lemma lq_lts: "a \<noteq> null \<Longrightarrow> lts_invariant lq_kept (lqsys_init a) (\<lambda>s. lq_inv s \<and> count_inv s)"
  by unfold_locales (auto intro: lq_inv_init lq_inv_step count_inv_init count_inv_step)

lemmas lq_kept_inv = lts_invariant.inv_reaches [OF lq_lts]

lemma lq_keptD:
  assumes "a \<noteq> null" "reaches lq_kept (lqsys_init a) s"
  obtains as where "fault s = None" "core (lq s) (ppc s) (cpc s) as" "content_inv (lq s) (cpc s) (popped s) as" "count_inv s"
  using lq_kept_inv [OF assms] by (auto simp: lq_inv_iff)



text \<open>
  C23: The link queue is first-in first-out.  In every interleaving of any number of pushing threads and
  the consumer in which \<open>pop\<close> only frees a node whose successor is linked, no freed node is touched, no
  unwrap fails, and the values popped are a prefix of the values pushed, in the order in which their
  nodes became the tail.
\<close>

theorem lq_fifo:
  assumes "a \<noteq> null" "reaches lq_kept (lqsys_init a) s"
  shows "fault s = None \<and> (\<exists>vs. pushed (lq s) = popped s @ vs)"
proof -
  obtain as where "fault s = None" "content_inv (lq s) (cpc s) (popped s) as"
    using lq_keptD [OF assms] by blast
  then show ?thesis by (auto simp: content_inv_def)
qed

text \<open>A run of two threads: both swing the tail before either links; the consumer takes one value.\<close>

definition lq_run :: "nat lqlabel list" where
  "lq_run = [LqPush 0 2 5, LqPush 1 3 6, LqTx 0 False, LqTx 1 False, LqTx 1 False, LqTx 0 False, LqTx 0 False,
     LqTx 0 False, LqPop, LqRx, LqTx 1 False, LqTx 0 False, LqTx 0 False, LqTx 1 False]"




theorem lq_fifo_witness:
  "\<exists>s. reaches lq_kept (lqsys_init 1) s \<and> popped s = [6] \<and> pushed (lq s) = [6, 5::nat] \<and> fault s = None"
proof -
  have "run_ok lq_kept (lqsys_init 1) (lq_run @ LqPop # replicate 7 LqRx) (\<lambda>s. popped s = [6] \<and> pushed (lq s) = [6, 5])"
    by code_simp
  then obtain s where s: "reaches lq_kept (lqsys_init 1) s" "popped s = [6] \<and> pushed (lq s) = [6, 5::nat]"
    by (auto dest: run_ok_reaches)
  with lq_fifo [OF _ s(1)] show ?thesis by (intro exI [of _ s]) simp
qed

section \<open>A quiet queue\<close>









section \<open>Without the discipline\<close>

text \<open>
  In every run, disciplined or not, the dummy head stays allocated, empty and unreferenced until a
  fault occurs.
\<close>

fun ppc_new :: "ppc \<Rightarrow> ptr option" where
  "ppc_new PIdle = None"
| "ppc_new (PLoad v) = Some v"
| "ppc_new (PCas v u) = Some v"
| "ppc_new (PCnt v u) = Some v"
| "ppc_new (PLink v u) = Some v"

fun cpc_ptrs :: "'a cpc \<Rightarrow> ptr set" where
  "cpc_ptrs (CLoad d hn) = {hn}"
| "cpc_ptrs (CStore d hn n) = {hn, n}"
| "cpc_ptrs (CFree hn) = {hn}"
| "cpc_ptrs _ = {}"

definition dummy_inv :: "'a lqsys \<Rightarrow> bool" where
  "dummy_inv s \<longleftrightarrow> dummyhead (lq s) \<noteq> null \<and> (\<exists>n. heap (lq s) (dummyhead (lq s)) = Some n \<and> nt n = None) \<and>
     (\<forall>p n. heap (lq s) p = Some n \<longrightarrow> nnext n \<noteq> dummyhead (lq s)) \<and>
     (\<forall>t. ppc_new (ppc s t) \<noteq> Some (dummyhead (lq s))) \<and> dummyhead (lq s) \<notin> cpc_ptrs (cpc s)"

lemma push_step_new: "push_step w pc q = Some (Inr (pc', q')) \<Longrightarrow>
    (ppc_new pc' = ppc_new pc \<or> ppc_new pc' = None) \<and> dummyhead q' = dummyhead q"
  by (cases "(w, pc, q)" rule: push_step.cases) (auto simp: bindE_def split: if_splits sum.splits prod.splits)

lemma push_step_heap: "push_step w pc q = Some (Inr (pc', q')) \<Longrightarrow>
    heap q' = heap q \<or> (\<exists>v u n. pc = PLink v u \<and> heap q u = Some n \<and> heap q' = (heap q)(u \<mapsto> n\<lparr>nnext := v\<rparr>))"
  by (cases "(w, pc, q)" rule: push_step.cases)
    (auto simp: bindE_def set_next_def deref_def split: if_splits sum.splits prod.splits option.splits)

lemma dummy_inv_step:
  assumes i: "dummy_inv s" and st: "lqsys_next s l = Some s'"
  shows "dummy_inv s'"
proof -
  have sl: "lqsys_step s l = Some s'" using st by (auto simp: lqsys_next_def split: if_splits)
  show ?thesis
  proof (cases l)
    case (LqTx t w)
    show ?thesis
    proof (cases "push_step w (ppc s t) (lq s)")
      case None
      then show ?thesis using sl LqTx by simp
    next
      case (Some r)
      show ?thesis
      proof (cases r)
        case (Inl e)
        then show ?thesis using sl LqTx Some i by (auto simp: dummy_inv_def)
      next
        case (Inr pq)
        obtain pc q where pq: "pq = (pc, q)" by (cases pq)
        have s': "s' = s\<lparr>lq := q, ppc := (ppc s)(t := pc)\<rparr>" using sl LqTx Some Inr pq by simp
        note p = push_step_new [OF Some [unfolded Inr pq]] push_step_heap [OF Some [unfolded Inr pq]]
        show ?thesis using p(2)
        proof (elim disjE exE conjE)
          assume "heap q = heap (lq s)"
          then show ?thesis using i p(1) by (auto simp: dummy_inv_def s')
        next
          fix v u n assume "ppc s t = PLink v u" "heap (lq s) u = Some n" "heap q = (heap (lq s))(u \<mapsto> n\<lparr>nnext := v\<rparr>)"
          moreover have "v \<noteq> dummyhead (lq s)" using i calculation(1) by (auto simp: dummy_inv_def dest: spec [of _ t])
          ultimately show ?thesis using i p(1) by (auto simp: dummy_inv_def s')
        qed
      qed
    qed
  next
    case LqRx
    have nn: "heap (lq s) p = Some n \<Longrightarrow> nnext n \<noteq> dummyhead (lq s)" for p n using i by (simp add: dummy_inv_def)
    show ?thesis
      using sl LqRx i
      by (cases "cpc s") (auto dest: nn simp: dummy_inv_def bindE_def set_next_def deref_def node_free_def
          split: if_splits sum.splits prod.splits option.splits)
  qed (use sl i in \<open>auto simp: dummy_inv_def node_new_def pop_start_def split: if_splits\<close>)
qed

lemma dummy_inv_init: "a \<noteq> null \<Longrightarrow> dummy_inv (lqsys_init a)"
  by (auto simp: dummy_inv_def lqsys_init_def lq_new_def node_new_head_def)

lemma dummy_lts: "a \<noteq> null \<Longrightarrow> lts_invariant lqsys_next (lqsys_init a) dummy_inv"
  by unfold_locales (auto intro: dummy_inv_init dummy_inv_step)

text \<open>
  Dropping the queue frees nothing.  In every state that any run reaches, \<open>drop\<close> returns at once
  and leaves the whole heap allocated, the queued values included: its loop stops at the first node
  without a value, and the dummy head it starts with never has one.
\<close>

theorem lq_drop_frees_nothing:
  assumes "a \<noteq> null" "reaches lqsys_next (lqsys_init a) s"
  shows "lq_drop (lq s) = Some (Inr (lq s))"
proof -
  have "dummy_inv s" by (rule lts_invariant.inv_reaches [OF dummy_lts [OF assms(1)] assms(2)])
  then obtain n where "heap (lq s) (dummyhead (lq s)) = Some n" "nt n = None" by (auto simp: dummy_inv_def)
  then show ?thesis by (subst lq_drop.simps) (simp add: deref_def)
qed

theorem lq_drop_frees_nothing_witness:
  "\<exists>s. reaches lqsys_next (lqsys_init 1) s \<and> pushed (lq s) = [6::nat] \<and> heap (lq s) 2 \<noteq> None \<and>
    lq_drop (lq s) = Some (Inr (lq s))"
proof -
  have "run_ok lqsys_next (lqsys_init 1) (LqPush 0 2 6 # replicate 4 (LqTx 0 False))
      (\<lambda>s. pushed (lq s) = [6::nat] \<and> heap (lq s) 2 \<noteq> None)"
    by code_simp
  then obtain s where s: "reaches lqsys_next (lqsys_init 1) s" "pushed (lq s) = [6::nat] \<and> heap (lq s) 2 \<noteq> None"
    by (auto dest: run_ok_reaches)
  with lq_drop_frees_nothing [OF _ s(1)] show ?thesis by auto
qed

text \<open>
  C26: A queue that was emptied is broken.  One thread pushes a value, pops it and pushes another one:
  \<open>pop\<close> frees the node that \<open>tail\<close> still points to, so the second push either writes to freed memory
  or, if the allocator hands out the same address again, links the new node to itself, and then \<open>pop\<close>
  finds the counter at one and an empty list and spins for ever.
\<close>

theorem lq_emptied_breaks:
  assumes "distinct [null, a, b, c]"
  shows "run_ok lqsys_next (lqsys_init a)
      (LqPush t b x # replicate 4 (LqTx t False) @ LqPop # replicate 7 LqRx @ LqPush t c y # replicate 4 (LqTx t False))
      (\<lambda>s. popped s = [x] \<and> fault s = Some UseAfterFree) \<and>
    run_ok lqsys_next (lqsys_init a)
      (LqPush t b x # replicate 4 (LqTx t False) @ LqPop # replicate 7 LqRx @ LqPush t b y # replicate 4 (LqTx t False) @ [LqPop])
      (\<lambda>s. pushed (lq s) = [x, y] \<and> popped s = [x] \<and> exec lqsys_next s [LqRx, LqRx] = Some s)"
  using assms
  by (simp add: run_ok_def numeral_eq_Suc lqsys_next_def lqsys_init_def lq_new_def node_new_head_def node_new_def
      compare_exchange_def fetch_add_def fetch_sub_def bindE_def pop_start_def deref_def set_next_def node_free_def node_vals_def)

theorem lq_emptied_breaks_witness:
  "\<exists>s. reaches lqsys_next (lqsys_init 1) s \<and> popped s = [7::nat] \<and> fault s = Some UseAfterFree"
  using lq_emptied_breaks [of 1 2 3 0 7 8] by (auto dest: run_ok_reaches)

end
