(* ===== verification/NoOrderQueue.thy ===== *)
theory NoOrderQueue imports Interfaces begin

text \<open>
  \<open>mpsc_no_order_queue.rs\<close>: every pushing thread has a \<open>SegQueue\<close> of its own in a hash map behind a
  reader-writer lock, keyed by the id of the thread; \<open>try_pop\<close> looks at the queues one after the other
  and takes the first value it finds.  The lock is the number of read guards in existence (no state
  of the model lies inside a write section, which is one step).  A hash map iterates its entries in an
  unspecified order: the label of a \<open>try_pop\<close> carries it.  \<open>nq_pushed\<close> and \<open>nq_popped\<close> are history.
\<close>

record ('q, 'a) no_order_queue =
  threads_queues :: "usize \<rightharpoonup> 'q"
  readers :: nat
  nq_pushed :: "usize \<Rightarrow> 'a list"
  nq_popped :: "(usize \<times> 'a) list"

definition nq_new :: "('q, 'a) no_order_queue" where
  "nq_new = \<lparr>threads_queues = Map.empty, readers = 0, nq_pushed = (\<lambda>_. []), nq_popped = []\<rparr>"

text \<open>The program points of a thread inside \<open>push\<close> and \<open>try_pop\<close>.\<close>

datatype 'a nqpc =
    NIdle
  | NCheck 'a              \<comment> \<open>\<open>read().unwrap().contains_key(..)\<close>, a guard for the condition only\<close>
  | NInsert 'a             \<comment> \<open>\<open>write().unwrap().insert(..)\<close>\<close>
  | NRead 'a               \<comment> \<open>\<open>read().unwrap()\<close>, a guard until the end of \<open>push\<close>\<close>
  | NPush 'a               \<comment> \<open>\<open>read.get(..).unwrap().push(t)\<close>\<close>
  | NUnlock                \<comment> \<open>the guard is dropped\<close>
  | NIter "usize list"     \<comment> \<open>inside the loop of \<open>try_pop\<close>, with the keys not visited yet\<close>
  | NRet "'a option"       \<comment> \<open>\<open>try_pop\<close> is about to drop its guard and return\<close>
  | NPanic

fun push_nq_step :: "('q, 'a) segq \<Rightarrow> usize \<Rightarrow> 'a nqpc \<Rightarrow> ('q, 'a) no_order_queue \<Rightarrow>
    ('a nqpc \<times> ('q, 'a) no_order_queue) option" where
  "push_nq_step Q t (NCheck x) q = Some (if threads_queues q t = None then NInsert x else NRead x, q)"
| "push_nq_step Q t (NInsert x) q =
     (if readers q = 0 then Some (NRead x, q\<lparr>threads_queues := (threads_queues q)(t \<mapsto> sq_new Q)\<rparr>) else None)"
| "push_nq_step Q t (NRead x) q = Some (NPush x, q\<lparr>readers := Suc (readers q)\<rparr>)"
| "push_nq_step Q t (NPush x) q =
     (case threads_queues q t of
        None \<Rightarrow> Some (NPanic, q)
      | Some w \<Rightarrow> Some (NUnlock, q\<lparr>threads_queues := (threads_queues q)(t \<mapsto> sq_push Q w x),
          nq_pushed := (nq_pushed q)(t := nq_pushed q t @ [x])\<rparr>))"
| "push_nq_step Q t NUnlock q = Some (NIdle, q\<lparr>readers := readers q - 1\<rparr>)"
| "push_nq_step Q t _ q = None"

fun try_pop_step :: "('q, 'a) segq \<Rightarrow> 'a nqpc \<Rightarrow> ('q, 'a) no_order_queue \<Rightarrow>
    ('a nqpc \<times> ('q, 'a) no_order_queue) option" where
  "try_pop_step Q (NIter []) q = Some (NRet None, q)"
| "try_pop_step Q (NIter (k # ks)) q =
     (case threads_queues q k of
        None \<Rightarrow> None
      | Some w \<Rightarrow> (case sq_pop Q w of
          (None, w') \<Rightarrow> Some (NIter ks, q\<lparr>threads_queues := (threads_queues q)(k \<mapsto> w')\<rparr>)
        | (Some x, w') \<Rightarrow> Some (NRet (Some x), q\<lparr>threads_queues := (threads_queues q)(k \<mapsto> w'),
            nq_popped := nq_popped q @ [(k, x)]\<rparr>)))"
| "try_pop_step Q (NRet r) q = Some (NIdle, q\<lparr>readers := readers q - 1\<rparr>)"
| "try_pop_step Q _ q = None"

text \<open>
  Labels: thread \<open>t\<close> calls \<open>push(x)\<close>; thread \<open>t\<close> calls \<open>try_pop\<close>, takes its read guard and iterates in
  the given order; the next step of thread \<open>t\<close>.  The id of a thread is the address of a thread-local
  variable, so two live threads have different ids.
\<close>

datatype 'a nqlabel =
    NqPush usize 'a
  | NqPop usize "usize list"
  | NqStep usize

record ('q, 'a) nqsys =
  nq :: "('q, 'a) no_order_queue"
  npc :: "usize \<Rightarrow> 'a nqpc"

definition nqsys_init :: "('q, 'a) nqsys" where
  "nqsys_init = \<lparr>nq = nq_new, npc = (\<lambda>_. NIdle)\<rparr>"

fun nqsys_next :: "('q, 'a) segq \<Rightarrow> ('q, 'a) nqsys \<Rightarrow> 'a nqlabel \<Rightarrow> ('q, 'a) nqsys option" where
  "nqsys_next Q s (NqPush t x) = (if npc s t = NIdle then Some (s\<lparr>npc := (npc s)(t := NCheck x)\<rparr>) else None)"
| "nqsys_next Q s (NqPop t ks) =
     (if npc s t = NIdle \<and> distinct ks \<and> set ks = dom (threads_queues (nq s))
      then Some (s\<lparr>npc := (npc s)(t := NIter ks), nq := (nq s)\<lparr>readers := Suc (readers (nq s))\<rparr>\<rparr>) else None)"
| "nqsys_next Q s (NqStep t) =
     (case (case push_nq_step Q t (npc s t) (nq s) of None \<Rightarrow> try_pop_step Q (npc s t) (nq s) | Some r \<Rightarrow> Some r) of
        None \<Rightarrow> None
      | Some (pc, q) \<Rightarrow> Some (s\<lparr>nq := q, npc := (npc s)(t := pc)\<rparr>))"

section \<open>The invariant\<close>

definition nq_queued :: "('q \<Rightarrow> 'a list) \<Rightarrow> ('q, 'a) no_order_queue \<Rightarrow> usize \<Rightarrow> 'a list" where
  "nq_queued contents q t = (case threads_queues q t of None \<Rightarrow> [] | Some w \<Rightarrow> contents w)"

definition popped_of :: "usize \<Rightarrow> (usize \<times> 'a) list \<Rightarrow> 'a list" where
  "popped_of t ps = map snd (filter (\<lambda>p. fst p = t) ps)"

lemma popped_of_snoc [simp]: "popped_of t (ps @ [(k, x)]) = popped_of t ps @ (if k = t then [x] else [])"
  by (simp add: popped_of_def)

text \<open>What the program point of a thread says about the map.\<close>

definition npc_ok :: "(usize \<rightharpoonup> 'q) \<Rightarrow> usize \<Rightarrow> 'a nqpc \<Rightarrow> bool" where
  "npc_ok m t pc \<longleftrightarrow> (case pc of
     NInsert x \<Rightarrow> m t = None
   | NRead x \<Rightarrow> m t \<noteq> None
   | NPush x \<Rightarrow> m t \<noteq> None
   | NIter ks \<Rightarrow> set ks \<subseteq> dom m
   | NPanic \<Rightarrow> False
   | _ \<Rightarrow> True)"

definition nq_inv :: "('q \<Rightarrow> 'a list) \<Rightarrow> ('q, 'a) nqsys \<Rightarrow> bool" where
  "nq_inv contents s \<longleftrightarrow> (\<forall>t. npc_ok (threads_queues (nq s)) t (npc s t)) \<and>
     (\<forall>t. nq_pushed (nq s) t = popped_of t (nq_popped (nq s)) @ nq_queued contents (nq s) t)"

lemma npc_ok_start [simp]: "npc_ok m t (NCheck x)" "npc_ok m t (NIter ks) \<longleftrightarrow> set ks \<subseteq> dom m"
  by (simp_all add: npc_ok_def)

text \<open>Other threads only care about their own entry and about the domain, which never shrinks.\<close>

lemma npc_ok_mono: "npc_ok m t pc \<Longrightarrow> dom m \<subseteq> dom m' \<Longrightarrow> (m t = None \<longrightarrow> m' t = None) \<Longrightarrow> npc_ok m' t pc"
  by (cases pc) (auto simp: npc_ok_def)

lemma npc_ok_upd: "npc_ok m t pc \<Longrightarrow> k \<noteq> t \<or> m k \<noteq> None \<Longrightarrow> npc_ok (m(k \<mapsto> w)) t pc"
  by (erule npc_ok_mono) auto

context seg_queue
begin

lemma nq_push_step_inv:
  assumes "npc_ok (threads_queues q) t pc" "push_nq_step Q t pc q = Some (pc', q')"
  shows "npc_ok (threads_queues q') t pc' \<and> dom (threads_queues q) \<subseteq> dom (threads_queues q') \<and>
    (\<forall>u. u \<noteq> t \<longrightarrow> threads_queues q' u = threads_queues q u) \<and> nq_popped q' = nq_popped q \<and>
    (\<exists>xs. nq_pushed q' = (nq_pushed q)(t := nq_pushed q t @ xs) \<and> nq_queued contents q' t = nq_queued contents q t @ xs)"
  using assms
  by (cases pc) (auto simp: npc_ok_def nq_queued_def contents_new contents_push split: if_splits option.splits)

lemma nq_pop_step_inv:
  assumes "npc_ok (threads_queues q) t pc" "try_pop_step Q pc q = Some (pc', q')"
  shows "npc_ok (threads_queues q') t pc' \<and> dom (threads_queues q') = dom (threads_queues q) \<and> nq_pushed q' = nq_pushed q \<and>
    (\<forall>u. popped_of u (nq_popped q') @ nq_queued contents q' u = popped_of u (nq_popped q) @ nq_queued contents q u)"
  using assms
  by (cases "(Q, pc, q)" rule: try_pop_step.cases)
    (auto simp: npc_ok_def nq_queued_def split: option.splits prod.splits if_splits dest: pop_NoneD pop_SomeD)

lemma nq_inv_step:
  assumes i: "nq_inv contents s" and st: "nqsys_next Q s l = Some s'"
  shows "nq_inv contents s'"
proof (cases l)
  case (NqStep t)
  have ok: "npc_ok (threads_queues (nq s)) u (npc s u)" for u using i by (simp add: nq_inv_def)
  show ?thesis
  proof (cases "push_nq_step Q t (npc s t) (nq s)")
    case (Some r)
    obtain pc q where r: "r = (pc, q)" by (cases r)
    have s': "s' = s\<lparr>nq := q, npc := (npc s)(t := pc)\<rparr>" using st NqStep Some r by simp
    note p = nq_push_step_inv [OF ok Some [unfolded r]]
    have "npc_ok (threads_queues q) u (npc s u)" if "u \<noteq> t" for u
      using p that by (intro npc_ok_mono [OF ok]) auto
    moreover have "nq_queued contents q u = nq_queued contents (nq s) u" if "u \<noteq> t" for u
      using p that by (simp add: nq_queued_def)
    ultimately show ?thesis using i p by (auto simp: nq_inv_def s')
  next
    case None
    then obtain pc q where r: "try_pop_step Q (npc s t) (nq s) = Some (pc, q)" and
      s': "s' = s\<lparr>nq := q, npc := (npc s)(t := pc)\<rparr>" using st NqStep by (auto split: option.splits)
    note p = nq_pop_step_inv [OF ok r]
    have "npc_ok (threads_queues q) u (npc s u)" for u
      using p by (intro npc_ok_mono [OF ok]) auto
    then show ?thesis using i p by (auto simp: nq_inv_def s')
  qed
qed (use i st in \<open>auto simp: nq_inv_def nq_queued_def split: if_splits\<close>)

lemma nq_inv_init: "nq_inv contents nqsys_init"
  by (simp add: nq_inv_def npc_ok_def nq_queued_def popped_of_def nqsys_init_def nq_new_def)

end

sublocale seg_queue \<subseteq> nqs: lts_invariant "nqsys_next Q" nqsys_init "nq_inv contents"
  by unfold_locales (auto intro: nq_inv_init nq_inv_step)

context seg_queue
begin

lemmas nq_reaches_inv = nqs.inv_reaches

end

text \<open>
  C27: The unordered queue keeps the order of each thread and loses nothing.  In every interleaving of any
  number of threads inside \<open>push\<close> and \<open>try_pop\<close>, the values a thread has pushed are, in order, its values
  that were popped followed by those in its own queue; no unwrap fails (so the lock is never poisoned),
  and inserting a queue never replaces an existing one.
\<close>

theorem nq_fifo_per_thread:
  assumes "seg_queue Q contents" "reaches (nqsys_next Q) nqsys_init s"
  shows "nq_pushed (nq s) t = popped_of t (nq_popped (nq s)) @ nq_queued contents (nq s) t \<and>
    npc s t \<noteq> NPanic \<and> (npc s t = NInsert x \<longrightarrow> threads_queues (nq s) t = None)"
proof -
  have i: "nq_inv contents s" using seg_queue.nq_reaches_inv [OF assms] .
  then have "npc_ok (threads_queues (nq s)) t (npc s t)" by (simp add: nq_inv_def)
  then have "npc s t \<noteq> NPanic \<and> (npc s t = NInsert x \<longrightarrow> threads_queues (nq s) t = None)"
    by (cases "npc s t") (simp_all add: npc_ok_def)
  with i show ?thesis by (simp add: nq_inv_def)
qed


text \<open>A run of two pushing threads (one of them twice) and a consumer.\<close>

definition nq_run :: "nat nqlabel list" where
  "nq_run = [NqPush 1 5, NqPush 2 6, NqStep 1, NqStep 2, NqStep 2, NqStep 1] @ replicate 3 (NqStep 2) @ replicate 3 (NqStep 1) @
     NqPush 1 7 # replicate 4 (NqStep 1)"

theorem nq_fifo_per_thread_witness:
  "\<exists>s. reaches (nqsys_next list_segq) nqsys_init s \<and> nq_popped (nq s) = [(1, 5)] \<and>
     nq_pushed (nq s) 1 = [5::nat] @ nq_queued id (nq s) 1 \<and> nq_queued id (nq s) 1 = [7]"
proof -
  have "run_ok (nqsys_next list_segq) nqsys_init (nq_run @ [NqPop 3 [1, 2], NqStep 3])
      (\<lambda>s. nq_popped (nq s) = [(1, 5)] \<and> nq_pushed (nq s) 1 = [5, 7::nat])"
    by (simp add: nq_run_def run_ok_def numeral_eq_Suc nqsys_init_def nq_new_def insert_commute)
  then obtain s where s: "reaches (nqsys_next list_segq) nqsys_init s" "nq_popped (nq s) = [(1, 5)]" "nq_pushed (nq s) 1 = [5, 7::nat]"
    by (auto dest: run_ok_reaches)
  with nq_fifo_per_thread [OF seg_queue_list s(1), of 1] show ?thesis
    by (intro exI [of _ s]) (simp add: popped_of_def)
qed

section \<open>A single consumer\<close>

definition only_consumer :: "usize \<Rightarrow> 'a nqlabel \<Rightarrow> bool" where
  "only_consumer c l \<longleftrightarrow> (case l of NqPop t ks \<Rightarrow> t = c | _ \<Rightarrow> True)"

definition popping :: "'a nqpc \<Rightarrow> bool" where
  "popping pc \<longleftrightarrow> (case pc of NIter ks \<Rightarrow> True | NRet r \<Rightarrow> True | _ \<Rightarrow> False)"

definition others_push :: "usize \<Rightarrow> ('q, 'a) nqsys \<Rightarrow> bool" where
  "others_push c s \<longleftrightarrow> (\<forall>t. t \<noteq> c \<longrightarrow> \<not> popping (npc s t))"

lemma popping_step: "try_pop_step Q pc q = Some r \<Longrightarrow> popping pc"
  by (cases "(Q, pc, q)" rule: try_pop_step.cases) (auto simp: popping_def)

lemma push_not_popping: "push_nq_step Q t pc q = Some (pc', q') \<Longrightarrow> \<not> popping pc \<and> \<not> popping pc'"
  by (cases pc) (auto simp: popping_def split: if_splits option.splits)

lemma others_push_step:
  assumes o: "others_push c s" and st: "guarded (only_consumer c) (nqsys_next Q) s l = Some s'"
  shows "others_push c s'"
proof (cases l)
  case (NqStep t)
  then have sl: "nqsys_next Q s (NqStep t) = Some s'" using guardedD [OF st] by simp
  show ?thesis
  proof (cases "push_nq_step Q t (npc s t) (nq s)")
    case None
    then obtain r where "try_pop_step Q (npc s t) (nq s) = Some r" using sl by (auto split: option.splits)
    then have "t = c" using popping_step o by (metis others_push_def)
    with None show ?thesis using sl o by (auto simp: others_push_def split: option.splits)
  next
    case (Some r)
    then obtain pc q where r: "push_nq_step Q t (npc s t) (nq s) = Some (pc, q)" by (cases r) auto
    then show ?thesis using sl o push_not_popping [OF r] by (auto simp: others_push_def split: if_splits)
  qed
qed (use o guardedD [OF st] in \<open>auto simp: others_push_def popping_def only_consumer_def split: if_splits\<close>)

text \<open>The consumer has found a value, or a queue still to be visited has one.\<close>

definition pc_finds :: "('q \<Rightarrow> 'a list) \<Rightarrow> ('q, 'a) no_order_queue \<Rightarrow> 'a nqpc \<Rightarrow> bool" where
  "pc_finds contents q pc \<longleftrightarrow> (case pc of
     NIter ks \<Rightarrow> (\<exists>u\<in>set ks. nq_queued contents q u \<noteq> [])
   | NRet None \<Rightarrow> False
   | _ \<Rightarrow> True)"

definition will_find :: "('q \<Rightarrow> 'a list) \<Rightarrow> usize \<Rightarrow> ('q, 'a) nqsys \<Rightarrow> bool" where
  "will_find contents c s \<longleftrightarrow> pc_finds contents (nq s) (npc s c)"

lemma pc_finds_mono:
  assumes "pc_finds contents q pc" "\<And>u. nq_queued contents q u \<noteq> [] \<Longrightarrow> nq_queued contents q' u \<noteq> []"
  shows "pc_finds contents q' pc"
proof (cases pc)
  case (NIter ks)
  then show ?thesis using assms by (auto simp: pc_finds_def)
qed (use assms(1) in \<open>auto simp: pc_finds_def split: option.splits\<close>)

lemma pc_finds_push: "\<not> popping pc \<Longrightarrow> pc_finds contents q pc"
  by (cases pc) (auto simp: popping_def pc_finds_def)

context seg_queue
begin

lemma will_find_pop:
  assumes p: "try_pop_step Q (NIter ks) q = Some (pc', q')" and f: "\<exists>u\<in>set ks. nq_queued contents q u \<noteq> []"
  shows "pc_finds contents q' pc'"
proof (cases ks)
  case Nil
  then show ?thesis using f by simp
next
  case (Cons k ks')
  then obtain w where w: "threads_queues q k = Some w" using p by (auto split: option.splits)
  show ?thesis
  proof (cases "sq_pop Q w")
    case (Pair r w')
    show ?thesis
    proof (cases r)
      case None
      then have e: "pc' = NIter ks'" "q' = q\<lparr>threads_queues := (threads_queues q)(k \<mapsto> w')\<rparr>" using p Cons w Pair by auto
      have "nq_queued contents q k = []" using pop_NoneD Pair None w by (auto simp: nq_queued_def)
      then obtain u where u: "u \<in> set ks'" "u \<noteq> k" "nq_queued contents q u \<noteq> []" using f Cons by auto
      then have "nq_queued contents q' u \<noteq> []" by (simp add: e nq_queued_def)
      with u show ?thesis by (auto simp: pc_finds_def e)
    next
      case (Some x)
      then show ?thesis using p Cons w Pair by (auto simp: pc_finds_def)
    qed
  qed
qed

lemma will_find_step:
  assumes i: "nq_inv contents s" and o: "others_push c s" and w: "will_find contents c s"
    and st: "nqsys_next Q s l = Some s'" and l: "\<forall>ks. l \<noteq> NqPop c ks" "only_consumer c l"
  shows "will_find contents c s'"
proof (cases l)
  case (NqPush t x)
  have "pc_finds contents (nq s) (NCheck x)" by (simp add: pc_finds_def)
  then show ?thesis using NqPush st w by (auto simp: will_find_def split: if_splits)
next
  case (NqPop t ks)
  then show ?thesis using l by (simp add: only_consumer_def)
next
  case (NqStep t)
  have ok: "npc_ok (threads_queues (nq s)) t (npc s t)" using i by (simp add: nq_inv_def)
  show ?thesis
  proof (cases "push_nq_step Q t (npc s t) (nq s)")
    case (Some r)
    obtain pc q where r: "r = (pc, q)" by (cases r)
    have s': "s' = s\<lparr>nq := q, npc := (npc s)(t := pc)\<rparr>" using st NqStep Some r by simp
    note p = nq_push_step_inv [OF ok Some [unfolded r]] push_not_popping [OF Some [unfolded r]]
    have q: "nq_queued contents q u \<noteq> []" if "nq_queued contents (nq s) u \<noteq> []" for u
      using p that by (cases "u = t") (auto simp: nq_queued_def)
    have "pc_finds contents q pc" using p(2) by (blast intro: pc_finds_push)
    moreover have "pc_finds contents q (npc s c)" using w q by (auto simp: will_find_def intro: pc_finds_mono)
    ultimately show ?thesis by (simp add: will_find_def s')
  next
    case None
    then obtain pc q where r: "try_pop_step Q (npc s t) (nq s) = Some (pc, q)" and
      s': "s' = s\<lparr>nq := q, npc := (npc s)(t := pc)\<rparr>" using st NqStep by (auto split: option.splits)
    have t: "t = c" using popping_step [OF r] o by (metis others_push_def)
    show ?thesis
    proof (cases "npc s c")
      case (NIter ks)
      then have "\<exists>u\<in>set ks. nq_queued contents (nq s) u \<noteq> []" using w by (simp add: will_find_def pc_finds_def)
      then show ?thesis using will_find_pop [of ks] r t NIter by (simp add: will_find_def s')
    next
      case (NRet r)
      then show ?thesis using r t by (auto simp: will_find_def pc_finds_def s')
    qed (use r t in \<open>simp_all\<close>)
  qed
qed

lemma will_find_exec:
  assumes "exec (guarded (only_consumer c) (nqsys_next Q)) s ls = Some s'" "nq_inv contents s" "others_push c s"
    "will_find contents c s" "\<forall>ks. NqPop c ks \<notin> set ls"
  shows "will_find contents c s'"
  using assms
proof (induction ls arbitrary: s)
  case (Cons l ls)
  then obtain s1 where g: "guarded (only_consumer c) (nqsys_next Q) s l = Some s1"
    and e: "exec (guarded (only_consumer c) (nqsys_next Q)) s1 ls = Some s'" by (auto split: option.splits)
  note n = guardedD [OF g]
  show ?case
    by (rule Cons.IH [OF e nq_inv_step [OF Cons.prems(2)] others_push_step [OF Cons.prems(3) g]
          will_find_step [OF Cons.prems(2-4)]]) (use n Cons.prems(5) in auto)
qed simp

end

lemma single_consumer_lts:
  assumes "seg_queue Q contents"
  shows "lts_invariant (guarded (only_consumer c) (nqsys_next Q)) nqsys_init (\<lambda>s. others_push c s \<and> nq_inv contents s)"
proof
  show "others_push c nqsys_init \<and> nq_inv contents nqsys_init"
    using seg_queue.nq_inv_init [OF assms] by (simp add: others_push_def popping_def nqsys_init_def)
qed (auto intro: others_push_step dest: guardedD seg_queue.nq_inv_step [OF assms])

text \<open>
  C28: A single consumer finds what is there.  If thread \<open>c\<close> is the only one that calls \<open>try_pop\<close>, and some
  queue holds a value when it does, then however the pushes of the other threads interleave with
  the loop, and in whatever order the map is iterated, the call does not answer \<^term>\<open>None\<close>.
\<close>

theorem nq_try_pop_finds:
  assumes "seg_queue Q contents" "reaches (guarded (only_consumer c) (nqsys_next Q)) nqsys_init s"
    and "nq_queued contents (nq s) u \<noteq> []"
    and "exec (guarded (only_consumer c) (nqsys_next Q)) s (NqPop c ks # ls) = Some s'" "\<forall>ks. NqPop c ks \<notin> set ls"
  shows "npc s' c \<noteq> NRet None"
proof -
  let ?n = "guarded (only_consumer c) (nqsys_next Q)"
  note L = single_consumer_lts [OF assms(1), of c]
  obtain s1 where s1: "?n s (NqPop c ks) = Some s1" "exec ?n s1 ls = Some s'"
    using assms(4) by (auto split: option.splits)
  have i: "others_push c s1 \<and> nq_inv contents s1"
    by (rule lts_invariant.inv_step [OF L lts_invariant.inv_reaches [OF L assms(2)] s1(1)])
  have "u \<in> dom (threads_queues (nq s))" using assms(3) by (auto simp: nq_queued_def split: option.splits)
  moreover have "set ks = dom (threads_queues (nq s))" "npc s1 c = NIter ks" "threads_queues (nq s1) = threads_queues (nq s)"
    using guardedD [OF s1(1)] by (auto split: if_splits)
  ultimately have "will_find contents c s1"
    using assms(3) by (auto simp: will_find_def pc_finds_def nq_queued_def)
  then have "will_find contents c s'" using seg_queue.will_find_exec [OF assms(1) s1(2)] i assms(5) by blast
  then show ?thesis by (auto simp: will_find_def pc_finds_def)
qed

theorem nq_try_pop_finds_witness:
  "\<exists>s. reaches (guarded (only_consumer 3) (nqsys_next list_segq)) nqsys_init s \<and>
     threads_queues (nq s) 2 = Some [] \<and> npc s 3 \<noteq> NRet (None :: nat option)"
proof -
  let ?n = "guarded (only_consumer 3) (nqsys_next list_segq)"
  have g: "list_all (only_consumer 3) nq_run" "list_all (only_consumer 3) (NqPop 3 [2, 1] # [NqStep 3, NqStep 3])"
    by (simp_all add: nq_run_def only_consumer_def numeral_eq_Suc)
  have "run_ok (nqsys_next list_segq) nqsys_init nq_run (\<lambda>s. nq_queued id (nq s) 1 \<noteq> [] \<and>
      run_ok (nqsys_next list_segq) s (NqPop 3 [2, 1] # [NqStep 3, NqStep 3]) (\<lambda>s. threads_queues (nq s) 2 = Some []))"
    by (simp add: nq_run_def run_ok_def numeral_eq_Suc nqsys_init_def nq_new_def insert_commute nq_queued_def)
  then obtain s s' where s: "exec ?n nqsys_init nq_run = Some s" "nq_queued id (nq s) 1 \<noteq> []"
      "exec ?n s (NqPop 3 [2, 1] # [NqStep 3, NqStep 3]) = Some s'" "threads_queues (nq s') 2 = Some []"
    unfolding exec_guarded [OF g(1)] exec_guarded [OF g(2)] by (blast dest: run_ok_exec)
  have "npc s' 3 \<noteq> NRet None"
    by (rule nq_try_pop_finds [OF seg_queue_list reachesI [OF s(1)] s(2,3)]) simp
  with reaches_exec [OF reachesI [OF s(1)] s(3)] s(4) show ?thesis by blast
qed
end
