(* ===== verification/LightSync.thy ===== *)
theory LightSync imports Prelude begin

text \<open>
  \<open>lightsync.rs\<close>: one thread waits until another one notifies it, through an atomic flag and the park
  token of the waiting thread.  Every program point of \<open>wait\<close> and \<open>notify\<close> is one step of an inductive
  relation (parking may end spuriously, so the relation is not a function).  The handle of the waiting
  thread is behind a reader-writer lock whose guards live for one expression or one block without
  other shared accesses, so that each guarded block is one step.
\<close>

section \<open>The shared state\<close>

text \<open>
  \<open>token\<close> are the park tokens of the threads (\<open>unpark\<close> sets one, \<open>park\<close> consumes it).  \<open>wakes\<close> and \<open>waits\<close>
  are history: the calls of \<open>notify\<close> that found a waiting thread, and the calls of \<open>wait\<close> that returned.
\<close>

record light_sync =
  waiting :: bool
  wait_id :: u64
  wait_thread :: "u64 option"
  token :: "u64 \<Rightarrow> bool"
  wakes :: nat
  waits :: nat

definition ls_new :: light_sync where
  "ls_new = \<lparr>waiting = False, wait_id = 0, wait_thread = None, token = (\<lambda>_. False), wakes = 0, waits = 0\<rparr>"

datatype lspc =
    LIdle
  | WEnter      \<comment> \<open>\<open>wait\<close>: the two reads of \<open>wait_thread\<close>\<close>
  | WWrite      \<comment> \<open>the write of \<open>wait_thread\<close>\<close>
  | WSwap       \<comment> \<open>\<open>self.waiting.swap(true)\<close>\<close>
  | WLoop       \<comment> \<open>\<open>while self.waiting.load()\<close>\<close>
  | WPark       \<comment> \<open>\<open>thread::park()\<close>\<close>
  | NEnter      \<comment> \<open>\<open>notify\<close>: \<open>self.waiting.swap(false)\<close>\<close>
  | NUnpark     \<comment> \<open>\<open>read().unwrap().1.as_ref().unwrap().unpark()\<close>\<close>
  | LPanic panic

section \<open>wait and notify\<close>

inductive wait_step :: "u64 \<Rightarrow> lspc \<Rightarrow> light_sync \<Rightarrow> lspc \<Rightarrow> light_sync \<Rightarrow> bool" for t where
  wait_enter: "wait_step t WEnter q (if wait_thread q = None \<or> wait_id q \<noteq> t then WWrite else WSwap) q"
| wait_write: "wait_step t WWrite q WSwap (q\<lparr>wait_id := t, wait_thread := Some t\<rparr>)"
| wait_swap: "wait_step t WSwap q (if waiting q then LPanic ExplicitPanic else WLoop) (q\<lparr>waiting := True\<rparr>)"
| wait_sleep: "waiting q \<Longrightarrow> wait_step t WLoop q WPark q"
| wait_done: "\<not> waiting q \<Longrightarrow> wait_step t WLoop q LIdle (q\<lparr>waits := Suc (waits q)\<rparr>)"
| wait_unparked: "token q t \<Longrightarrow> wait_step t WPark q WLoop (q\<lparr>token := (token q)(t := False)\<rparr>)"
| wait_spurious: "wait_step t WPark q WLoop q"

inductive notify_step :: "lspc \<Rightarrow> light_sync \<Rightarrow> lspc \<Rightarrow> light_sync \<Rightarrow> bool" where
  notify_wake: "waiting q \<Longrightarrow> notify_step NEnter q NUnpark (q\<lparr>waiting := False, wakes := Suc (wakes q)\<rparr>)"
| notify_none: "\<not> waiting q \<Longrightarrow> notify_step NEnter q LIdle (q\<lparr>waiting := False\<rparr>)"
| notify_unpark: "wait_thread q = Some w \<Longrightarrow> notify_step NUnpark q LIdle (q\<lparr>token := (token q)(w := True)\<rparr>)"
| notify_unwrap: "wait_thread q = None \<Longrightarrow> notify_step NUnpark q (LPanic UnwrapNone) q"

inductive_cases wait_stepE: "wait_step t pc q pc' q'"
inductive_cases notify_stepE: "notify_step pc q pc' q'"

inductive_simps wait_step_simps [simp]:
  "wait_step t LIdle q pc' q'" "wait_step t WEnter q pc' q'" "wait_step t WWrite q pc' q'" "wait_step t WSwap q pc' q'"
  "wait_step t WLoop q pc' q'" "wait_step t WPark q pc' q'" "wait_step t NEnter q pc' q'" "wait_step t NUnpark q pc' q'"
  "wait_step t (LPanic e) q pc' q'"

inductive_simps notify_step_simps [simp]:
  "notify_step LIdle q pc' q'" "notify_step WEnter q pc' q'" "notify_step WWrite q pc' q'" "notify_step WSwap q pc' q'"
  "notify_step WLoop q pc' q'" "notify_step WPark q pc' q'" "notify_step NEnter q pc' q'" "notify_step NUnpark q pc' q'"
  "notify_step (LPanic e) q pc' q'"

section \<open>The system\<close>

text \<open>\<open>W\<close> says which threads may call \<open>wait\<close>; every thread may call \<open>notify\<close>.\<close>

record lssys =
  sync :: light_sync
  lpc :: "u64 \<Rightarrow> lspc"

definition lssys_init :: lssys where
  "lssys_init = \<lparr>sync = ls_new, lpc = (\<lambda>_. LIdle)\<rparr>"

inductive ls_step :: "(u64 \<Rightarrow> bool) \<Rightarrow> lssys \<Rightarrow> lssys \<Rightarrow> bool" for W where
  call_wait: "W t \<Longrightarrow> lpc s t = LIdle \<Longrightarrow> ls_step W s (s\<lparr>lpc := (lpc s)(t := WEnter)\<rparr>)"
| call_notify: "lpc s t = LIdle \<Longrightarrow> ls_step W s (s\<lparr>lpc := (lpc s)(t := NEnter)\<rparr>)"
| in_wait: "wait_step t (lpc s t) (sync s) pc q \<Longrightarrow> ls_step W s (s\<lparr>sync := q, lpc := (lpc s)(t := pc)\<rparr>)"
| in_notify: "notify_step (lpc s t) (sync s) pc q \<Longrightarrow> ls_step W s (s\<lparr>sync := q, lpc := (lpc s)(t := pc)\<rparr>)"

inductive_cases ls_stepE: "ls_step W s s'"

abbreviation ls_reach :: "(u64 \<Rightarrow> bool) \<Rightarrow> lssys \<Rightarrow> bool" where
  "ls_reach W \<equiv> (ls_step W)\<^sup>*\<^sup>* lssys_init"

section \<open>One waiting thread\<close>

fun in_wait_call :: "lspc \<Rightarrow> bool" where
  "in_wait_call LIdle = False"
| "in_wait_call NEnter = False"
| "in_wait_call NUnpark = False"
| "in_wait_call (LPanic e) = False"
| "in_wait_call _ = True"

fun blocked :: "lspc \<Rightarrow> bool" where
  "blocked WLoop = True"
| "blocked WPark = True"
| "blocked _ = False"

definition notifying :: "(u64 \<Rightarrow> lspc) \<Rightarrow> bool" where
  "notifying P \<longleftrightarrow> (\<exists>t. P t = NUnpark)"

lemma notifying_upd: "pc = NUnpark \<or> P t \<noteq> NUnpark \<and> notifying P \<Longrightarrow> notifying (P(t := pc))"
  unfolding notifying_def by (rule ex_upd)

lemma notifying_updD: "notifying (P(t := pc)) \<Longrightarrow> pc \<noteq> NUnpark \<Longrightarrow> notifying P"
  by (auto simp: notifying_def split: if_splits)

definition registered :: "u64 \<Rightarrow> light_sync \<Rightarrow> bool" where
  "registered c q \<longleftrightarrow> wait_thread q = Some c \<and> wait_id q = c"

lemma registered_upd [simp]:
  "registered c (q\<lparr>waiting := b\<rparr>) = registered c q" "registered c (q\<lparr>token := f\<rparr>) = registered c q"
  "registered c (q\<lparr>waits := n\<rparr>) = registered c q" "registered c (q\<lparr>wakes := n\<rparr>) = registered c q"
  "registered c (q\<lparr>wait_id := c, wait_thread := Some c\<rparr>)"
  by (simp_all add: registered_def)

definition ls_ok :: "u64 \<Rightarrow> light_sync \<Rightarrow> (u64 \<Rightarrow> lspc) \<Rightarrow> bool" where
  "ls_ok c q P \<longleftrightarrow>
     (\<forall>t. t \<noteq> c \<longrightarrow> \<not> in_wait_call (P t)) \<and> (\<forall>t e. P t \<noteq> LPanic e) \<and>
     (waiting q \<longrightarrow> blocked (P c)) \<and>
     (wait_thread q = None \<or> registered c q) \<and>
     (P c = WSwap \<or> blocked (P c) \<longrightarrow> registered c q) \<and>
     (notifying P \<longrightarrow> registered c q) \<and>
     (P c = WPark \<and> \<not> waiting q \<longrightarrow> token q c \<or> notifying P) \<and>
     wakes q = waits q + (if blocked (P c) \<and> \<not> waiting q then 1 else 0)"

lemma ls_ok_init: "ls_ok c (sync lssys_init) (lpc lssys_init)"
  by (simp add: ls_ok_def lssys_init_def ls_new_def notifying_def)

lemma notifying_same: "pc \<noteq> NUnpark \<Longrightarrow> P t \<noteq> NUnpark \<Longrightarrow> notifying (P(t := pc)) = notifying P"
  using notifying_upd [of pc P t] notifying_updD [of P t pc] by blast

lemma ls_ok_notify_call:
  assumes "ls_ok c q P" "P t = LIdle"
  shows "ls_ok c q (P(t := NEnter))"
  using assms by (cases "t = c") (simp_all add: ls_ok_def notifying_same)

lemma ls_ok_wait_call:
  assumes "ls_ok c q P" "P c = LIdle"
  shows "ls_ok c q (P(c := WEnter))"
  using assms by (simp add: ls_ok_def notifying_same)

lemma ls_ok_wait:
  assumes i: "ls_ok c q P" and st: "wait_step t (P t) q pc q'"
  shows "ls_ok c q' (P(t := pc))"
proof -
  have "in_wait_call (P t)" using st by (cases "P t") auto
  then have t: "t = c" using i unfolding ls_ok_def by blast
  have "wait_step c (P c) q pc q'" using st t by simp
  then have "ls_ok c q' (P(c := pc))"
  proof (cases rule: wait_step.cases)
    case wait_enter
    then show ?thesis using i t by (cases "wait_thread q = None") (simp_all add: ls_ok_def registered_def notifying_same)
  next
    case wait_swap
    have "\<not> waiting q" using wait_swap i by (auto simp: ls_ok_def)
    with wait_swap i t show ?thesis by (simp add: ls_ok_def notifying_same)
  qed (use i t in \<open>simp_all add: ls_ok_def notifying_same\<close>)
  then show ?thesis using t by simp
qed

lemma ls_ok_notify:
  assumes i: "ls_ok c q P" and st: "notify_step (P t) q pc q'"
  shows "ls_ok c q' (P(t := pc))"
  using st
proof (cases rule: notify_step.cases)
  case notify_wake
  have "blocked (P c)" "t \<noteq> c" using notify_wake i by (auto simp: ls_ok_def)
  then show ?thesis using notify_wake i by (simp add: ls_ok_def notifying_upd)
next
  case notify_none
  then show ?thesis using i by (cases "t = c") (simp_all add: ls_ok_def notifying_same)
next
  case (notify_unpark w)
  have r: "registered c q" using i notify_unpark(1) by (auto simp: ls_ok_def notifying_def)
  then have "w = c" using notify_unpark by (simp add: registered_def)
  then show ?thesis using notify_unpark i r by (cases "t = c") (simp_all add: ls_ok_def)
next
  case notify_unwrap
  have "registered c q" using i notify_unwrap(1) by (auto simp: ls_ok_def notifying_def)
  then show ?thesis using notify_unwrap by (simp add: registered_def)
qed

lemma ls_ok_step:
  assumes "ls_ok c (sync s) (lpc s)" "ls_step (\<lambda>t. t = c) s s'"
  shows "ls_ok c (sync s') (lpc s')"
  using assms(2)
proof (cases rule: ls_step.cases)
  case (call_wait t)
  with ls_ok_wait_call [OF assms(1)] show ?thesis by simp
next
  case (call_notify t)
  with ls_ok_notify_call [OF assms(1)] show ?thesis by simp
next
  case (in_wait t pc q)
  with ls_ok_wait [OF assms(1)] show ?thesis by simp
next
  case (in_notify t pc q)
  with ls_ok_notify [OF assms(1)] show ?thesis by simp
qed

lemma ls_reach_ok: "ls_reach (\<lambda>t. t = c) s \<Longrightarrow> ls_ok c (sync s) (lpc s)"
  by (induction rule: rtranclp_induct) (auto intro: ls_ok_init ls_ok_step)

text \<open>
  C32: \<open>wait\<close> returns exactly when notified.  If one thread is the only one to call \<open>wait\<close>, neither
  the explicit panic of \<open>wait\<close> nor the unwrap of \<open>notify\<close> happens, in any interleaving with any number
  of notifying threads, and the calls of \<open>notify\<close> that found the flag set are the calls of \<open>wait\<close> that
  have returned, plus one if the current call has been notified and is about to return.
\<close>

theorem ls_wait_matches_notify:
  assumes "ls_reach (\<lambda>t. t = c) s"
  shows "lpc s t \<noteq> LPanic e \<and>
    wakes (sync s) = waits (sync s) + (if blocked (lpc s c) \<and> \<not> waiting (sync s) then 1 else 0)"
  using ls_reach_ok [OF assms] by (simp add: ls_ok_def)

text \<open>
  C33: No notification of a waiting thread is lost.  If one thread is the only one to call \<open>wait\<close>, then
  whenever it is parked although its flag has been cleared, its park token is set or a \<open>notify\<close> is about
  to set it through the handle of that very thread.
\<close>

theorem ls_no_lost_wakeup:
  assumes "ls_reach (\<lambda>t. t = c) s" "lpc s c = WPark" "\<not> waiting (sync s)"
  shows "token (sync s) c \<or> (\<exists>t. lpc s t = NUnpark \<and> wait_thread (sync s) = Some c)"
proof -
  have "token (sync s) c \<or> notifying (lpc s)" "notifying (lpc s) \<Longrightarrow> registered c (sync s)"
    using ls_reach_ok [OF assms(1)] assms(2,3) by (auto simp: ls_ok_def)
  then show ?thesis by (auto simp: notifying_def registered_def)
qed

section \<open>The relation, executed\<close>

text \<open>
  The steps as a function of a label: a call, or the next step of a thread (the flag makes \<open>park\<close> end
  spuriously).  It enumerates exactly the steps of the relation.
\<close>

datatype lslabel = LsWait u64 | LsNotify u64 | LsStep u64 bool

fun ls_local :: "u64 \<Rightarrow> bool \<Rightarrow> lspc \<Rightarrow> light_sync \<Rightarrow> (lspc \<times> light_sync) option" where
  "ls_local t b WEnter q = Some (if wait_thread q = None \<or> wait_id q \<noteq> t then WWrite else WSwap, q)"
| "ls_local t b WWrite q = Some (WSwap, q\<lparr>wait_id := t, wait_thread := Some t\<rparr>)"
| "ls_local t b WSwap q = Some (if waiting q then LPanic ExplicitPanic else WLoop, q\<lparr>waiting := True\<rparr>)"
| "ls_local t b WLoop q = Some (if waiting q then (WPark, q) else (LIdle, q\<lparr>waits := Suc (waits q)\<rparr>))"
| "ls_local t b WPark q =
     (if b then Some (WLoop, q) else if token q t then Some (WLoop, q\<lparr>token := (token q)(t := False)\<rparr>) else None)"
| "ls_local t b NEnter q = Some (if waiting q then (NUnpark, q\<lparr>waiting := False, wakes := Suc (wakes q)\<rparr>)
     else (LIdle, q\<lparr>waiting := False\<rparr>))"
| "ls_local t b NUnpark q = (case wait_thread q of
     None \<Rightarrow> Some (LPanic UnwrapNone, q)
   | Some w \<Rightarrow> Some (LIdle, q\<lparr>token := (token q)(w := True)\<rparr>))"
| "ls_local t b LIdle q = None"
| "ls_local t b (LPanic e) q = None"

lemma ls_local_iff: "(\<exists>b. ls_local t b pc q = Some (pc', q')) \<longleftrightarrow> wait_step t pc q pc' q' \<or> notify_step pc q pc' q'"
  by (cases pc) (auto split: option.splits)

fun ls_next :: "(u64 \<Rightarrow> bool) \<Rightarrow> lssys \<Rightarrow> lslabel \<Rightarrow> lssys option" where
  "ls_next W s (LsWait t) = (if W t \<and> lpc s t = LIdle then Some (s\<lparr>lpc := (lpc s)(t := WEnter)\<rparr>) else None)"
| "ls_next W s (LsNotify t) = (if lpc s t = LIdle then Some (s\<lparr>lpc := (lpc s)(t := NEnter)\<rparr>) else None)"
| "ls_next W s (LsStep t b) = (case ls_local t b (lpc s t) (sync s) of
     None \<Rightarrow> None
   | Some (pc, q) \<Rightarrow> Some (s\<lparr>sync := q, lpc := (lpc s)(t := pc)\<rparr>))"

lemma ls_next_sound: "ls_next W s l = Some s' \<Longrightarrow> ls_step W s s'"
proof (cases l)
  case (LsStep t b)
  assume "ls_next W s l = Some s'"
  then obtain pc q where l: "ls_local t b (lpc s t) (sync s) = Some (pc, q)"
    and s': "s' = s\<lparr>sync := q, lpc := (lpc s)(t := pc)\<rparr>" using LsStep by (auto split: option.splits)
  then have "wait_step t (lpc s t) (sync s) pc q \<or> notify_step (lpc s t) (sync s) pc q"
    using ls_local_iff by blast
  then show ?thesis unfolding s' by (auto intro: in_wait in_notify)
qed (auto split: if_splits intro: call_wait call_notify)

lemma ls_next_complete: "ls_step W s s' \<Longrightarrow> \<exists>l. ls_next W s l = Some s'"
proof (induction rule: ls_step.induct)
  case (call_wait t s)
  then show ?case by (intro exI [of _ "LsWait t"]) simp
next
  case (call_notify s t)
  then show ?case by (intro exI [of _ "LsNotify t"]) simp
next
  case (in_wait t s pc q)
  then obtain b where "ls_local t b (lpc s t) (sync s) = Some (pc, q)" using ls_local_iff by blast
  then show ?case by (intro exI [of _ "LsStep t b"]) simp
next
  case (in_notify s t pc q)
  then obtain b where "ls_local t b (lpc s t) (sync s) = Some (pc, q)" using ls_local_iff by blast
  then show ?case by (intro exI [of _ "LsStep t b"]) simp
qed

lemma ls_exec_reach: "exec (ls_next W) s ls = Some s' \<Longrightarrow> (ls_step W)\<^sup>*\<^sup>* s s'"
  by (induction ls arbitrary: s) (auto split: option.splits dest: ls_next_sound intro: converse_rtranclp_into_rtranclp)

lemma ls_run_reach: "run_ok (ls_next W) lssys_init ls P \<Longrightarrow> \<exists>s. ls_reach W s \<and> P s"
  by (auto dest!: run_ok_exec ls_exec_reach)

theorem ls_wait_matches_notify_witness:
  "\<exists>s. ls_reach (\<lambda>t. t = 1) s \<and> waits (sync s) = 1 \<and> wakes (sync s) = 1 \<and> lpc s 2 \<noteq> LPanic UnwrapNone"
proof -
  have "run_ok (ls_next (\<lambda>t. t = 1)) lssys_init
      ([LsNotify 2, LsStep 2 False, LsWait 1] @ replicate 4 (LsStep 1 False) @
       [LsNotify 2, LsStep 2 False, LsStep 2 False] @ replicate 2 (LsStep 1 False))
      (\<lambda>s. waits (sync s) = 1 \<and> lpc s 1 = LIdle)"
    by code_simp
  then obtain s where s: "ls_reach (\<lambda>t. t = 1) s" "waits (sync s) = 1" "lpc s 1 = LIdle"
    by (auto dest: ls_run_reach)
  with ls_wait_matches_notify [OF s(1), of 2 UnwrapNone] show ?thesis by auto
qed

theorem ls_no_lost_wakeup_witness:
  "\<exists>s. ls_reach (\<lambda>t. t = 1) s \<and> \<not> token (sync s) 1 \<and> (\<exists>t. lpc s t = NUnpark \<and> wait_thread (sync s) = Some 1)"
proof -
  have "run_ok (ls_next (\<lambda>t. t = 1)) lssys_init
      (LsWait 1 # replicate 4 (LsStep 1 False) @ [LsNotify 2, LsStep 2 False])
      (\<lambda>s. lpc s 1 = WPark \<and> \<not> waiting (sync s) \<and> \<not> token (sync s) 1)"
    by code_simp
  then obtain s where s: "ls_reach (\<lambda>t. t = 1) s" "lpc s 1 = WPark" "\<not> waiting (sync s)" "\<not> token (sync s) 1"
    by (auto dest: ls_run_reach)
  with ls_no_lost_wakeup [OF s(1-3)] show ?thesis by blast
qed

text \<open>
  \<open>LightSync\<close> serves one waiting thread and keeps no notification for later.  A second thread that
  calls \<open>wait\<close> while the first one waits panics, and a \<open>notify\<close> that comes before the \<open>wait\<close> it was meant
  for is dropped: the waiting thread parks with its flag set and no token.
\<close>

theorem ls_limits:
  "run_ok (ls_next (\<lambda>t. True)) lssys_init
     (LsWait 1 # replicate 4 (LsStep 1 False) @ LsWait 2 # replicate 3 (LsStep 2 False))
     (\<lambda>s. lpc s 1 = WPark \<and> lpc s 2 = LPanic ExplicitPanic) \<and>
   run_ok (ls_next (\<lambda>t. t = 1)) lssys_init
     ([LsNotify 2, LsStep 2 False, LsWait 1] @ replicate 4 (LsStep 1 False))
     (\<lambda>s. lpc s 1 = WPark \<and> lpc s 2 = LIdle \<and> waiting (sync s) \<and> wakes (sync s) = 0 \<and> ls_next (\<lambda>t. t = 1) s (LsStep 1 False) = None)"
  by code_simp

end
