(* ===== verification/TimeoutParker.thy ===== *)
theory TimeoutParker imports Atomics begin

text \<open>
  \<open>timeout_parker.rs\<close>: a parker that blocks its thread for at most a given time and unparkers that wake
  it, built from an atomic state, a mutex and a condition variable.  \<open>park_timeout\<close> takes \<open>&mut self\<close>, so
  there is one parking call at a time; any number of threads unpark.  The program points of \<open>park\<close> and
  \<open>unpark\<close> are steps; time is not modelled: a wait may end at any moment, by a notification, by its
  timeout or spuriously.
\<close>

section \<open>The shared state\<close>

datatype owner = ParkerThread | UnparkerThread nat

text \<open>
  \<open>mutex\<close> is the thread that holds the lock, \<open>poisoned\<close> says that one panicked while holding it.
  \<open>sleeping\<close>: the parker is in the wait set of the condition variable.
\<close>

record inner =
  state :: usize
  mutex :: "owner option"
  poisoned :: bool
  sleeping :: bool

definition EMPTY :: usize where "EMPTY = 0"
definition PARKED_CONDVAR :: usize where "PARKED_CONDVAR = 1"
definition NOTIFIED :: usize where "NOTIFIED = 3"

lemma states_differ [simp]:
  "EMPTY \<noteq> PARKED_CONDVAR" "EMPTY \<noteq> NOTIFIED" "PARKED_CONDVAR \<noteq> NOTIFIED"
  "PARKED_CONDVAR \<noteq> EMPTY" "NOTIFIED \<noteq> EMPTY" "NOTIFIED \<noteq> PARKED_CONDVAR"
  by (simp_all add: EMPTY_def PARKED_CONDVAR_def NOTIFIED_def)

definition inner_new :: inner where
  "inner_new = \<lparr>state = EMPTY, mutex = None, poisoned = False, sleeping = False\<rparr>"

section \<open>park\<close>

datatype parkpc =
    KIdle
  | KSpin nat     \<comment> \<open>iteration of the loop \<open>for _ in 0..3\<close>\<close>
  | KLock         \<comment> \<open>\<open>park_condvar\<close>: \<open>self.mutex.lock()\<close>\<close>
  | KCas          \<comment> \<open>\<open>compare_exchange(EMPTY, PARKED_CONDVAR)\<close>\<close>
  | KSwap         \<comment> \<open>\<open>self.state.swap(EMPTY)\<close> and the \<open>debug_assert_eq!\<close>\<close>
  | KWait         \<comment> \<open>\<open>wait_timeout\<close>: release the mutex and sleep\<close>
  | KSleep        \<comment> \<open>\<open>wait_timeout\<close>: asleep\<close>
  | KRelock       \<comment> \<open>\<open>wait_timeout\<close>: take the mutex again\<close>
  | KStore        \<comment> \<open>\<open>self.state.store(EMPTY)\<close>\<close>
  | KUnlock       \<comment> \<open>the guard is dropped, \<open>park\<close> returns\<close>
  | KPanic panic

text \<open>The flag of a step makes the wait end by its timeout (or spuriously).\<close>

fun park_step :: "bool \<Rightarrow> parkpc \<Rightarrow> inner \<Rightarrow> (parkpc \<times> inner) option" where
  "park_step b (KSpin n) q =
     (case compare_exchange NOTIFIED EMPTY (state q) of
        (Inr _, v) \<Rightarrow> Some (KIdle, q\<lparr>state := v\<rparr>)
      | (Inl _, v) \<Rightarrow> Some (if n < 2 then KSpin (Suc n) else KLock, q\<lparr>state := v\<rparr>))"
| "park_step b KLock q =
     (if mutex q \<noteq> None then None
      else if poisoned q then Some (KPanic ExplicitPanic, q)
      else Some (KCas, q\<lparr>mutex := Some ParkerThread\<rparr>))"
| "park_step b KCas q =
     (case compare_exchange EMPTY PARKED_CONDVAR (state q) of
        (Inr _, v) \<Rightarrow> Some (KWait, q\<lparr>state := v\<rparr>)
      | (Inl actual, v) \<Rightarrow>
          if actual = NOTIFIED then Some (KSwap, q\<lparr>state := v\<rparr>)
          else Some (KPanic ExplicitPanic, q\<lparr>state := v, mutex := None, poisoned := True\<rparr>))"
| "park_step b KSwap q =
     (case atomic_swap EMPTY (state q) of
        (old, v) \<Rightarrow> if old = NOTIFIED then Some (KUnlock, q\<lparr>state := v\<rparr>)
                   else Some (KPanic AssertFailed, q\<lparr>state := v, mutex := None, poisoned := True\<rparr>))"
| "park_step b KWait q = Some (KSleep, q\<lparr>mutex := None, sleeping := True\<rparr>)"
| "park_step b KSleep q = (if sleeping q \<and> \<not> b then None else Some (KRelock, q\<lparr>sleeping := False\<rparr>))"
| "park_step b KRelock q =
     (if mutex q \<noteq> None then None
      else if poisoned q then Some (KPanic ExplicitPanic, q)
      else Some (KStore, q\<lparr>mutex := Some ParkerThread\<rparr>))"
| "park_step b KStore q = Some (KUnlock, q\<lparr>state := EMPTY\<rparr>)"
| "park_step b KUnlock q = Some (KIdle, q\<lparr>mutex := None\<rparr>)"
| "park_step b KIdle q = None"
| "park_step b (KPanic e) q = None"

section \<open>unpark\<close>

datatype unparkpc =
    UIdle
  | USwap         \<comment> \<open>\<open>self.state.swap(NOTIFIED)\<close>\<close>
  | ULock         \<comment> \<open>\<open>unpark_condvar\<close>: \<open>self.mutex.lock()\<close>, poisoned or not\<close>
  | UUnlock       \<comment> \<open>\<open>drop\<close> of the guard\<close>
  | UNotify       \<comment> \<open>\<open>self.condvar.notify_one()\<close>\<close>
  | UPanic panic

fun unpark_step :: "nat \<Rightarrow> unparkpc \<Rightarrow> inner \<Rightarrow> (unparkpc \<times> inner) option" where
  "unpark_step t USwap q =
     (case atomic_swap NOTIFIED (state q) of
        (old, v) \<Rightarrow> Some (if old = NOTIFIED \<or> old = EMPTY then UIdle
                         else if old = PARKED_CONDVAR then ULock else UPanic ExplicitPanic, q\<lparr>state := v\<rparr>))"
| "unpark_step t ULock q = (if mutex q \<noteq> None then None else Some (UUnlock, q\<lparr>mutex := Some (UnparkerThread t)\<rparr>))"
| "unpark_step t UUnlock q = Some (UNotify, q\<lparr>mutex := None\<rparr>)"
| "unpark_step t UNotify q = Some (UIdle, q\<lparr>sleeping := False\<rparr>)"
| "unpark_step t UIdle q = None"
| "unpark_step t (UPanic e) q = None"

section \<open>The system\<close>

text \<open>Labels: a call of \<open>park_timeout\<close>, its next step; thread \<open>t\<close> calls \<open>unpark\<close>, its next step.\<close>

datatype tplabel = TpPark | TpRx bool | TpUnpark nat | TpTx nat

record tpsys =
  inner :: inner
  kpc :: parkpc
  upc :: "nat \<Rightarrow> unparkpc"

definition tpsys_init :: tpsys where
  "tpsys_init = \<lparr>inner = inner_new, kpc = KIdle, upc = (\<lambda>_. UIdle)\<rparr>"

fun tpsys_next :: "tpsys \<Rightarrow> tplabel \<Rightarrow> tpsys option" where
  "tpsys_next s TpPark = (if kpc s = KIdle then Some (s\<lparr>kpc := KSpin 0\<rparr>) else None)"
| "tpsys_next s (TpRx b) =
     (case park_step b (kpc s) (inner s) of None \<Rightarrow> None | Some (pc, q) \<Rightarrow> Some (s\<lparr>inner := q, kpc := pc\<rparr>))"
| "tpsys_next s (TpUnpark t) = (if upc s t = UIdle then Some (s\<lparr>upc := (upc s)(t := USwap)\<rparr>) else None)"
| "tpsys_next s (TpTx t) =
     (case unpark_step t (upc s t) (inner s) of
        None \<Rightarrow> None | Some (pc, q) \<Rightarrow> Some (s\<lparr>inner := q, upc := (upc s)(t := pc)\<rparr>))"

section \<open>The invariant\<close>

definition at_lock :: "(nat \<Rightarrow> unparkpc) \<Rightarrow> bool" where
  "at_lock U \<longleftrightarrow> (\<exists>t. U t = ULock)"

fun waking :: "unparkpc \<Rightarrow> bool" where
  "waking ULock = True"
| "waking UUnlock = True"
| "waking UNotify = True"
| "waking _ = False"

definition some_waking :: "(nat \<Rightarrow> unparkpc) \<Rightarrow> bool" where
  "some_waking U \<longleftrightarrow> (\<exists>t. waking (U t))"

fun holds_mutex :: "parkpc \<Rightarrow> bool" where
  "holds_mutex KCas = True"
| "holds_mutex KSwap = True"
| "holds_mutex KWait = True"
| "holds_mutex KStore = True"
| "holds_mutex KUnlock = True"
| "holds_mutex _ = False"

fun parked :: "parkpc \<Rightarrow> bool" where
  "parked KWait = True"
| "parked KSleep = True"
| "parked KRelock = True"
| "parked KStore = True"
| "parked _ = False"

text \<open>What holds of the atomic state at a program point of the parker.\<close>

fun state_ok :: "parkpc \<Rightarrow> usize \<Rightarrow> bool" where
  "state_ok KSwap v \<longleftrightarrow> v = NOTIFIED"
| "state_ok KWait v \<longleftrightarrow> v = PARKED_CONDVAR \<or> v = NOTIFIED"
| "state_ok KSleep v \<longleftrightarrow> v = PARKED_CONDVAR \<or> v = NOTIFIED"
| "state_ok KRelock v \<longleftrightarrow> v = PARKED_CONDVAR \<or> v = NOTIFIED"
| "state_ok KStore v \<longleftrightarrow> v = PARKED_CONDVAR \<or> v = NOTIFIED"
| "state_ok (KPanic e) v \<longleftrightarrow> False"
| "state_ok _ v \<longleftrightarrow> v = EMPTY \<or> v = NOTIFIED"

definition tp_ok :: "inner \<Rightarrow> parkpc \<Rightarrow> (nat \<Rightarrow> unparkpc) \<Rightarrow> bool" where
  "tp_ok q pc U \<longleftrightarrow> state_ok pc (state q) \<and> \<not> poisoned q \<and> (sleeping q \<longrightarrow> pc = KSleep) \<and>
     (mutex q = Some ParkerThread \<longleftrightarrow> holds_mutex pc) \<and>
     (\<forall>t. mutex q = Some (UnparkerThread t) \<longleftrightarrow> U t = UUnlock) \<and>
     (\<forall>t e. U t \<noteq> UPanic e) \<and>
     (pc = KWait \<and> state q = NOTIFIED \<longrightarrow> at_lock U) \<and>
     (sleeping q \<and> state q = NOTIFIED \<longrightarrow> some_waking U)"

lemma tp_ok_init: "tp_ok (inner tpsys_init) (kpc tpsys_init) (upc tpsys_init)"
  by (simp add: tp_ok_def tpsys_init_def inner_new_def)

lemma at_lock_waking: "at_lock U \<Longrightarrow> some_waking U"
  unfolding at_lock_def some_waking_def by (metis waking.simps(1))

lemma state_okD: "state_ok pc v \<Longrightarrow> v = EMPTY \<or> v = PARKED_CONDVAR \<or> v = NOTIFIED"
  by (cases pc) auto

lemma state_ok_notified: "state_ok pc v \<Longrightarrow> state_ok pc NOTIFIED"
  by (cases pc) auto

lemma tp_ok_park:
  assumes i: "tp_ok q pc U" and st: "park_step b pc q = Some (pc', q')"
  shows "tp_ok q' pc' U"
proof (cases pc)
  case (KSpin n)
  then show ?thesis using i st by (cases "state q = NOTIFIED") (auto simp: tp_ok_def atomic_defs split: if_splits)
next
  case KCas
  then have "state q = EMPTY \<or> state q = NOTIFIED" using i by (simp add: tp_ok_def)
  then show ?thesis using i st KCas by (cases "state q = EMPTY") (auto simp: tp_ok_def atomic_defs)
next
  case KSwap
  then show ?thesis using i st by (auto simp: tp_ok_def atomic_defs)
next
  case KWait
  then show ?thesis using i st by (auto simp: tp_ok_def at_lock_waking)
next
  case KUnlock
  then have "pc' = KIdle" "q' = q\<lparr>mutex := None\<rparr>" "mutex q = Some ParkerThread" using i st by (simp_all add: tp_ok_def)
  then show ?thesis using i KUnlock by (simp add: tp_ok_def)
next
  case KRelock
  then have "pc' = KStore" "q' = q\<lparr>mutex := Some ParkerThread\<rparr>" "mutex q = None"
    using i st by (auto simp: tp_ok_def split: if_splits)
  then show ?thesis using i KRelock by (simp add: tp_ok_def)
next
  case KLock
  then have "pc' = KCas" "q' = q\<lparr>mutex := Some ParkerThread\<rparr>" "mutex q = None"
    using i st by (auto simp: tp_ok_def split: if_splits)
  then show ?thesis using i KLock by (simp add: tp_ok_def)
qed (use i st in \<open>auto simp: tp_ok_def split: if_splits\<close>)

lemma at_lock_upd: "pc = ULock \<or> U t \<noteq> ULock \<and> at_lock U \<Longrightarrow> at_lock (U(t := pc))"
  unfolding at_lock_def by (rule ex_upd)

lemma some_waking_upd: "waking pc \<or> \<not> waking (U t) \<and> some_waking U \<Longrightarrow> some_waking (U(t := pc))"
  unfolding some_waking_def by (metis fun_upd_other fun_upd_same)

lemma tp_ok_unpark_call:
  assumes "tp_ok q pc U" "U t = UIdle"
  shows "tp_ok q pc (U(t := USwap))"
  using assms by (auto simp: tp_ok_def at_lock_upd some_waking_upd)

lemma tp_ok_unpark:
  assumes i: "tp_ok q pc U" and st: "unpark_step t (U t) q = Some (u, q')"
  shows "tp_ok q' pc (U(t := u))"
proof (cases "U t")
  case USwap
  have s: "state_ok pc NOTIFIED" "state q = EMPTY \<or> state q = PARKED_CONDVAR \<or> state q = NOTIFIED"
    using i state_ok_notified state_okD by (auto simp: tp_ok_def)
  have e: "sleeping q \<longrightarrow> state q \<noteq> EMPTY" "pc = KWait \<longrightarrow> state q \<noteq> EMPTY" using i by (auto simp: tp_ok_def)
  have q': "q' = q\<lparr>state := NOTIFIED\<rparr>" using st USwap by (simp add: atomic_defs)
  from s(2) show ?thesis
  proof (elim disjE)
    assume o: "state q = EMPTY"
    then have "u = UIdle" "\<not> sleeping q" "pc \<noteq> KWait" using st USwap e by (auto simp: atomic_defs)
    then show ?thesis using USwap i s(1) o by (simp add: tp_ok_def q' at_lock_upd some_waking_upd)
  next
    assume o: "state q = PARKED_CONDVAR"
    then have "u = ULock" using st USwap by (simp add: atomic_defs)
    then show ?thesis using USwap i s(1) by (simp add: tp_ok_def q' at_lock_upd some_waking_upd)
  next
    assume o: "state q = NOTIFIED"
    then have "u = UIdle" using st USwap by (simp add: atomic_defs)
    then show ?thesis using USwap i s(1) o by (simp add: tp_ok_def q' at_lock_upd some_waking_upd)
  qed
next
  case ULock
  then have "pc \<noteq> KWait" using i st by (auto simp: tp_ok_def split: if_splits)
  then show ?thesis using ULock i st by (auto simp: tp_ok_def some_waking_upd split: if_splits)
next
  case UUnlock
  have m: "mutex q = Some (UnparkerThread t)" using UUnlock i by (simp add: tp_ok_def)
  then have o: "U t' \<noteq> UUnlock" if "t' \<noteq> t" for t' using i m that unfolding tp_ok_def by fastforce
  have "u = UNotify" "q' = q\<lparr>mutex := None\<rparr>" using st UUnlock by simp_all
  then show ?thesis using i m o UUnlock by (simp add: tp_ok_def at_lock_upd some_waking_upd)
next
  case UNotify
  then have "u = UIdle" "q' = q\<lparr>sleeping := False\<rparr>" using st by simp_all
  then show ?thesis using i UNotify by (auto simp: tp_ok_def intro: at_lock_upd)
qed (use st in simp_all)


lemma tp_ok_step:
  assumes i: "tp_ok (inner s) (kpc s) (upc s)" and st: "tpsys_next s l = Some s'"
  shows "tp_ok (inner s') (kpc s') (upc s')"
proof (cases l)
  case TpPark
  then show ?thesis using i st by (auto simp: tp_ok_def split: if_splits)
next
  case (TpRx b)
  then obtain pc q where "park_step b (kpc s) (inner s) = Some (pc, q)" "s' = s\<lparr>inner := q, kpc := pc\<rparr>"
    using st by (auto split: option.splits)
  with tp_ok_park [OF i] show ?thesis by simp
next
  case (TpUnpark t)
  then have "upc s t = UIdle" "s' = s\<lparr>upc := (upc s)(t := USwap)\<rparr>" using st by (auto split: if_splits)
  with tp_ok_unpark_call [OF i] show ?thesis by simp
next
  case (TpTx t)
  then obtain u q where "unpark_step t (upc s t) (inner s) = Some (u, q)" "s' = s\<lparr>inner := q, upc := (upc s)(t := u)\<rparr>"
    using st by (auto split: option.splits)
  with tp_ok_unpark [OF i] show ?thesis by simp
qed

interpretation tp: lts_invariant tpsys_next tpsys_init "\<lambda>s. tp_ok (inner s) (kpc s) (upc s)"
  by unfold_locales (auto intro: tp_ok_init tp_ok_step)

text \<open>A call that is under way and has a notification pending does not go to sleep.\<close>

definition about_to_return :: "tpsys \<Rightarrow> bool" where
  "about_to_return s \<longleftrightarrow> (case kpc s of
     KSpin n \<Rightarrow> state (inner s) = NOTIFIED
   | KLock \<Rightarrow> state (inner s) = NOTIFIED
   | KCas \<Rightarrow> state (inner s) = NOTIFIED
   | KSwap \<Rightarrow> True
   | KUnlock \<Rightarrow> True
   | KIdle \<Rightarrow> True
   | _ \<Rightarrow> False)"

lemma unpark_state: "unpark_step t u q = Some (u', q') \<Longrightarrow> state q' = state q \<or> state q' = NOTIFIED"
  by (cases u) (auto simp: atomic_defs split: if_splits)

lemma about_to_return_step:
  assumes i: "tp_ok (inner s) (kpc s) (upc s)" and a: "about_to_return s"
    and st: "guarded (\<lambda>l. l \<noteq> TpPark) tpsys_next s l = Some s'"
  shows "about_to_return s'"
proof -
  have n: "l \<noteq> TpPark" "tpsys_next s l = Some s'" using guardedD [OF st] by auto
  show ?thesis
  proof (cases l)
    case (TpRx b)
    then show ?thesis using n i a
      by (cases "kpc s") (auto simp: about_to_return_def atomic_defs tp_ok_def split: if_splits)
  next
    case (TpTx t)
    then obtain u q where "unpark_step t (upc s t) (inner s) = Some (u, q)" "s' = s\<lparr>inner := q, upc := (upc s)(t := u)\<rparr>"
      using n by (auto split: option.splits)
    with unpark_state [of t "upc s t" "inner s" u q] a show ?thesis by (cases "kpc s") (auto simp: about_to_return_def)
  qed (use n a in \<open>auto simp: about_to_return_def split: if_splits parkpc.splits\<close>)
qed

interpretation tpu: lts_stable "guarded (\<lambda>l. l \<noteq> TpPark) tpsys_next" tpsys_init "\<lambda>s. tp_ok (inner s) (kpc s) (upc s)" about_to_return
  by unfold_locales (auto intro: tp_ok_init tp_ok_step about_to_return_step dest: guardedD)

fun park_rank :: "parkpc \<Rightarrow> nat" where
  "park_rank (KSpin n) = 8 + (3 - n)"
| "park_rank KLock = 7"
| "park_rank KCas = 6"
| "park_rank KSwap = 2"
| "park_rank KWait = 5"
| "park_rank KSleep = 4"
| "park_rank KRelock = 3"
| "park_rank KStore = 2"
| "park_rank KUnlock = 1"
| "park_rank _ = 0"

lemma park_step_rank: "park_step b pc q = Some (pc', q') \<Longrightarrow> park_rank pc' < park_rank pc"
  by (cases pc) (auto simp: atomic_defs split: if_splits)

section \<open>Properties\<close>

text \<open>
  C29: The parker never finds an inconsistent state.  In every interleaving of calls of \<open>park_timeout\<close> with
  any number of unparking threads, and whenever the waits end, the atomic state is \<^const>\<open>EMPTY\<close>,
  \<^const>\<open>PARKED_CONDVAR\<close> or \<^const>\<open>NOTIFIED\<close>, neither of the two panics on an inconsistent state nor the
  \<open>debug_assert_eq!\<close> fires, and the mutex is never poisoned.
\<close>

theorem tp_never_inconsistent:
  assumes "reaches tpsys_next tpsys_init s"
  shows "state (inner s) \<in> {EMPTY, PARKED_CONDVAR, NOTIFIED} \<and> (\<forall>e. kpc s \<noteq> KPanic e) \<and> (\<forall>t e. upc s t \<noteq> UPanic e) \<and>
    \<not> poisoned (inner s)"
proof -
  have "tp_ok (inner s) (kpc s) (upc s)" by (rule tp.inv_reaches [OF assms])
  then have t: "state_ok (kpc s) (state (inner s))" "\<not> poisoned (inner s)" "\<forall>t e. upc s t \<noteq> UPanic e"
    by (simp_all add: tp_ok_def)
  have "kpc s \<noteq> KPanic e" for e using t(1) by (cases "kpc s") auto
  with t state_okD [OF t(1)] show ?thesis by simp
qed

theorem tp_never_inconsistent_witness:
  "\<exists>s. reaches tpsys_next tpsys_init s \<and> kpc s = KSwap \<and> state (inner s) \<in> {EMPTY, PARKED_CONDVAR, NOTIFIED} \<and> kpc s \<noteq> KPanic AssertFailed"
proof -
  have "run_ok tpsys_next tpsys_init ([TpPark] @ replicate 4 (TpRx False) @ [TpUnpark 0, TpTx 0, TpRx False]) (\<lambda>s. kpc s = KSwap)"
    by code_simp
  then obtain s where s: "reaches tpsys_next tpsys_init s" "kpc s = KSwap" by (auto dest: run_ok_reaches)
  with tp_never_inconsistent [OF s(1)] show ?thesis by auto
qed

text \<open>
  C30: A sleeping parker is woken.  Whenever the parker sleeps in the condition variable although an
  \<open>unpark\<close> has changed the state to \<^const>\<open>NOTIFIED\<close>, a thread in \<open>unpark_condvar\<close> has its \<open>notify_one\<close> still
  ahead of it; and while the parker holds the mutex on its way to sleep, that thread has not got past
  the lock.
\<close>

theorem tp_sleeper_is_woken:
  assumes "reaches tpsys_next tpsys_init s" "state (inner s) = NOTIFIED"
  shows "(sleeping (inner s) \<longrightarrow> (\<exists>t. upc s t \<in> {ULock, UUnlock, UNotify})) \<and> (kpc s = KWait \<longrightarrow> (\<exists>t. upc s t = ULock))"
proof -
  have "tp_ok (inner s) (kpc s) (upc s)" by (rule tp.inv_reaches [OF assms(1)])
  then have "sleeping (inner s) \<longrightarrow> some_waking (upc s)" "kpc s = KWait \<longrightarrow> at_lock (upc s)"
    using assms(2) by (simp_all add: tp_ok_def)
  moreover have "u \<in> {ULock, UUnlock, UNotify}" if "waking u" for u using that by (cases u) auto
  ultimately show ?thesis unfolding some_waking_def at_lock_def by blast
qed

theorem tp_sleeper_is_woken_witness:
  "\<exists>s. reaches tpsys_next tpsys_init s \<and> sleeping (inner s) \<and> (\<exists>t. upc s t \<in> {ULock, UUnlock, UNotify})"
proof -
  have "run_ok tpsys_next tpsys_init ([TpPark] @ replicate 5 (TpRx False) @ [TpUnpark 0, TpTx 0, TpRx False])
      (\<lambda>s. sleeping (inner s) \<and> state (inner s) = NOTIFIED)"
    by code_simp
  then obtain s where s: "reaches tpsys_next tpsys_init s" "sleeping (inner s)" "state (inner s) = NOTIFIED"
    by (auto dest: run_ok_reaches)
  with tp_sleeper_is_woken [OF s(1,3)] show ?thesis by blast
qed

text \<open>
  A notification that comes before the parker sleeps makes it return.  If the state is \<^const>\<open>NOTIFIED\<close>
  when \<open>park_timeout\<close> is called, or becomes so before the parker has published that it is parked, then
  this call never sleeps, however the steps of the unparking threads interleave.
\<close>

theorem tp_pending_unpark_returns:
  assumes "reaches (guarded (\<lambda>l. l \<noteq> TpPark) tpsys_next) s0 s" "reaches tpsys_next tpsys_init s0"
    and "state (inner s0) = NOTIFIED" "\<exists>n. kpc s0 = KSpin n \<or> kpc s0 = KLock \<or> kpc s0 = KCas"
  shows "kpc s \<noteq> KWait \<and> kpc s \<noteq> KSleep \<and> \<not> sleeping (inner s)"
proof -
  obtain ls where ls: "exec (guarded (\<lambda>l. l \<noteq> TpPark) tpsys_next) s0 ls = Some s" using assms(1) by (auto simp: reaches_def)
  have i: "tp_ok (inner s0) (kpc s0) (upc s0)" by (rule tp.inv_reaches [OF assms(2)])
  have a0: "about_to_return s0" using assms(3,4) by (auto simp: about_to_return_def)
  have a: "about_to_return s" by (rule tpu.stable_exec [OF i a0 ls])
  have "tp_ok (inner s) (kpc s) (upc s)" by (rule tpu.inv_exec [OF i ls])
  with a show ?thesis by (auto simp: about_to_return_def tp_ok_def)
qed

theorem tp_pending_unpark_returns_witness:
  "\<exists>s0 s. reaches tpsys_next tpsys_init s0 \<and> kpc s0 = KLock \<and> reaches (guarded (\<lambda>l. l \<noteq> TpPark) tpsys_next) s0 s \<and>
     kpc s = KIdle \<and> \<not> sleeping (inner s)"
proof -
  have "run_ok tpsys_next tpsys_init ([TpPark] @ replicate 3 (TpRx False) @ [TpUnpark 0, TpTx 0])
      (\<lambda>s. kpc s = KLock \<and> state (inner s) = NOTIFIED \<and>
        run_ok (guarded (\<lambda>l. l \<noteq> TpPark) tpsys_next) s (replicate 4 (TpRx False)) (\<lambda>s. kpc s = KIdle))"
    by code_simp
  then obtain s0 s where s: "reaches tpsys_next tpsys_init s0" "kpc s0 = KLock" "state (inner s0) = NOTIFIED"
    "reaches (guarded (\<lambda>l. l \<noteq> TpPark) tpsys_next) s0 s" "kpc s = KIdle" by (blast dest: run_ok_reaches)
  with tp_pending_unpark_returns [OF s(4,1,3)] show ?thesis by blast
qed

text \<open>
  C31: \<open>park_timeout\<close> returns.  Every step of a parking call decreases a rank that starts at eleven; and
  whenever the call is not over, its next step is possible once the wait times out, or the mutex
  is held by an unparking thread whose next step releases it.
\<close>

theorem tp_park_returns:
  assumes "reaches tpsys_next tpsys_init s" "kpc s \<noteq> KIdle"
  shows "(\<forall>b s'. tpsys_next s (TpRx b) = Some s' \<longrightarrow> park_rank (kpc s') < park_rank (kpc s)) \<and>
    ((\<exists>s'. tpsys_next s (TpRx True) = Some s') \<or>
     (\<exists>t s'. mutex (inner s) = Some (UnparkerThread t) \<and> tpsys_next s (TpTx t) = Some s' \<and> mutex (inner s') = None)) \<and>
    park_rank (KSpin 0) = 11"
proof -
  have i: "tp_ok (inner s) (kpc s) (upc s)" by (rule tp.inv_reaches [OF assms(1)])
  have "(\<exists>s'. tpsys_next s (TpRx True) = Some s') \<or>
     (\<exists>t s'. mutex (inner s) = Some (UnparkerThread t) \<and> tpsys_next s (TpTx t) = Some s' \<and> mutex (inner s') = None)"
  proof (cases "park_step True (kpc s) (inner s)")
    case (Some r)
    then show ?thesis by (cases r) simp
  next
    case None
    then have m: "kpc s = KLock \<or> kpc s = KRelock" "mutex (inner s) \<noteq> None"
      using assms(2) i by (cases "kpc s"; auto simp: atomic_defs tp_ok_def split: if_splits)+
    then obtain w where w: "mutex (inner s) = Some w" by blast
    with m i obtain t where t: "w = UnparkerThread t" by (cases w) (auto simp: tp_ok_def)
    then have "upc s t = UUnlock" using i w by (auto simp: tp_ok_def)
    then show ?thesis using w t by simp
  qed
  then show ?thesis using park_step_rank by (auto split: option.splits)
qed

theorem tp_park_returns_witness:
  "\<exists>s. reaches tpsys_next tpsys_init s \<and> kpc s = KRelock \<and> mutex (inner s) = Some (UnparkerThread 0) \<and>
     (\<exists>s'. tpsys_next s (TpTx 0) = Some s' \<and> mutex (inner s') = None)"
proof -
  have "run_ok tpsys_next tpsys_init ([TpPark] @ replicate 6 (TpRx False) @ [TpUnpark 0, TpTx 0, TpTx 0, TpRx True])
      (\<lambda>s. kpc s = KRelock \<and> mutex (inner s) = Some (UnparkerThread 0))"
    by code_simp
  then obtain s where s: "reaches tpsys_next tpsys_init s" "kpc s = KRelock" "mutex (inner s) = Some (UnparkerThread 0)"
    by (auto dest: run_ok_reaches)
  with tp_park_returns [OF s(1)] show ?thesis by auto
qed

end
