(* ===== verification/Futures.thy ===== *)
theory Futures imports Prelude begin

text \<open>
  \<open>tokio_transplant/future\<close>: \<open>MaybeDone\<close>, \<open>PollFn\<close> and \<open>TryJoin3\<close>.  The futures they combine are supplied
  by the user, so the \<open>poll\<close> of each is a parameter: it maps the future and the context (with whatever
  else polling can change) to the answer, the future and the context afterwards, or panics.  The
  contract of the trait \<open>Future\<close> is a locale: a valid future does not panic when polled and is still
  valid if the answer is pending; nothing is promised about a future that has answered ready.
\<close>

datatype 'a poll = Pending | Ready 'a

datatype ('t, 'e) result = Ok 't | Err 'e

type_synonym ('f, 'c, 'a) poller = "'f \<Rightarrow> 'c \<Rightarrow> panic + ('a poll \<times> 'f \<times> 'c)"

locale future =
  fixes poll :: "('f, 'c, 'a) poller" and valid :: "'f \<Rightarrow> bool"
  assumes poll_valid: "valid f \<Longrightarrow> \<exists>a f' c'. poll f c = Inr (a, f', c') \<and> (a = Pending \<longrightarrow> valid f')"

text \<open>\<open>Option::unwrap\<close>.\<close>

definition unwrap :: "'a option \<Rightarrow> panic + 'a" where
  "unwrap x = (case x of None \<Rightarrow> Inl UnwrapNone | Some a \<Rightarrow> Inr a)"

lemma unwrap_simps [simp]: "unwrap None = Inl UnwrapNone" "unwrap (Some a) = Inr a"
  by (simp_all add: unwrap_def)

section \<open>MaybeDone\<close>

datatype ('f, 'o) maybe_done = Future 'f | Done 'o | Gone

definition maybe_done :: "'f \<Rightarrow> ('f, 'o) maybe_done" where
  "maybe_done f = Future f"

definition output_mut :: "('f, 'o) maybe_done \<Rightarrow> 'o option" where
  "output_mut m = (case m of Done res \<Rightarrow> Some res | _ \<Rightarrow> None)"

text \<open>\<open>take_output\<close>: the first match returns unless done; then the value is replaced by \<open>Gone\<close>.\<close>

definition take_output :: "('f, 'o) maybe_done \<Rightarrow> 'o option \<times> ('f, 'o) maybe_done" where
  "take_output m = (case m of
     Done x \<Rightarrow> (case (m, Gone) of (Done output, m') \<Rightarrow> (Some output, m') | (_, m') \<Rightarrow> (None, m'))
   | Future f \<Rightarrow> (None, m)
   | Gone \<Rightarrow> (None, m))"

definition md_poll :: "('f, 'c, 'o) poller \<Rightarrow> (('f, 'o) maybe_done, 'c, unit) poller" where
  "md_poll p m c = (case m of
     Future a \<Rightarrow> bindE (p a c) (\<lambda>(r, a', c'). case r of
        Pending \<Rightarrow> Inr (Pending, Future a', c')
      | Ready res \<Rightarrow> Inr (Ready (), Done res, c'))
   | Done x \<Rightarrow> Inr (Ready (), m, c)
   | Gone \<Rightarrow> Inl ExplicitPanic)"

lemma md_simps [simp]:
  "output_mut (Future f) = None" "output_mut (Done r) = Some r" "output_mut Gone = None"
  "take_output (Future f) = (None, Future f)" "take_output (Done r) = (Some r, Gone)" "take_output Gone = (None, Gone)"
  "md_poll p (Done r) c = Inr (Ready (), Done r, c)" "md_poll p Gone c = Inl ExplicitPanic"
  by (simp_all add: output_mut_def take_output_def md_poll_def)

section \<open>PollFn\<close>

text \<open>The closure is a state and a function that may change it (\<open>FnMut\<close>).\<close>

record ('s, 'c, 'a) poll_fn =
  closure :: "'s \<Rightarrow> 'c \<Rightarrow> panic + ('a poll \<times> 's \<times> 'c)"
  captured :: 's

definition poll_fn :: "('s \<Rightarrow> 'c \<Rightarrow> panic + ('a poll \<times> 's \<times> 'c)) \<Rightarrow> 's \<Rightarrow> ('s, 'c, 'a) poll_fn" where
  "poll_fn f s = \<lparr>closure = f, captured = s\<rparr>"

definition poll_fn_poll :: "(('s, 'c, 'a) poll_fn, 'c, 'a) poller" where
  "poll_fn_poll me c = bindE (closure me (captured me) c) (\<lambda>(a, s, c'). Inr (a, me\<lparr>captured := s\<rparr>, c'))"

section \<open>TryJoin3\<close>

record ('f1, 'o1, 'f2, 'o2, 'f3, 'o3) try_join3 =
  future1 :: "('f1, 'o1) maybe_done"
  future2 :: "('f2, 'o2) maybe_done"
  future3 :: "('f3, 'o3) maybe_done"

definition try_join3 :: "'f1 \<Rightarrow> 'f2 \<Rightarrow> 'f3 \<Rightarrow> ('f1, 'o1, 'f2, 'o2, 'f3, 'o3) try_join3" where
  "try_join3 f1 f2 f3 = \<lparr>future1 = maybe_done f1, future2 = maybe_done f2, future3 = maybe_done f3\<rparr>"

fun is_err :: "('t, 'e) result \<Rightarrow> bool" where
  "is_err (Err e) = True"
| "is_err (Ok t) = False"

fun result_err :: "('t, 'e) result \<Rightarrow> 'e option" where
  "result_err (Err e) = Some e"
| "result_err (Ok t) = None"

fun result_ok :: "('t, 'e) result \<Rightarrow> 't option" where
  "result_ok (Ok t) = Some t"
| "result_ok (Err e) = None"

text \<open>
  One of the three blocks of \<open>poll\<close>: poll the future; if it is done with an error, take the output and
  return the error (\<open>Inl\<close>), otherwise go on (\<open>Inr\<close>) and say whether it is done.
\<close>

definition join_block :: "('f, 'c, ('t, 'e) result) poller \<Rightarrow> ('f, ('t, 'e) result) maybe_done \<Rightarrow> 'c \<Rightarrow>
    panic + ('e + bool) \<times> ('f, ('t, 'e) result) maybe_done \<times> 'c" where
  "join_block p m c = bindE (md_poll p m c) (\<lambda>(r, m', c').
     if r = Pending then Inr (Inr False, m', c')
     else bindE (unwrap (output_mut m')) (\<lambda>out.
       if is_err out then
         (case take_output m' of (out', m'') \<Rightarrow>
            bindE (unwrap out') (\<lambda>o'. bindE (unwrap (result_err o')) (\<lambda>e. Inr (Inl e, m'', c'))))
       else Inr (Inr True, m', c')))"

definition take_ok :: "('f, ('t, 'e) result) maybe_done \<Rightarrow> panic + 't \<times> ('f, ('t, 'e) result) maybe_done" where
  "take_ok m = (case take_output m of (out, m') \<Rightarrow>
     bindE (unwrap out) (\<lambda>r. bindE (unwrap (result_ok r)) (\<lambda>t. Inr (t, m'))))"

definition tj_poll :: "('f1, 'c, ('t1, 'e) result) poller \<Rightarrow> ('f2, 'c, ('t2, 'e) result) poller \<Rightarrow>
    ('f3, 'c, ('t3, 'e) result) poller \<Rightarrow>
    (('f1, ('t1, 'e) result, 'f2, ('t2, 'e) result, 'f3, ('t3, 'e) result) try_join3, 'c, ('t1 \<times> 't2 \<times> 't3, 'e) result) poller" where
  "tj_poll p1 p2 p3 me c =
     bindE (join_block p1 (future1 me) c) (\<lambda>(r1, m1, c1). case r1 of
       Inl e \<Rightarrow> Inr (Ready (Err e), me\<lparr>future1 := m1\<rparr>, c1)
     | Inr d1 \<Rightarrow>
     bindE (join_block p2 (future2 me) c1) (\<lambda>(r2, m2, c2). case r2 of
       Inl e \<Rightarrow> Inr (Ready (Err e), me\<lparr>future1 := m1, future2 := m2\<rparr>, c2)
     | Inr d2 \<Rightarrow>
     bindE (join_block p3 (future3 me) c2) (\<lambda>(r3, m3, c3). case r3 of
       Inl e \<Rightarrow> Inr (Ready (Err e), me\<lparr>future1 := m1, future2 := m2, future3 := m3\<rparr>, c3)
     | Inr d3 \<Rightarrow>
       if d1 \<and> d2 \<and> d3 then
         bindE (take_ok m1) (\<lambda>(t1, m1'). bindE (take_ok m2) (\<lambda>(t2, m2'). bindE (take_ok m3) (\<lambda>(t3, m3').
           Inr (Ready (Ok (t1, t2, t3)), me\<lparr>future1 := m1', future2 := m2', future3 := m3'\<rparr>, c3))))
       else Inr (Pending, me\<lparr>future1 := m1, future2 := m2, future3 := m3\<rparr>, c3))))"

section \<open>The combinators are futures\<close>

text \<open>
  A \<open>MaybeDone\<close> may be polled until its output is taken.  Inside \<open>TryJoin3\<close> it is never \<open>Gone\<close> and holds
  no error between two polls.
\<close>

fun md_valid :: "('f \<Rightarrow> bool) \<Rightarrow> ('f, 'o) maybe_done \<Rightarrow> bool" where
  "md_valid V (Future f) = V f"
| "md_valid V (Done r) = True"
| "md_valid V Gone = False"

fun join_valid :: "('f \<Rightarrow> bool) \<Rightarrow> ('f, ('t, 'e) result) maybe_done \<Rightarrow> bool" where
  "join_valid V (Future f) = V f"
| "join_valid V (Done r) = (\<not> is_err r)"
| "join_valid V Gone = False"

definition tj_valid :: "('f1 \<Rightarrow> bool) \<Rightarrow> ('f2 \<Rightarrow> bool) \<Rightarrow> ('f3 \<Rightarrow> bool) \<Rightarrow>
    ('f1, ('t1, 'e) result, 'f2, ('t2, 'e) result, 'f3, ('t3, 'e) result) try_join3 \<Rightarrow> bool" where
  "tj_valid V1 V2 V3 me \<longleftrightarrow> join_valid V1 (future1 me) \<and> join_valid V2 (future2 me) \<and> join_valid V3 (future3 me)"

context future
begin

lemma md_poll_valid:
  assumes "md_valid valid m"
  shows "\<exists>a m' c'. md_poll poll m c = Inr (a, m', c') \<and> md_valid valid m' \<and> (a = Ready () \<longleftrightarrow> output_mut m' \<noteq> None)"
proof (cases m)
  case (Future f)
  then obtain a f' c' where "poll f c = Inr (a, f', c')" "a = Pending \<longrightarrow> valid f'" using poll_valid [of f c] assms by auto
  then show ?thesis using Future by (cases a) (auto simp: md_poll_def)
qed (use assms in auto)

end

text \<open>What one block does, as a function of the future it polls.\<close>

fun block_spec :: "('f, 'c, ('t, 'e) result) poller \<Rightarrow> ('f, ('t, 'e) result) maybe_done \<Rightarrow> 'c \<Rightarrow>
    panic + ('e + bool) \<times> ('f, ('t, 'e) result) maybe_done \<times> 'c" where
  "block_spec p (Future f) c = bindE (p f c) (\<lambda>(r, f', c'). case r of
     Pending \<Rightarrow> Inr (Inr False, Future f', c')
   | Ready (Ok t) \<Rightarrow> Inr (Inr True, Done (Ok t), c')
   | Ready (Err e) \<Rightarrow> Inr (Inl e, Gone, c'))"
| "block_spec p (Done (Ok t)) c = Inr (Inr True, Done (Ok t), c)"
| "block_spec p (Done (Err e)) c = Inr (Inl e, Gone, c)"
| "block_spec p Gone c = Inl ExplicitPanic"

lemma join_block_spec: "join_block p m c = block_spec p m c"
  by (cases "(p, m, c)" rule: block_spec.cases)
    (auto simp: join_block_def md_poll_def bindE_def split: sum.splits poll.splits result.splits)

section \<open>Polling to the end\<close>

text \<open>Poll up to \<open>n\<close> times, until the future is ready (or its poll panics).\<close>

fun drive :: "nat \<Rightarrow> ('f, 'c, 'a) poller \<Rightarrow> ('f, 'c, 'a) poller" where
  "drive 0 p f c = Inr (Pending, f, c)"
| "drive (Suc n) p f c = bindE (p f c) (\<lambda>(a, f', c'). case a of
     Pending \<Rightarrow> drive n p f' c'
   | Ready x \<Rightarrow> Inr (Ready x, f', c'))"

lemma drive_Suc: "drive (Suc n) p f c = bindE (drive n p f c) (\<lambda>(a, f', c'). case a of
    Pending \<Rightarrow> p f' c'
  | Ready x \<Rightarrow> Inr (Ready x, f', c'))"
proof (induction n arbitrary: f c)
  case 0
  then show ?case by (auto simp: bindE_def split: sum.splits poll.splits)
next
  case (Suc n)
  show ?case
  proof (cases "p f c")
    case (Inr r)
    obtain a f' c' where r: "r = (a, f', c')" by (cases r)
    show ?thesis
    proof (cases a)
      case Pending
      then have "drive (Suc (Suc n)) p f c = drive (Suc n) p f' c'" "drive (Suc n) p f c = drive n p f' c'"
        using Inr r by simp_all
      then show ?thesis using Suc.IH [of f' c'] by simp
    next
      case (Ready x)
      then show ?thesis using Inr r by simp
    qed
  qed simp
qed

context future
begin

lemma drive_valid:
  "valid f \<Longrightarrow> \<exists>a f' c'. drive n poll f c = Inr (a, f', c') \<and> (a = Pending \<longrightarrow> valid f')"
proof (induction n arbitrary: f c)
  case 0
  then show ?case by simp
next
  case (Suc n)
  obtain a f' c' where p: "poll f c = Inr (a, f', c')" "a = Pending \<longrightarrow> valid f'" using poll_valid [OF Suc.prems] by blast
  show ?case
  proof (cases a)
    case Pending
    then show ?thesis using Suc.IH [of f' c'] p by simp
  next
    case (Ready x)
    then show ?thesis using p by simp
  qed
qed

end

lemma block_valid:
  assumes "future p V" "join_valid V m"
  shows "\<exists>r m' c'. join_block p m c = Inr (r, m', c') \<and>
    (\<forall>d. r = Inr d \<longrightarrow> join_valid V m' \<and> (d \<longleftrightarrow> (\<exists>t. m' = Done (Ok t))))"
proof (cases m)
  case (Future f)
  then obtain a f' c' where p: "p f c = Inr (a, f', c')" "a = Pending \<longrightarrow> V f'"
    using future.poll_valid [OF assms(1), of f c] assms(2) by auto
  then show ?thesis using Future by (cases a) (auto simp: join_block_spec split: result.splits)
next
  case (Done r)
  then show ?thesis using assms(2) by (cases r) (auto simp: join_block_spec)
qed (use assms in simp)

context future
begin

lemma md_future: "future (md_poll poll) (md_valid valid)"
proof
  fix m :: "('f, 'a) maybe_done" and c
  assume "md_valid valid m"
  from md_poll_valid [OF this, of c]
  show "\<exists>a m' c'. md_poll poll m c = Inr (a, m', c') \<and> (a = Pending \<longrightarrow> md_valid valid m')" by blast
qed

end

text \<open>A closure that behaves like a future, wrapped by \<open>poll_fn\<close>, is one.\<close>

context future
begin

lemma poll_fn_future: "future poll_fn_poll (\<lambda>me. closure me = poll \<and> valid (captured me))"
proof
  fix me :: "('f, 'c, 'a) poll_fn" and c
  assume v: "closure me = poll \<and> valid (captured me)"
  then obtain a s c' where "poll (captured me) c = Inr (a, s, c')" "a = Pending \<longrightarrow> valid s" using poll_valid by blast
  with v show "\<exists>a f' c'. poll_fn_poll me c = Inr (a, f', c') \<and>
      (a = Pending \<longrightarrow> closure f' = poll \<and> valid (captured f'))"
    by (simp add: poll_fn_poll_def)
qed

end

lemma take_ok_Done [simp]: "take_ok (Done (Ok t)) = Inr (t, Gone)"
  by (simp add: take_ok_def)

locale three_futures = f1: future p1 V1 + f2: future p2 V2 + f3: future p3 V3
  for p1 :: "('f1, 'c, ('t1, 'e) result) poller" and V1
  and p2 :: "('f2, 'c, ('t2, 'e) result) poller" and V2
  and p3 :: "('f3, 'c, ('t3, 'e) result) poller" and V3

sublocale three_futures \<subseteq> tj: future "tj_poll p1 p2 p3" "tj_valid V1 V2 V3"
proof
  fix me :: "('f1, ('t1, 'e) result, 'f2, ('t2, 'e) result, 'f3, ('t3, 'e) result) try_join3" and c
  assume v: "tj_valid V1 V2 V3 me"
  obtain r1 m1 c1 where b1: "join_block p1 (future1 me) c = Inr (r1, m1, c1)"
      "\<And>d. r1 = Inr d \<Longrightarrow> join_valid V1 m1 \<and> (d \<longleftrightarrow> (\<exists>t. m1 = Done (Ok t)))"
    using block_valid [OF f1.future_axioms, of "future1 me" c] v by (auto simp: tj_valid_def)
  obtain r2 m2 c2 where b2: "join_block p2 (future2 me) c1 = Inr (r2, m2, c2)"
      "\<And>d. r2 = Inr d \<Longrightarrow> join_valid V2 m2 \<and> (d \<longleftrightarrow> (\<exists>t. m2 = Done (Ok t)))"
    using block_valid [OF f2.future_axioms, of "future2 me" c1] v by (auto simp: tj_valid_def)
  obtain r3 m3 c3 where b3: "join_block p3 (future3 me) c2 = Inr (r3, m3, c3)"
      "\<And>d. r3 = Inr d \<Longrightarrow> join_valid V3 m3 \<and> (d \<longleftrightarrow> (\<exists>t. m3 = Done (Ok t)))"
    using block_valid [OF f3.future_axioms, of "future3 me" c2] v by (auto simp: tj_valid_def)
  show "\<exists>a f' c'. tj_poll p1 p2 p3 me c = Inr (a, f', c') \<and> (a = Pending \<longrightarrow> tj_valid V1 V2 V3 f')"
    using b1 b2 b3 by (cases r1; cases r2; cases r3) (auto simp: tj_poll_def tj_valid_def)
qed

context three_futures
begin

lemmas tj_drive = tj.drive_valid

end

lemma three_futures_intro: "future p1 V1 \<Longrightarrow> future p2 V2 \<Longrightarrow> future p3 V3 \<Longrightarrow> three_futures p1 V1 p2 V2 p3 V3"
  by (simp add: three_futures_def)

section \<open>Scripted futures\<close>

text \<open>
  A future that is pending a given number of times, then ready with a given value, and panics when it
  is polled again.
\<close>

fun script_poll :: "((nat \<times> 'a) option, 'c, 'a) poller" where
  "script_poll (Some (0, r)) c = Inr (Ready r, None, c)"
| "script_poll (Some (Suc n, r)) c = Inr (Pending, Some (n, r), c)"
| "script_poll None c = Inl ExplicitPanic"

interpretation script: future script_poll "\<lambda>f. f \<noteq> None"
proof
  fix f :: "(nat \<times> 'a) option" and c :: 'c
  assume "f \<noteq> None"
  then show "\<exists>a f' c'. script_poll f c = Inr (a, f', c') \<and> (a = Pending \<longrightarrow> f' \<noteq> None)"
    by (cases "(f, c)" rule: script_poll.cases) auto
qed

interpretation scripts: three_futures script_poll "\<lambda>f. f \<noteq> None" script_poll "\<lambda>f. f \<noteq> None" script_poll "\<lambda>f. f \<noteq> None"
  by (intro three_futures_intro script.future_axioms)

text \<open>
  C34: \<open>TryJoin3\<close> is a well-behaved future.  If each of the three futures can be polled without a panic
  until it is ready, then so can their \<open>try_join3\<close>, any number of times until it is ready: none of its
  unwraps fails, and it never polls a future that has already answered.
\<close>

theorem tj_never_panics:
  assumes "future p1 V1" "future p2 V2" "future p3 V3" "V1 f1" "V2 f2" "V3 f3"
  shows "\<exists>a me c'. drive n (tj_poll p1 p2 p3) (try_join3 f1 f2 f3) c = Inr (a, me, c') \<and>
    (a = Pending \<longrightarrow> tj_valid V1 V2 V3 me)"
proof -
  have "tj_valid V1 V2 V3 (try_join3 f1 f2 f3)"
    using assms(4-6) by (simp add: tj_valid_def try_join3_def maybe_done_def)
  then show ?thesis by (rule three_futures.tj_drive [OF three_futures_intro [OF assms(1-3)]])
qed

theorem tj_never_panics_witness:
  "\<exists>a me c'. drive 9 (tj_poll script_poll script_poll script_poll)
      (try_join3 (Some (2, Ok (1::nat))) (Some (0, Ok True)) (Some (4, Err ''e'' :: (unit, string) result))) () = Inr (a, me, c')"
  using tj_never_panics [OF script.future_axioms script.future_axioms script.future_axioms,
    of "Some (2, Ok (1::nat))" "Some (0, Ok True)" "Some (4, Err ''e'' :: (unit, string) result)" 9 "()"] by auto

section \<open>The outcome of try_join3\<close>

definition md_at :: "nat \<Rightarrow> nat \<times> 'o \<Rightarrow> ((nat \<times> 'o) option, 'o) maybe_done" where
  "md_at j x = (if j \<le> fst x then Future (Some (fst x - j, snd x)) else Done (snd x))"

definition tj_at :: "nat \<Rightarrow> nat \<times> 'o1 \<Rightarrow> nat \<times> 'o2 \<Rightarrow> nat \<times> 'o3 \<Rightarrow>
    ((nat \<times> 'o1) option, 'o1, (nat \<times> 'o2) option, 'o2, (nat \<times> 'o3) option, 'o3) try_join3" where
  "tj_at j x y z = \<lparr>future1 = md_at j x, future2 = md_at j y, future3 = md_at j z\<rparr>"

text \<open>
  The specification, with the three answers and the number of polls each takes: the \<open>j\<close>-th poll (from
  zero) returns the error of the first future, in order, that fails in this poll; otherwise the three
  values if the last one has come; otherwise it is pending.
\<close>

definition fails_at :: "nat \<Rightarrow> nat \<times> ('t, 'e) result \<Rightarrow> 'e list" where
  "fails_at j x = (case snd x of Err e \<Rightarrow> (if fst x = j then [e] else []) | Ok t \<Rightarrow> [])"

definition join_at :: "nat \<Rightarrow> nat \<times> ('t1, 'e) result \<Rightarrow> nat \<times> ('t2, 'e) result \<Rightarrow> nat \<times> ('t3, 'e) result \<Rightarrow>
    ('t1 \<times> 't2 \<times> 't3, 'e) result poll" where
  "join_at j x y z = (case fails_at j x @ fails_at j y @ fails_at j z of
     e # es \<Rightarrow> Ready (Err e)
   | [] \<Rightarrow> (case (snd x, snd y, snd z) of
       (Ok a, Ok b, Ok d) \<Rightarrow> (if fst x \<le> j \<and> fst y \<le> j \<and> fst z \<le> j then Ready (Ok (a, b, d)) else Pending)
     | _ \<Rightarrow> Pending))"

fun join_spec :: "nat \<Rightarrow> nat \<times> ('t1, 'e) result \<Rightarrow> nat \<times> ('t2, 'e) result \<Rightarrow> nat \<times> ('t3, 'e) result \<Rightarrow>
    ('t1 \<times> 't2 \<times> 't3, 'e) result poll" where
  "join_spec 0 x y z = Pending"
| "join_spec (Suc n) x y z = (case join_spec n x y z of Pending \<Rightarrow> join_at n x y z | Ready r \<Rightarrow> Ready r)"

definition no_error_before :: "nat \<Rightarrow> nat \<times> ('t, 'e) result \<Rightarrow> bool" where
  "no_error_before j x \<longleftrightarrow> (is_err (snd x) \<longrightarrow> j \<le> fst x)"

lemma block_at:
  assumes "no_error_before j x"
  shows "join_block script_poll (md_at j x) c =
    (case fails_at j x of
       e # es \<Rightarrow> Inr (Inl e, Gone, c)
     | [] \<Rightarrow> Inr (Inr (fst x \<le> j), md_at (Suc j) x, c)) \<and>
    (fails_at j x = [] \<longrightarrow> no_error_before (Suc j) x)"
proof (cases "fst x - j")
  case 0
  then show ?thesis using assms
    by (cases "snd x") (auto simp: join_block_spec md_at_def fails_at_def no_error_before_def le_Suc_eq)
next
  case (Suc k)
  moreover have "fst x - Suc j = k" using Suc by simp
  ultimately show ?thesis using assms
    by (cases "snd x") (auto simp: join_block_spec md_at_def fails_at_def no_error_before_def)
qed

lemma ok_at: "no_error_before j x \<Longrightarrow> fails_at j x = [] \<Longrightarrow> fst x \<le> j \<Longrightarrow> \<not> is_err (snd x)"
  by (cases "snd x") (auto simp: no_error_before_def fails_at_def split: if_splits)

lemma tj_poll_at:
  assumes "no_error_before j x" "no_error_before j y" "no_error_before j z"
  shows "\<exists>me. tj_poll script_poll script_poll script_poll (tj_at j x y z) c = Inr (join_at j x y z, me, c) \<and>
    (join_at j x y z = Pending \<longrightarrow> me = tj_at (Suc j) x y z \<and>
      no_error_before (Suc j) x \<and> no_error_before (Suc j) y \<and> no_error_before (Suc j) z)"
proof -
  note b = block_at [OF assms(1), of c] block_at [OF assms(2), of c] block_at [OF assms(3), of c]
  show ?thesis
  proof (cases "fails_at j x = [] \<and> fails_at j y = [] \<and> fails_at j z = []")
    case False
    then show ?thesis using b
      by (cases "fails_at j x"; cases "fails_at j y"; cases "fails_at j z")
        (auto simp: tj_poll_def tj_at_def join_at_def)
  next
    case True
    note ok = ok_at [OF assms(1)] ok_at [OF assms(2)] ok_at [OF assms(3)]
    show ?thesis
    proof (cases "fst x \<le> j \<and> fst y \<le> j \<and> fst z \<le> j")
      case c: True
      obtain a1 a2 a3 where "snd x = Ok a1" "snd y = Ok a2" "snd z = Ok a3"
        using ok True c by (cases "snd x"; cases "snd y"; cases "snd z") auto
      then show ?thesis using b True c by (simp add: tj_poll_def tj_at_def join_at_def md_at_def)
    next
      case c: False
      then have "join_at j x y z = Pending" using True by (auto simp: join_at_def split: result.splits)
      then show ?thesis using b True c by (auto simp: tj_poll_def tj_at_def)
    qed
  qed
qed

lemma drive_at:
  "\<exists>me. drive n (tj_poll script_poll script_poll script_poll) (tj_at 0 x y z) c = Inr (join_spec n x y z, me, c) \<and>
    (join_spec n x y z = Pending \<longrightarrow> me = tj_at n x y z \<and> no_error_before n x \<and> no_error_before n y \<and> no_error_before n z)"
proof (induction n)
  case 0
  then show ?case by (simp add: no_error_before_def)
next
  case (Suc n)
  then obtain me where me: "drive n (tj_poll script_poll script_poll script_poll) (tj_at 0 x y z) c = Inr (join_spec n x y z, me, c)"
    "join_spec n x y z = Pending \<longrightarrow> me = tj_at n x y z \<and> no_error_before n x \<and> no_error_before n y \<and> no_error_before n z" by blast
  show ?case
  proof (cases "join_spec n x y z")
    case Pending
    then show ?thesis using me tj_poll_at [of n x y z c] unfolding drive_Suc by auto
  next
    case (Ready r)
    then show ?thesis using me unfolding drive_Suc by simp
  qed
qed

text \<open>
  C35: \<open>try_join3\<close> answers as specified, for futures that take any number of polls to their answers.
  Polled again and again, it returns at the first poll in which one of the three futures fails, with the
  error of the first of them in order, and otherwise at the poll in which the last value comes, with
  the three values; before that it is pending.
\<close>

theorem tj_outcome:
  "\<exists>me. drive n (tj_poll script_poll script_poll script_poll) (try_join3 (Some x) (Some y) (Some z)) c =
    Inr (join_spec n x y z, me, c)"
proof -
  have "try_join3 (Some x) (Some y) (Some z) = tj_at 0 x y z"
    by (simp add: try_join3_def maybe_done_def tj_at_def md_at_def)
  then show ?thesis using drive_at [of n x y z c] by auto
qed

text \<open>The specification on two inputs: all succeed, and the third fails before the first.\<close>

lemma join_spec_ok:
  "join_spec 5 (2, Ok (1::nat)) (0, Ok True) (4, Ok ''c'' :: (string, unit) result) = Ready (Ok (1, True, ''c''))"
  by (simp add: numeral_eq_Suc join_at_def fails_at_def)

lemma join_spec_err:
  "join_spec 5 (2, Err ''a'' :: (nat, string) result) (3, Ok True) (1, Err ''c'' :: (nat, string) result) = Ready (Err ''c'')"
  by (simp add: numeral_eq_Suc join_at_def fails_at_def)

end
