(* ===== verification/ParkingLot.thy ===== *)
theory ParkingLot imports Prelude begin

text \<open>
  \<open>tokio_transplant/loom/std/parking_lot.rs\<close>: the adapters that give the locks of the crate \<open>parking_lot\<close> the
  interface of \<open>std::sync\<close>.  \<open>parking_lot\<close> itself is a parameter; a lock that blocks is \<^term>\<open>None\<close>.  The
  adapters keep the contract of the lock they wrap, and never report a poisoned lock.
\<close>

section \<open>parking_lot\<close>

text \<open>
  The operations of \<open>parking_lot::Mutex\<close> and its guard: \<open>mx_get\<close> and \<open>mx_put\<close> are accesses through the guard,
  \<open>mx_unlock\<close> is its drop.  \<open>content\<close> and \<open>locked\<close> are the abstraction.
\<close>

record ('m, 'a) mutex_ops =
  mx_new :: "'a \<Rightarrow> 'm"
  mx_lock :: "'m \<Rightarrow> 'm option"
  mx_try_lock :: "'m \<Rightarrow> bool \<times> 'm"
  mx_unlock :: "'m \<Rightarrow> 'm"
  mx_get :: "'m \<Rightarrow> 'a"
  mx_put :: "'m \<Rightarrow> 'a \<Rightarrow> 'm"

locale mutex =
  fixes M :: "('m, 'a) mutex_ops" and content :: "'m \<Rightarrow> 'a" and locked :: "'m \<Rightarrow> bool"
  assumes new_ok: "content (mx_new M a) = a" "\<not> locked (mx_new M a)"
    and lock_blocks: "mx_lock M m = None \<longleftrightarrow> locked m"
    and lock_ok: "mx_lock M m = Some m' \<Longrightarrow> locked m' \<and> content m' = content m"
    and try_lock_iff: "fst (mx_try_lock M m) \<longleftrightarrow> \<not> locked m"
    and try_lock_ok: "locked (snd (mx_try_lock M m))" "content (snd (mx_try_lock M m)) = content m"
    and unlock_ok: "\<not> locked (mx_unlock M m)" "content (mx_unlock M m) = content m"
    and get_ok: "mx_get M m = content m"
    and put_ok: "content (mx_put M m a) = a" "locked (mx_put M m a) \<longleftrightarrow> locked m"

record ('r, 'a) rwlock_ops =
  rw_new :: "'a \<Rightarrow> 'r"
  rw_read :: "'r \<Rightarrow> 'r option"
  rw_write :: "'r \<Rightarrow> 'r option"
  rw_get :: "'r \<Rightarrow> 'a"
  rw_put :: "'r \<Rightarrow> 'a \<Rightarrow> 'r"

text \<open>\<open>cv_wait\<close> returns with the lock held again, \<open>cv_wait_for\<close> also whether it timed out.\<close>

record ('c, 'm, 't, 'w) condvar_ops =
  cv_new :: 'c
  cv_notify_one :: "'c \<Rightarrow> 'c"
  cv_notify_all :: "'c \<Rightarrow> 'c"
  cv_wait :: "'c \<Rightarrow> 'm \<Rightarrow> ('c \<times> 'm) option"
  cv_wait_for :: "'c \<Rightarrow> 'm \<Rightarrow> 't \<Rightarrow> ('c \<times> 'm \<times> 'w) option"

section \<open>The adapters\<close>

record 'm adapted = wrapped :: 'm

definition mutex_new :: "('m, 'a) mutex_ops \<Rightarrow> 'a \<Rightarrow> 'm adapted" where
  "mutex_new M t = \<lparr>wrapped = mx_new M t\<rparr>"

definition mutex_lock :: "('m, 'a) mutex_ops \<Rightarrow> 'm adapted \<Rightarrow> 'm adapted option" where
  "mutex_lock M m = map_option (\<lambda>g. \<lparr>wrapped = g\<rparr>) (mx_lock M (wrapped m))"

definition mutex_try_lock :: "('m, 'a) mutex_ops \<Rightarrow> 'm adapted \<Rightarrow> bool \<times> 'm adapted" where
  "mutex_try_lock M m = (case mx_try_lock M (wrapped m) of (b, g) \<Rightarrow> (b, \<lparr>wrapped = g\<rparr>))"

definition mutex_get_mut :: "('m, 'a) mutex_ops \<Rightarrow> 'm adapted \<Rightarrow> 'a" where
  "mutex_get_mut M m = mx_get M (wrapped m)"

definition guard_deref :: "('m, 'a) mutex_ops \<Rightarrow> 'm adapted \<Rightarrow> 'a" where
  "guard_deref M g = mx_get M (wrapped g)"

definition guard_deref_mut :: "('m, 'a) mutex_ops \<Rightarrow> 'm adapted \<Rightarrow> 'a \<Rightarrow> 'm adapted" where
  "guard_deref_mut M g a = \<lparr>wrapped = mx_put M (wrapped g) a\<rparr>"

definition guard_drop :: "('m, 'a) mutex_ops \<Rightarrow> 'm adapted \<Rightarrow> 'm adapted" where
  "guard_drop M g = \<lparr>wrapped = mx_unlock M (wrapped g)\<rparr>"

text \<open>\<open>LockResult\<close>: an error would be a poisoned lock.\<close>

datatype poisoned = PoisonError

definition rwlock_new :: "('r, 'a) rwlock_ops \<Rightarrow> 'a \<Rightarrow> 'r adapted" where
  "rwlock_new R t = \<lparr>wrapped = rw_new R t\<rparr>"

definition rwlock_read :: "('r, 'a) rwlock_ops \<Rightarrow> 'r adapted \<Rightarrow> (poisoned + 'r adapted) option" where
  "rwlock_read R l = map_option (\<lambda>g. Inr \<lparr>wrapped = g\<rparr>) (rw_read R (wrapped l))"

definition rwlock_write :: "('r, 'a) rwlock_ops \<Rightarrow> 'r adapted \<Rightarrow> (poisoned + 'r adapted) option" where
  "rwlock_write R l = map_option (\<lambda>g. Inr \<lparr>wrapped = g\<rparr>) (rw_write R (wrapped l))"

definition read_guard_deref :: "('r, 'a) rwlock_ops \<Rightarrow> 'r adapted \<Rightarrow> 'a" where
  "read_guard_deref R g = rw_get R (wrapped g)"

definition write_guard_deref :: "('r, 'a) rwlock_ops \<Rightarrow> 'r adapted \<Rightarrow> 'a" where
  "write_guard_deref R g = rw_get R (wrapped g)"

definition write_guard_deref_mut :: "('r, 'a) rwlock_ops \<Rightarrow> 'r adapted \<Rightarrow> 'a \<Rightarrow> 'r adapted" where
  "write_guard_deref_mut R g a = \<lparr>wrapped = rw_put R (wrapped g) a\<rparr>"

definition condvar_new :: "('c, 'm, 't, 'w) condvar_ops \<Rightarrow> 'c adapted" where
  "condvar_new C = \<lparr>wrapped = cv_new C\<rparr>"

definition condvar_notify_one :: "('c, 'm, 't, 'w) condvar_ops \<Rightarrow> 'c adapted \<Rightarrow> 'c adapted" where
  "condvar_notify_one C c = \<lparr>wrapped = cv_notify_one C (wrapped c)\<rparr>"

definition condvar_notify_all :: "('c, 'm, 't, 'w) condvar_ops \<Rightarrow> 'c adapted \<Rightarrow> 'c adapted" where
  "condvar_notify_all C c = \<lparr>wrapped = cv_notify_all C (wrapped c)\<rparr>"

definition condvar_wait :: "('c, 'm, 't, 'w) condvar_ops \<Rightarrow> 'c adapted \<Rightarrow> 'm adapted \<Rightarrow>
    ('c adapted \<times> (poisoned + 'm adapted)) option" where
  "condvar_wait C c guard = map_option (\<lambda>(c', g). (\<lparr>wrapped = c'\<rparr>, Inr (guard\<lparr>wrapped := g\<rparr>))) (cv_wait C (wrapped c) (wrapped guard))"

definition condvar_wait_timeout :: "('c, 'm, 't, 'w) condvar_ops \<Rightarrow> 'c adapted \<Rightarrow> 'm adapted \<Rightarrow> 't \<Rightarrow>
    ('c adapted \<times> (poisoned + ('m adapted \<times> 'w))) option" where
  "condvar_wait_timeout C c guard timeout =
     map_option (\<lambda>(c', g, wtr). (\<lparr>wrapped = c'\<rparr>, Inr (guard\<lparr>wrapped := g\<rparr>, wtr))) (cv_wait_for C (wrapped c) (wrapped guard) timeout)"

section \<open>The adapted mutex keeps the contract\<close>

definition adapted_mutex :: "('m, 'a) mutex_ops \<Rightarrow> ('m adapted, 'a) mutex_ops" where
  "adapted_mutex M = \<lparr>mx_new = mutex_new M, mx_lock = mutex_lock M, mx_try_lock = mutex_try_lock M,
     mx_unlock = guard_drop M, mx_get = guard_deref M, mx_put = guard_deref_mut M\<rparr>"

lemmas adapted_defs = adapted_mutex_def mutex_new_def mutex_lock_def mutex_try_lock_def guard_drop_def
  guard_deref_def guard_deref_mut_def

lemma adapted_contract:
  assumes "mutex M content locked"
  shows "mutex (adapted_mutex M) (content \<circ> wrapped) (locked \<circ> wrapped)"
proof -
  note m = mutex.new_ok [OF assms] mutex.lock_blocks [OF assms] mutex.try_lock_iff [OF assms] mutex.try_lock_ok [OF assms]
    mutex.unlock_ok [OF assms] mutex.get_ok [OF assms] mutex.put_ok [OF assms]
  show ?thesis
    by unfold_locales (auto simp: adapted_defs case_prod_beta m dest: mutex.lock_ok [OF assms])
qed

text \<open>No answer of an adapter is an error.\<close>

lemma never_poisoned:
  "rwlock_read R l \<noteq> Some (Inl e)" "rwlock_write R l \<noteq> Some (Inl e)"
  "condvar_wait C c g \<noteq> Some (c', Inl e)" "condvar_wait_timeout C c g t \<noteq> Some (c', Inl e)"
  by (auto simp: rwlock_read_def rwlock_write_def condvar_wait_def condvar_wait_timeout_def)

text \<open>An instance: the value and whether it is locked.\<close>

definition pair_mutex :: "('a \<times> bool, 'a) mutex_ops" where
  "pair_mutex = \<lparr>mx_new = (\<lambda>a. (a, False)), mx_lock = (\<lambda>(a, b). if b then None else Some (a, True)),
     mx_try_lock = (\<lambda>(a, b). (\<not> b, (a, True))), mx_unlock = (\<lambda>(a, b). (a, False)), mx_get = fst,
     mx_put = (\<lambda>(a, b) c. (c, b))\<rparr>"

lemma mutex_pair: "mutex pair_mutex fst snd"
  by unfold_locales (auto simp: pair_mutex_def split: if_splits)

interpretation pmx: mutex "adapted_mutex pair_mutex" "fst \<circ> wrapped" "snd \<circ> wrapped"
  by (rule adapted_contract [OF mutex_pair])

end
