(* ===== verification/LoomAtomics.thy ===== *)
theory LoomAtomics imports Atomics begin

text \<open>
  \<open>tokio_transplant/loom/std\<close>: the 64-bit atomic.  Where the platform has none, \<open>AtomicU64\<close> is a mutex
  around a \<open>u64\<close> (\<open>atomic_u64_as_mutex.rs\<close>), and a static one is created on first use
  (\<open>atomic_u64_static_once_cell.rs\<close>).  Every operation holds the lock from its first to its last access,
  so that it is one function from the stored value to the answer and the new value; the memory
  orderings are ignored by the code too.  \<open>prev + val\<close> panics if the build checks overflows (\<open>ovf\<close>), with
  the stored value unchanged, and wraps otherwise.
\<close>

section \<open>AtomicU64 as a mutex\<close>

record atomic_u64 =
  au_inner :: u64

definition au_new :: "u64 \<Rightarrow> atomic_u64" where
  "au_new val = \<lparr>au_inner = val\<rparr>"

definition au_default :: atomic_u64 where
  "au_default = au_new 0"

definition au_load :: "atomic_u64 \<Rightarrow> u64" where
  "au_load a = au_inner a"

definition au_store :: "u64 \<Rightarrow> atomic_u64 \<Rightarrow> atomic_u64" where
  "au_store val a = a\<lparr>au_inner := val\<rparr>"

definition checked_add :: "bool \<Rightarrow> u64 \<Rightarrow> u64 \<Rightarrow> panic + u64" where
  "checked_add ovf x y = (if ovf \<and> 2 ^ 64 \<le> unat x + unat y then Inl ArithOverflow else Inr (x + y))"

definition au_fetch_add :: "bool \<Rightarrow> u64 \<Rightarrow> atomic_u64 \<Rightarrow> panic + (u64 \<times> atomic_u64)" where
  "au_fetch_add ovf val a = (let prev = au_inner a in
     bindE (checked_add ovf prev val) (\<lambda>v. Inr (prev, a\<lparr>au_inner := v\<rparr>)))"

definition au_fetch_or :: "u64 \<Rightarrow> atomic_u64 \<Rightarrow> u64 \<times> atomic_u64" where
  "au_fetch_or val a = (let prev = au_inner a in (prev, a\<lparr>au_inner := prev OR val\<rparr>))"

definition au_compare_exchange :: "u64 \<Rightarrow> u64 \<Rightarrow> atomic_u64 \<Rightarrow> (u64 + u64) \<times> atomic_u64" where
  "au_compare_exchange current new a =
     (if au_inner a = current then (Inr current, a\<lparr>au_inner := new\<rparr>) else (Inl (au_inner a), a))"

definition au_compare_exchange_weak :: "u64 \<Rightarrow> u64 \<Rightarrow> atomic_u64 \<Rightarrow> (u64 + u64) \<times> atomic_u64" where
  "au_compare_exchange_weak current new a = au_compare_exchange current new a"

section \<open>StaticAtomicU64\<close>

text \<open>
  \<open>OnceCell\<close> is not part of this repository: its operations are a parameter.  \<open>get\<close> returns the value in
  the cell, putting the given one there first if there is none; \<open>put\<close> is a write through the reference
  that \<open>get\<close> returned.  \<open>content\<close> is the abstraction.
\<close>

record 'c once_ops =
  once_new :: 'c
  once_get :: "'c \<Rightarrow> u64 \<Rightarrow> u64 \<times> 'c"
  once_put :: "'c \<Rightarrow> u64 \<Rightarrow> 'c"

locale once_cell =
  fixes C :: "'c once_ops" and content :: "'c \<Rightarrow> u64 option"
  assumes content_new: "content (once_new C) = None"
    and get_value: "fst (once_get C c v) = (case content c of None \<Rightarrow> v | Some w \<Rightarrow> w)"
    and content_get: "content (snd (once_get C c v)) = Some (fst (once_get C c v))"
    and content_put: "content c \<noteq> None \<Longrightarrow> content (once_put C c v) = Some v"

record 'c static_u64 =
  static_init :: u64
  static_cell :: 'c

definition static_new :: "'c once_ops \<Rightarrow> u64 \<Rightarrow> 'c static_u64" where
  "static_new C val = \<lparr>static_init = val, static_cell = once_new C\<rparr>"

definition static_inner :: "'c once_ops \<Rightarrow> 'c static_u64 \<Rightarrow> u64 \<times> 'c static_u64" where
  "static_inner C a = (case once_get C (static_cell a) (static_init a) of (v, c) \<Rightarrow> (v, a\<lparr>static_cell := c\<rparr>))"

definition static_load :: "'c once_ops \<Rightarrow> 'c static_u64 \<Rightarrow> u64 \<times> 'c static_u64" where
  "static_load C a = static_inner C a"

definition static_fetch_add :: "'c once_ops \<Rightarrow> bool \<Rightarrow> u64 \<Rightarrow> 'c static_u64 \<Rightarrow> panic + (u64 \<times> 'c static_u64)" where
  "static_fetch_add C ovf val a = (case static_inner C a of (prev, a') \<Rightarrow>
     bindE (checked_add ovf prev val) (\<lambda>v. Inr (prev, a'\<lparr>static_cell := once_put C (static_cell a') v\<rparr>)))"

definition static_compare_exchange_weak :: "'c once_ops \<Rightarrow> u64 \<Rightarrow> u64 \<Rightarrow> 'c static_u64 \<Rightarrow> (u64 + u64) \<times> 'c static_u64" where
  "static_compare_exchange_weak C current new a = (case static_inner C a of (v, a') \<Rightarrow>
     if v = current then (Inr current, a'\<lparr>static_cell := once_put C (static_cell a') new\<rparr>) else (Inl v, a'))"

section \<open>Sequences of operations\<close>

text \<open>
  The operations as data, with their answers.  Since each is atomic, a concurrent execution is a
  sequence of them.
\<close>

datatype u64_op =
    OLoad
  | OStore u64
  | OFetchAdd u64
  | OFetchOr u64
  | OCompareExchange u64 u64

datatype u64_answer = ANone | AValue u64 | AResult "u64 + u64"

fun au_op :: "bool \<Rightarrow> u64_op \<Rightarrow> atomic_u64 \<Rightarrow> panic + (u64_answer \<times> atomic_u64)" where
  "au_op ovf OLoad a = Inr (AValue (au_load a), a)"
| "au_op ovf (OStore v) a = Inr (ANone, au_store v a)"
| "au_op ovf (OFetchAdd v) a = bindE (au_fetch_add ovf v a) (\<lambda>(r, a'). Inr (AValue r, a'))"
| "au_op ovf (OFetchOr v) a = (case au_fetch_or v a of (r, a') \<Rightarrow> Inr (AValue r, a'))"
| "au_op ovf (OCompareExchange x y) a = (case au_compare_exchange x y a of (r, a') \<Rightarrow> Inr (AResult r, a'))"

text \<open>The processor's atomic, \<open>std::sync::atomic::AtomicU64\<close>, which \<open>atomic_u64_native.rs\<close> re-exports.\<close>

fun native_op :: "u64_op \<Rightarrow> u64 \<Rightarrow> u64_answer \<times> u64" where
  "native_op OLoad s = (AValue s, s)"
| "native_op (OStore v) s = (ANone, v)"
| "native_op (OFetchAdd v) s = (case fetch_add v s of (r, s') \<Rightarrow> (AValue r, s'))"
| "native_op (OFetchOr v) s = (case fetch_or v s of (r, s') \<Rightarrow> (AValue r, s'))"
| "native_op (OCompareExchange x y) s = (case compare_exchange x y s of (r, s') \<Rightarrow> (AResult r, s'))"

fun native_run :: "u64_op list \<Rightarrow> u64 \<Rightarrow> u64_answer list \<times> u64" where
  "native_run [] s = ([], s)"
| "native_run (x # xs) s = (case native_op x s of (r, s') \<Rightarrow> (case native_run xs s' of (rs, s'') \<Rightarrow> (r # rs, s'')))"

fun au_run :: "bool \<Rightarrow> u64_op list \<Rightarrow> atomic_u64 \<Rightarrow> panic + (u64_answer list \<times> atomic_u64)" where
  "au_run ovf [] a = Inr ([], a)"
| "au_run ovf (x # xs) a = bindE (au_op ovf x a) (\<lambda>(r, a'). bindE (au_run ovf xs a') (\<lambda>(rs, a''). Inr (r # rs, a'')))"

text \<open>An operation that overflows the stored value.\<close>

fun overflows :: "u64_op \<Rightarrow> u64 \<Rightarrow> bool" where
  "overflows (OFetchAdd v) s \<longleftrightarrow> 2 ^ 64 \<le> unat s + unat v"
| "overflows _ s \<longleftrightarrow> False"

fun overflow_free :: "u64_op list \<Rightarrow> u64 \<Rightarrow> bool" where
  "overflow_free [] s \<longleftrightarrow> True"
| "overflow_free (x # xs) s \<longleftrightarrow> \<not> overflows x s \<and> overflow_free xs (snd (native_op x s))"

lemma au_op_native:
  "au_op ovf x a = (if ovf \<and> overflows x (au_inner a) then Inl ArithOverflow
     else Inr (map_prod id (\<lambda>v. \<lparr>au_inner = v\<rparr>) (native_op x (au_inner a))))"
  by (cases x) (auto simp: au_load_def au_store_def au_fetch_add_def checked_add_def au_fetch_or_def au_compare_exchange_def
      atomic_defs Let_def)

text \<open>
  C38: The mutex stands in for the processor's 64-bit atomic.  On every sequence of operations the two
  give the same answers and end with the same value, except that a build with overflow checks panics
  at the first \<open>fetch_add\<close> that overflows, where the processor wraps; it answers exactly when there is
  none.
\<close>

theorem au64_equivalent:
  "(case au_run ovf ops (au_new v) of
      Inl e \<Rightarrow> e = ArithOverflow \<and> ovf \<and> \<not> overflow_free ops v
    | Inr (rs, a) \<Rightarrow> (rs, au_inner a) = native_run ops v \<and> (ovf \<longrightarrow> overflow_free ops v))"
proof (induction ops arbitrary: v)
  case (Cons x xs)
  obtain r w where n: "native_op x v = (r, w)" by (cases "native_op x v")
  show ?case
  proof (cases "ovf \<and> overflows x v")
    case True
    then show ?thesis by (simp add: au_op_native au_new_def)
  next
    case False
    then have "au_op ovf x (au_new v) = Inr (r, au_new w)" using n by (auto simp: au_op_native au_new_def)
    then show ?thesis using Cons.IH [of w] False n
      by (cases "au_run ovf xs (au_new w)") (auto split: prod.splits)
  qed
qed (simp add: au_new_def)

theorem au64_equivalent_witness:
  "\<exists>rs a. au_run True [OFetchAdd 1, OFetchOr 8, OCompareExchange 14 2, OLoad] (au_new 5) = Inr (rs, a) \<and>
     (rs, au_inner a) = native_run [OFetchAdd 1, OFetchOr 8, OCompareExchange 14 2, OLoad] 5 \<and> au_inner a = 2"
proof -
  let ?ops = "[OFetchAdd 1, OFetchOr 8, OCompareExchange 14 2, OLoad]"
  have f: "overflow_free ?ops 5" "snd (native_run ?ops 5) = 2" by (simp_all add: atomic_defs)
  have "\<exists>x. au_run True ?ops (au_new 5) = Inr x"
    using au64_equivalent [of True ?ops 5] f(1) by (metis (no_types, lifting) sum.case_eq_if sum.collapse(1) sum.collapse(2))
  then obtain rs a where r: "au_run True ?ops (au_new 5) = Inr (rs, a)" by auto
  have "(rs, au_inner a) = native_run ?ops 5"
    using au64_equivalent [of True ?ops 5] unfolding r by (simp only: sum.case prod.case)
  moreover from this have "au_inner a = 2" using f(2) by (metis snd_conv)
  ultimately show ?thesis using r by blast
qed

section \<open>The static atomic refines the other\<close>

definition static_abs :: "('c \<Rightarrow> u64 option) \<Rightarrow> 'c static_u64 \<Rightarrow> atomic_u64" where
  "static_abs content a = au_new (case content (static_cell a) of None \<Rightarrow> static_init a | Some v \<Rightarrow> v)"

context once_cell
begin

lemma inner_abs:
  assumes "static_inner C a = (v, a')"
  shows "v = au_load (static_abs content a)" "static_abs content a' = static_abs content a"
    "content (static_cell a') = Some v" "static_init a' = static_init a"
proof -
  obtain c where c: "once_get C (static_cell a) (static_init a) = (v, c)" "a' = a\<lparr>static_cell := c\<rparr>"
    using assms by (auto simp: static_inner_def split: prod.splits)
  have v: "v = (case content (static_cell a) of None \<Rightarrow> static_init a | Some w \<Rightarrow> w)" and w: "content c = Some v"
    using get_value [of "static_cell a" "static_init a"] content_get [of "static_cell a" "static_init a"] c by simp_all
  then show "v = au_load (static_abs content a)" "static_abs content a' = static_abs content a"
    "content (static_cell a') = Some v" "static_init a' = static_init a"
    using c by (simp_all add: static_abs_def au_load_def au_new_def)
qed

lemma static_refines_add:
  "(case static_fetch_add C ovf val a of Inl e \<Rightarrow> Inl e | Inr (r, a') \<Rightarrow> Inr (r, static_abs content a')) =
    au_fetch_add ovf val (static_abs content a)"
proof (cases "static_inner C a")
  case (Pair v a')
  note i = inner_abs [OF Pair]
  show ?thesis
    using i content_put [of "static_cell a'"]
    by (auto simp: static_fetch_add_def Pair au_fetch_add_def au_load_def bindE_def static_abs_def au_new_def Let_def split: sum.splits)
qed

lemma static_refines_cas:
  "map_prod id (static_abs content) (static_compare_exchange_weak C current new a) =
    au_compare_exchange_weak current new (static_abs content a)"
proof (cases "static_inner C a")
  case (Pair v a')
  note i = inner_abs [OF Pair]
  show ?thesis
    using i content_put [of "static_cell a'"]
    by (auto simp: static_compare_exchange_weak_def Pair au_compare_exchange_weak_def au_compare_exchange_def au_load_def
        static_abs_def au_new_def)
qed

end

text \<open>An instance of the interface: an option.\<close>

definition option_once :: "u64 option once_ops" where
  "option_once = \<lparr>once_new = None, once_get = (\<lambda>c v. case c of None \<Rightarrow> (v, Some v) | Some w \<Rightarrow> (w, c)),
     once_put = (\<lambda>c v. Some v)\<rparr>"

lemma once_option: "once_cell option_once id"
  by unfold_locales (auto simp: option_once_def split: option.splits)

interpretation oopt: once_cell option_once id
  by (rule once_option)

text \<open>
  The lazily initialised static atomic refines \<open>AtomicU64\<close>.  A fresh one stands for an \<open>AtomicU64\<close>
  with the initial value, and \<open>load\<close>, \<open>fetch_add\<close> and \<open>compare_exchange_weak\<close> answer (or panic) and
  change the value like those of the \<open>AtomicU64\<close> it stands for, whether or not the cell was
  initialised before.
\<close>

theorem static_u64_refines:
  assumes "once_cell C content"
  shows "static_abs content (static_new C v) = au_new v \<and>
    map_prod id (static_abs content) (static_load C a) = (au_load (static_abs content a), static_abs content a) \<and>
    (case static_fetch_add C ovf val a of Inl e \<Rightarrow> Inl e | Inr (r, a') \<Rightarrow> Inr (r, static_abs content a')) =
      au_fetch_add ovf val (static_abs content a) \<and>
    map_prod id (static_abs content) (static_compare_exchange_weak C x y a) =
      au_compare_exchange_weak x y (static_abs content a)"
proof -
  have "map_prod id (static_abs content) (static_load C a) = (au_load (static_abs content a), static_abs content a)"
    using once_cell.inner_abs [OF assms] by (cases "static_inner C a") (simp add: static_load_def)
  moreover have "static_abs content (static_new C v) = au_new v"
    using once_cell.content_new [OF assms] by (simp add: static_abs_def static_new_def)
  ultimately show ?thesis
    using once_cell.static_refines_add [OF assms] once_cell.static_refines_cas [OF assms] by simp
qed

theorem static_u64_refines_witness:
  "map_prod id (static_abs id) (static_load option_once (static_new option_once 7)) =
    (au_load (static_abs id (static_new option_once 7)), static_abs id (static_new option_once 7)) \<and>
   static_abs id (static_new option_once 7) = au_new 7"
  using static_u64_refines [OF once_option, of 7 "static_new option_once 7" True 1 0 0] by simp

end
