(* ===== verification/AtomicU64Lock.thy ===== *)
theory AtomicU64Lock imports ParkingLot LoomAtomics Simulation begin

text \<open>
  \<open>atomic_u64_as_mutex.rs\<close> under concurrency: the operations of \<open>AtomicU64\<close> as steps of many threads on the
  adapted mutex.  Taking the lock, each access through the guard and the drop of the guard are steps; an
  overflow panic unwinds through the drop of the guard.  Every interleaving is linearizable: its operations,
  in the order of their last access, are a run of the processor's atomic.
\<close>

section \<open>The steps\<close>

datatype aupc =
    AuIdle
  | AuEnter u64_op             \<comment> \<open>before \<open>self.inner.lock()\<close>\<close>
  | AuBody u64_op              \<comment> \<open>guard held, before the first access\<close>
  | AuStoreSum u64 u64         \<comment> \<open>\<open>fetch_add\<close>: before \<open>*lock = prev + val\<close>\<close>
  | AuStoreOr u64 u64          \<comment> \<open>\<open>fetch_or\<close>: before \<open>*lock = prev | val\<close>\<close>
  | AuStoreNew u64 u64         \<comment> \<open>\<open>compare_exchange\<close>: before \<open>*lock = new\<close>\<close>
  | AuReread u64 u64           \<comment> \<open>\<open>compare_exchange\<close>: before \<open>Err(*lock)\<close>\<close>
  | AuDrop u64_answer          \<comment> \<open>before the drop of the guard\<close>
  | AuUnwind                   \<comment> \<open>panicking, before the drop of the guard\<close>
  | AuDone u64_answer
  | AuPanicked

fun au_step :: "bool \<Rightarrow> ('m, u64) mutex_ops \<Rightarrow> aupc \<Rightarrow> 'm \<Rightarrow> (aupc \<times> 'm) option" where
  "au_step ovf M (AuEnter x) m = map_option (\<lambda>m'. (AuBody x, m')) (mx_lock M m)"
| "au_step ovf M (AuBody OLoad) m = Some (AuDrop (AValue (mx_get M m)), m)"
| "au_step ovf M (AuBody (OStore v)) m = Some (AuDrop ANone, mx_put M m v)"
| "au_step ovf M (AuBody (OFetchAdd v)) m = Some (AuStoreSum (mx_get M m) v, m)"
| "au_step ovf M (AuBody (OFetchOr v)) m = Some (AuStoreOr (mx_get M m) v, m)"
| "au_step ovf M (AuBody (OCompareExchange x y)) m = Some (if mx_get M m = x then AuStoreNew x y else AuReread x y, m)"
| "au_step ovf M (AuStoreSum prev v) m = (case checked_add ovf prev v of
     Inl p \<Rightarrow> Some (AuUnwind, m)
   | Inr x \<Rightarrow> Some (AuDrop (AValue prev), mx_put M m x))"
| "au_step ovf M (AuStoreOr prev v) m = Some (AuDrop (AValue prev), mx_put M m (prev OR v))"
| "au_step ovf M (AuStoreNew x y) m = Some (AuDrop (AResult (Inr x)), mx_put M m y)"
| "au_step ovf M (AuReread x y) m = Some (AuDrop (AResult (Inl (mx_get M m))), m)"
| "au_step ovf M (AuDrop r) m = Some (AuDone r, mx_unlock M m)"
| "au_step ovf M AuUnwind m = Some (AuPanicked, mx_unlock M m)"
| "au_step ovf M AuIdle m = None"
| "au_step ovf M (AuDone r) m = None"
| "au_step ovf M AuPanicked m = None"

record 'm ausys =
  au_mutex :: 'm
  au_pcs :: "nat \<Rightarrow> aupc"

datatype aulabel = AuCall nat u64_op | AuMove nat

definition au_start :: "('m, u64) mutex_ops \<Rightarrow> u64 \<Rightarrow> 'm ausys" where
  "au_start M v = \<lparr>au_mutex = mx_new M v, au_pcs = (\<lambda>_. AuIdle)\<rparr>"

definition au_free :: "aupc \<Rightarrow> bool" where
  "au_free pc \<longleftrightarrow> (case pc of AuIdle \<Rightarrow> True | AuDone _ \<Rightarrow> True | _ \<Rightarrow> False)"

fun au_next :: "bool \<Rightarrow> ('m, u64) mutex_ops \<Rightarrow> 'm ausys \<Rightarrow> aulabel \<Rightarrow> 'm ausys option" where
  "au_next ovf M s (AuCall t x) =
     (if au_free (au_pcs s t) then Some (s\<lparr>au_pcs := (au_pcs s)(t := AuEnter x)\<rparr>) else None)"
| "au_next ovf M s (AuMove t) =
     map_option (\<lambda>(pc, m). s\<lparr>au_mutex := m, au_pcs := (au_pcs s)(t := pc)\<rparr>) (au_step ovf M (au_pcs s t) (au_mutex s))"

section \<open>Events\<close>

text \<open>An operation shows itself when it makes its last access, with the answer it is going to return.\<close>

fun op_of :: "aupc \<Rightarrow> u64_op" where
  "op_of (AuBody x) = x"
| "op_of (AuStoreSum p v) = OFetchAdd v"
| "op_of (AuStoreOr p v) = OFetchOr v"
| "op_of (AuStoreNew x y) = OCompareExchange x y"
| "op_of (AuReread x y) = OCompareExchange x y"
| "op_of _ = OLoad"

fun au_event :: "bool \<Rightarrow> ('m, u64) mutex_ops \<Rightarrow> 'm ausys \<Rightarrow> aulabel \<Rightarrow> (nat \<times> u64_op \<times> u64_answer) option" where
  "au_event ovf M s (AuCall t x) = None"
| "au_event ovf M s (AuMove t) = (case au_step ovf M (au_pcs s t) (au_mutex s) of
     Some (AuDrop r, m) \<Rightarrow> Some (t, op_of (au_pcs s t), r)
   | _ \<Rightarrow> None)"

fun native_next :: "u64 \<Rightarrow> nat \<times> u64_op \<times> u64_answer \<Rightarrow> u64 option" where
  "native_next v (t, x, r) = (case native_op x v of (r', v') \<Rightarrow> if r' = r then Some v' else None)"

section \<open>The invariant\<close>

definition au_in_cs :: "aupc \<Rightarrow> bool" where
  "au_in_cs pc \<longleftrightarrow> (case pc of AuIdle \<Rightarrow> False | AuEnter _ \<Rightarrow> False | AuDone _ \<Rightarrow> False | AuPanicked \<Rightarrow> False | _ \<Rightarrow> True)"

lemma au_in_cs_simps [simp]:
  "\<not> au_in_cs AuIdle" "\<not> au_in_cs (AuEnter x)" "\<not> au_in_cs (AuDone r)" "\<not> au_in_cs AuPanicked"
  "au_in_cs (AuBody x)" "au_in_cs (AuStoreSum p v)" "au_in_cs (AuStoreOr p v)" "au_in_cs (AuStoreNew v w)"
  "au_in_cs (AuReread v w)" "au_in_cs (AuDrop r)" "au_in_cs AuUnwind"
  by (simp_all add: au_in_cs_def)

text \<open>What a thread inside has read is still the value.\<close>

fun read_ok :: "u64 \<Rightarrow> aupc \<Rightarrow> bool" where
  "read_ok c (AuStoreSum p v) = (p = c)"
| "read_ok c (AuStoreOr p v) = (p = c)"
| "read_ok c (AuStoreNew x y) = (x = c)"
| "read_ok c (AuReread x y) = (x \<noteq> c)"
| "read_ok c _ = True"

lemma read_ok_outside: "\<not> au_in_cs pc \<Longrightarrow> read_ok c pc"
  by (cases pc) simp_all

definition au_inv :: "('m \<Rightarrow> u64) \<Rightarrow> ('m \<Rightarrow> bool) \<Rightarrow> 'm ausys \<Rightarrow> bool" where
  "au_inv content locked s \<longleftrightarrow> (locked (au_mutex s) \<longleftrightarrow> (\<exists>t. au_in_cs (au_pcs s t))) \<and>
     (\<forall>t u. au_in_cs (au_pcs s t) \<and> au_in_cs (au_pcs s u) \<longrightarrow> t = u) \<and>
     (\<forall>t. read_ok (content (au_mutex s)) (au_pcs s t))"

locale locked_u64 = mutex M content locked
  for M :: "('m, u64) mutex_ops" and content :: "'m \<Rightarrow> u64" and locked :: "'m \<Rightarrow> bool" +
  fixes ovf :: bool
begin

text \<open>One step of a thread: what it does to the lock, and what it shows.\<close>

lemma au_step_lock:
  assumes "au_step ovf M pc m = Some (pc', m')"
  shows "(if au_in_cs pc then (locked m' \<longleftrightarrow> locked m \<and> au_in_cs pc') else au_in_cs pc' \<and> \<not> locked m \<and> locked m' \<and> content m' = content m)"
  using assms lock_blocks [of m]
  by (cases pc rule: aupc.exhaust; cases "op_of pc") (auto simp: put_ok unlock_ok dest: lock_ok split: sum.splits if_splits)

lemma au_step_shows:
  assumes "au_step ovf M pc m = Some (pc', m')" "read_ok (content m) pc"
  shows "sim_step native_next (content m) (case pc' of AuDrop r \<Rightarrow> Some (t, op_of pc, r) | _ \<Rightarrow> None) (content m') \<and>
    read_ok (content m') pc'"
proof (cases pc)
  case (AuBody x)
  then show ?thesis using assms by (cases x) (auto simp: put_ok get_ok)
qed (use assms in \<open>auto simp: put_ok get_ok unlock_ok atomic_defs checked_add_def dest: lock_ok split: if_splits\<close>)

lemma au_inv_start: "au_inv content locked (au_start M v)"
  by (simp add: au_inv_def au_start_def new_ok)

lemma au_inv_next:
  assumes i: "au_inv content locked s" and st: "au_next ovf M s l = Some s'"
  shows "au_inv content locked s'"
proof (cases l)
  case (AuCall t x)
  then have s': "s' = s\<lparr>au_pcs := (au_pcs s)(t := AuEnter x)\<rparr>" and f: "\<not> au_in_cs (au_pcs s t)"
    using st by (auto simp: au_free_def au_in_cs_def split: if_splits aupc.splits)
  from i f show ?thesis unfolding au_inv_def s' by (auto split: if_splits)
next
  case (AuMove t)
  then obtain pc m where au: "au_step ovf M (au_pcs s t) (au_mutex s) = Some (pc, m)"
    and s': "s' = s\<lparr>au_mutex := m, au_pcs := (au_pcs s)(t := pc)\<rparr>" using st by auto
  have L: "locked (au_mutex s) \<longleftrightarrow> (\<exists>t. au_in_cs (au_pcs s t))" and U: "\<And>t u. au_in_cs (au_pcs s t) \<Longrightarrow> au_in_cs (au_pcs s u) \<Longrightarrow> t = u"
    and R: "\<And>t. read_ok (content (au_mutex s)) (au_pcs s t)"
    using i by (auto simp: au_inv_def)
  note lk = au_step_lock [OF au] and sh = au_step_shows [OF au R]
  have out: "\<not> au_in_cs (au_pcs s u)" if "u \<noteq> t" for u
    using lk L U [of t u] that by (cases "au_in_cs (au_pcs s t)") auto
  have "locked m \<longleftrightarrow> au_in_cs pc" using lk L by (auto split: if_splits)
  then show ?thesis
    unfolding au_inv_def s' using out sh read_ok_outside [OF out] by (auto split: if_splits)
qed

lemma au_sim_next:
  assumes i: "au_inv content locked s" and st: "au_next ovf M s l = Some s'"
  shows "sim_step native_next (content (au_mutex s)) (au_event ovf M s l) (content (au_mutex s'))"
proof (cases l)
  case (AuCall t x)
  then show ?thesis using st by (auto split: if_splits)
next
  case (AuMove t)
  then obtain pc m where au: "au_step ovf M (au_pcs s t) (au_mutex s) = Some (pc, m)"
    and s': "s' = s\<lparr>au_mutex := m, au_pcs := (au_pcs s)(t := pc)\<rparr>" using st by auto
  have "read_ok (content (au_mutex s)) (au_pcs s t)" using i by (simp add: au_inv_def)
  from conjunct1 [OF au_step_shows [OF au this, of t]] show ?thesis
    using AuMove au s' by (simp split: aupc.splits)
qed

end

sublocale locked_u64 \<subseteq> asim: simulation "au_next ovf M" "au_start M v" "au_inv content locked"
  native_next v "\<lambda>s. content (au_mutex s)" "au_event ovf M" for v
proof (unfold_locales, goal_cases)
  case 1
  show ?case by (rule au_inv_start)
next
  case (2 s l t)
  then show ?case by (rule au_inv_next)
next
  case 3
  show ?case by (simp add: au_start_def new_ok)
next
  case (4 s l t)
  then show ?case by (rule au_sim_next)
qed

context locked_u64
begin

lemmas au_runs = asim.sim_runs

end

interpretation plu: locked_u64 "adapted_mutex pair_mutex" "fst \<circ> wrapped" "snd \<circ> wrapped" True
  unfolding locked_u64_def by (rule adapted_contract [OF mutex_pair])

text \<open>
  C37: \<open>AtomicU64\<close> on the adapted mutex is linearizable.  For every interleaving of the operations of many
  threads, the operations in the order in which they make their last access, with the answers they
  return, are a run of the processor's atomic from the initial value to the stored one; an operation
  that panics on overflow has no effect.
\<close>

theorem au64_linearizable:
  assumes "mutex M content locked"
    and "exec (au_next ovf (adapted_mutex M)) (au_start (adapted_mutex M) v) ls = Some s"
  shows "exec native_next v (trace (au_next ovf (adapted_mutex M)) (au_event ovf (adapted_mutex M)) (au_start (adapted_mutex M) v) ls) =
    Some (content (wrapped (au_mutex s)))"
proof -
  have "locked_u64 (adapted_mutex M) (content \<circ> wrapped) (locked \<circ> wrapped)"
    unfolding locked_u64_def by (rule adapted_contract [OF assms(1)])
  from locked_u64.au_runs [OF this assms(2)] show ?thesis by simp
qed

theorem au64_linearizable_witness:
  "exec native_next 7 [(1, OFetchAdd 5, AValue 7), (0, OCompareExchange 7 1, AResult (Inl 12))] = Some 12"
proof -
  let ?M = "adapted_mutex pair_mutex :: ((u64 \<times> bool) adapted, u64) mutex_ops"
  let ?ls = "[AuCall 0 (OCompareExchange 7 1), AuCall 1 (OFetchAdd 5), AuMove 1, AuMove 1, AuMove 1, AuMove 1,
    AuMove 0, AuMove 0, AuMove 0, AuMove 0]"
  have "run_ok (au_next True ?M) (au_start ?M 7) ?ls (\<lambda>s. wrapped (au_mutex s) = (12, False))"
    by (simp add: run_ok_def au_start_def au_free_def adapted_defs pair_mutex_def checked_add_def)
  then obtain s where e: "exec (au_next True ?M) (au_start ?M 7) ?ls = Some s" and p: "wrapped (au_mutex s) = (12, False)"
    by (blast dest: run_ok_exec)
  have "trace (au_next True ?M) (au_event True ?M) (au_start ?M 7) ?ls =
      [(1, OFetchAdd 5, AValue 7), (0, OCompareExchange 7 1, AResult (Inl 12))]"
    by (simp add: au_start_def au_free_def adapted_defs pair_mutex_def checked_add_def)
  then show ?thesis using au64_linearizable [OF mutex_pair e] p by simp
qed

end
