(* ===== verification/LoomStd.thy ===== *)
theory LoomStd imports Atomics begin

text \<open>
  The run-time helpers of \<open>tokio_transplant/loom/std/mod.rs\<close>: the number of worker threads, read from
  the environment variable \<open>TOKIO_WORKER_THREADS\<close>, and the seeds of \<open>rand\<close>.  The parser of
  \<open>FromStr for usize\<close> belongs to the standard library and is written out; strings are bytes.
  The number of processors and the hasher are parameters.
\<close>

section \<open>Parsing an unsigned number\<close>

datatype parse_error = PeEmpty | PeInvalidDigit | PePosOverflow

definition to_digit :: "char \<Rightarrow> nat option" where
  "to_digit c = (let n = of_char c in if 48 \<le> n \<and> n \<le> 57 then Some (n - 48) else None)"

definition usize_checked_mul :: "usize \<Rightarrow> usize \<Rightarrow> usize option" where
  "usize_checked_mul a b = (if unat a * unat b < 2 ^ 64 then Some (a * b) else None)"

definition usize_checked_add :: "usize \<Rightarrow> usize \<Rightarrow> usize option" where
  "usize_checked_add a b = (if unat a + unat b < 2 ^ 64 then Some (a + b) else None)"

fun parse_digits :: "usize \<Rightarrow> string \<Rightarrow> parse_error + usize" where
  "parse_digits r [] = Inr r"
| "parse_digits r (c # cs) = (case to_digit c of
     None \<Rightarrow> Inl PeInvalidDigit
   | Some d \<Rightarrow> (case usize_checked_mul r 10 of
       None \<Rightarrow> Inl PePosOverflow
     | Some m \<Rightarrow> (case usize_checked_add m (of_nat d) of
         None \<Rightarrow> Inl PePosOverflow
       | Some r' \<Rightarrow> parse_digits r' cs)))"

definition parse_usize :: "string \<Rightarrow> parse_error + usize" where
  "parse_usize s =
     (if s = [] then Inl PeEmpty
      else if s = ''+'' \<or> s = ''-'' then Inl PeInvalidDigit
      else if hd s = CHR ''+'' then parse_digits 0 (tl s)
      else parse_digits 0 s)"

section \<open>The operations\<close>

datatype env_var = VarOk string | VarNotPresent | VarNotUnicode

text \<open>\<open>num_cpus\<close>: the first argument is the feature \<open>rt-multi-thread\<close>, the second \<open>num_cpus::get()\<close>.\<close>

definition num_cpus :: "bool \<Rightarrow> usize \<Rightarrow> env_var \<Rightarrow> panic + usize" where
  "num_cpus rt_multi_thread cpus var =
     (if \<not> rt_multi_thread then Inr 1
      else case var of
        VarOk s \<Rightarrow> (case parse_usize s of
            Inl e \<Rightarrow> Inl ExplicitPanic
          | Inr n \<Rightarrow> if n > 0 then Inr n else Inl AssertFailed)
      | VarNotPresent \<Rightarrow> Inr (max 1 cpus)
      | VarNotUnicode \<Rightarrow> Inl ExplicitPanic)"

text \<open>\<open>seed\<close>: \<open>H\<close> hashes with the keys of a fresh \<open>RandomState\<close>; the state is the static \<open>COUNTER\<close>.\<close>

definition counter_init :: "32 word" where
  "counter_init = 1"

definition seed :: "('s \<Rightarrow> 32 word \<Rightarrow> u64) \<Rightarrow> 's \<Rightarrow> 32 word \<Rightarrow> u64 \<times> 32 word" where
  "seed H rand_state counter = (case fetch_add 1 counter of (n, c) \<Rightarrow> (H rand_state n, c))"

section \<open>Decimal numerals\<close>

definition dec_step :: "nat \<Rightarrow> char \<Rightarrow> nat" where
  "dec_step a c = 10 * a + (of_char c - 48)"

definition dec_value :: "string \<Rightarrow> nat" where
  "dec_value s = foldl dec_step 0 s"

definition is_digit :: "char \<Rightarrow> bool" where
  "is_digit c \<longleftrightarrow> to_digit c \<noteq> None"

fun dec_str :: "nat \<Rightarrow> string" where
  "dec_str n = (if n < 10 then [char_of (48 + n)] else dec_str (n div 10) @ [char_of (48 + n mod 10)])"

declare dec_str.simps [simp del]

lemma to_digit_SomeD: "to_digit c = Some d \<Longrightarrow> d = of_char c - 48 \<and> d < 10"
  by (auto simp: to_digit_def Let_def split: if_splits)

lemma dec_step_ge: "a \<le> foldl dec_step a cs"
proof (induction cs arbitrary: a)
  case (Cons c cs)
  have "a \<le> dec_step a c" by (simp add: dec_step_def)
  also have "\<dots> \<le> foldl dec_step (dec_step a c) cs" by (rule Cons.IH)
  finally show ?case by simp
qed simp

lemma checked_digit:
  assumes "to_digit c = Some d"
  shows "(case usize_checked_mul r 10 of None \<Rightarrow> None | Some m \<Rightarrow> usize_checked_add m (of_nat d)) =
    (if dec_step (unat r) c < 2 ^ 64 then Some (of_nat (dec_step (unat r) c)) else None)"
proof -
  have d: "d = of_char c - 48" "d < 10" using to_digit_SomeD [OF assms] by auto
  have ud: "unat (of_nat d :: usize) = d" using d(2) by (simp add: unat_of_nat)
  have um: "unat (r * 10) = unat r * 10" if "unat r * 10 < 2 ^ 64"
    using that by (simp add: unat_word_ariths)
  have e: "dec_step (unat r) c = unat r * 10 + d" by (simp add: dec_step_def d(1))
  show ?thesis
    using um ud by (auto simp: e usize_checked_mul_def usize_checked_add_def)
qed

lemma parse_digits_iff:
  "parse_digits r s = Inr n \<longleftrightarrow> list_all is_digit s \<and> foldl dec_step (unat r) s = unat n"
proof (induction s arbitrary: r)
  case Nil
  then show ?case by (auto simp: word_unat_eq_iff)
next
  case (Cons c cs)
  show ?case
  proof (cases "to_digit c")
    case None
    then show ?thesis by (simp add: is_digit_def)
  next
    case (Some d)
    let ?v = "dec_step (unat r) c"
    note cd = checked_digit [OF Some, of r]
    have dig: "is_digit c" using Some by (simp add: is_digit_def)
    show ?thesis
    proof (cases "?v < 2 ^ 64")
      case True
      then obtain m where "usize_checked_mul r 10 = Some m" "usize_checked_add m (of_nat d) = Some (of_nat ?v)"
        using cd by (auto split: option.splits)
      moreover have "unat (of_nat ?v :: usize) = ?v" using True by (simp add: unat_of_nat)
      ultimately show ?thesis using Some dig Cons.IH [of "of_nat ?v"] by simp
    next
      case False
      have "?v \<le> foldl dec_step ?v cs" by (rule dec_step_ge)
      moreover have "unat n < 2 ^ 64" using unsigned_less [of n, where 'a = nat] by simp
      ultimately have "foldl dec_step ?v cs \<noteq> unat n" using False by simp
      moreover have "parse_digits r (c # cs) = Inl PePosOverflow"
        using cd False Some by (auto split: option.splits)
      ultimately show ?thesis by simp
    qed
  qed
qed

lemma dec_str_digits: "list_all is_digit (dec_str n)"
proof (induction n rule: dec_str.induct)
  case (1 n)
  have "is_digit (char_of (48 + k))" if "k < 10" for k :: nat
    using that by (simp add: is_digit_def to_digit_def)
  with 1 show ?case by (cases "n < 10") (subst dec_str.simps; simp)+
qed

lemma dec_str_value: "dec_value (dec_str n) = n"
proof (induction n rule: dec_str.induct)
  case (1 n)
  have "dec_step a (char_of (48 + k)) = 10 * a + k" if "k < 10" for a k :: nat
    using that by (simp add: dec_step_def)
  with 1 show ?case by (cases "n < 10") (subst dec_str.simps; simp add: dec_value_def)+
qed

lemma dec_str_nonempty: "dec_str n \<noteq> []"
  by (subst dec_str.simps) simp

lemma digit_not_sign: "is_digit c \<Longrightarrow> c \<noteq> CHR ''+'' \<and> c \<noteq> CHR ''-''"
  by (auto simp: is_digit_def to_digit_def)

definition strip_plus :: "string \<Rightarrow> string" where
  "strip_plus s = (if s \<noteq> [] \<and> hd s = CHR ''+'' then tl s else s)"

lemma parse_usize_iff:
  "parse_usize s = Inr n \<longleftrightarrow>
     strip_plus s \<noteq> [] \<and> list_all is_digit (strip_plus s) \<and> dec_value (strip_plus s) = unat n"
proof (cases s)
  case (Cons c cs)
  have "\<not> is_digit (CHR ''-'')" using digit_not_sign by blast
  then show ?thesis
    using Cons by (auto simp: parse_usize_def strip_plus_def parse_digits_iff dec_value_def simp del: parse_digits.simps)
qed (simp add: parse_usize_def strip_plus_def)

lemma strip_plus_dec_str: "strip_plus (dec_str n) = dec_str n"
proof (cases "dec_str n")
  case (Cons c cs)
  then have "is_digit c" using dec_str_digits [of n] by simp
  then show ?thesis using digit_not_sign Cons by (simp add: strip_plus_def)
qed (simp add: strip_plus_def)

lemma parse_dec_str:
  "parse_usize (dec_str n) = Inr m \<longleftrightarrow> n = unat m"
  by (simp add: parse_usize_iff strip_plus_dec_str dec_str_nonempty dec_str_digits dec_str_value)

text \<open>
  Which settings of the variable are accepted, and the number of threads is never zero: exactly
  the decimal numerals, with an optional plus sign and leading zeros, of a positive number of 64 bits.
\<close>

theorem num_cpus_accepts:
  "num_cpus True cpus (VarOk s) = Inr n \<longleftrightarrow>
     strip_plus s \<noteq> [] \<and> list_all is_digit (strip_plus s) \<and> dec_value (strip_plus s) = unat n \<and> 0 < n"
  unfolding num_cpus_def using parse_usize_iff [of s n] by (cases "parse_usize s") auto

text \<open>
  C39: with the feature \<open>rt-multi-thread\<close>, setting the variable to the decimal numeral of a number gives
  that number of threads, unless it is zero, which fails the assertion, or does not fit 64 bits, which
  panics.  Without the feature, which is how this crate builds (its \<open>Cargo.toml\<close> declares no such feature),
  the variable is not read and the answer is 1.
\<close>

theorem num_cpus_roundtrip:
  "num_cpus rt_multi_thread cpus (VarOk (dec_str n)) =
     (if \<not> rt_multi_thread then Inr 1
      else if n = 0 then Inl AssertFailed else if n < 2 ^ 64 then Inr (of_nat n) else Inl ExplicitPanic)"
proof (cases "n < 2 ^ 64")
  case True
  then have u: "unat (of_nat n :: usize) = n" by (simp add: unat_of_nat)
  then have "parse_usize (dec_str n) = Inr (of_nat n)" by (simp add: parse_dec_str)
  moreover have "(of_nat n :: usize) > 0 \<longleftrightarrow> n \<noteq> 0" using u by (simp add: word_greater_zero_iff word_unat_eq_iff)
  ultimately show ?thesis using True by (simp add: num_cpus_def)
next
  case False
  have "unat m < 2 ^ 64" for m :: usize using unsigned_less [of m, where 'a = nat] by simp
  then have "parse_usize (dec_str n) \<noteq> Inr m" for m
    using False by (metis parse_dec_str)
  then obtain e where "parse_usize (dec_str n) = Inl e" by (cases "parse_usize (dec_str n)") auto
  then show ?thesis using False by (auto simp: num_cpus_def)
qed

section \<open>Seeds\<close>

text \<open>The inputs that successive calls hash differ, until the counter wraps after 2 ^ 32 calls.\<close>

lemma seed_counter:
  "((\<lambda>c. snd (seed H k c)) ^^ i) counter_init = of_nat (Suc i)"
  by (induction i) (simp_all add: counter_init_def seed_def fetch_add_def)

end
