(* ===== verification/Spec2Isabelle.thy ===== *)
theory Spec2Isabelle
  imports KvClose MkProgress PriorityRefine LinkQueueProofs NoOrderQueue LightSync TimeoutParker
    Futures AtomicU64Lock LoomStd
begin

text \<open>
  This library models the crate \<open>pa_queue_and_chan\<close> (under \<open>src/rust/pa_queue_and_chan\<close>): queues and
  channels for many producers and one consumer, with the waker, parker, future combinators and
  atomics they were built with.  (\<open>lib.rs\<close> enables the priority channel and \<open>tokio_transplant\<close>; the other
  queues and channels are files of the crate whose module declaration is commented out or missing.)

  \<^bold>\<open>How the code is modelled.\<close>  Every concurrent component is a state (a \<open>record\<close>) and an executable
  step function from a state and a label to the next state, or \<^term>\<open>None\<close> when that step is blocked.
  A thread inside an operation stands at a program point (a \<open>datatype\<close> with one constructor for each
  access to shared memory), and a step performs one such access, so that a list of labels is an
  interleaving; \<^const>\<open>exec\<close> runs it and \<^const>\<open>reaches\<close> is reachability (theory \<open>Prelude\<close>, with the
  locales \<open>lts_invariant\<close> and \<open>lts_stable\<close> for invariants and stable predicates).  Panics are values of
  the type \<open>panic\<close>.  The semantics is sequentially consistent: the orderings \<open>Relaxed\<close>, \<open>Acquire\<close> and
  \<open>Release\<close> of the code are not modelled.  Record fields that the code does not have are history:
  they record what was sent or delivered, and no step reads them.

  \<^bold>\<open>What is a parameter.\<close>  \<open>crossbeam::queue::SegQueue\<close>, \<open>event_listener::Event\<close> (theory \<open>Interfaces\<close>),
  \<open>OnceCell\<close> (theory \<open>LoomAtomics\<close>) and \<open>parking_lot\<close> (theory \<open>ParkingLot\<close>) are not part of the repository.  Their
  operations are arguments of the model, their documented contracts the locales \<open>seg_queue\<close>, \<open>event\<close>,
  \<open>once_cell\<close> and \<open>mutex\<close>, and each property
  that needs one names it as a hypothesis; the witnesses run the model on list instances.  Wakers and
  the futures that are combined are supplied by the user of the crate, and are parameters too.

  \<^bold>\<open>The parts.\<close>

  \<^item> \<open>Atomics\<close>, \<open>BTreeMaps\<close>: the read-modify-write operations of \<open>std::sync::atomic\<close>, and \<open>BTreeMap\<close> as a
    sorted association list.
  \<^item> \<open>AtomicWaker\<close> (\<open>tokio_transplant/atomic_waker.rs\<close>): \<open>do_register\<close>, \<open>wake\<close> and \<open>take_waker\<close> as steps on
    the state word and the waker cell.  The cell is never accessed by two threads, the assertions
    hold, no wake-up is lost and every call ends after boundedly many of its own steps.
  \<^item> \<open>PriorityQueue\<close>, \<open>PriorityChan\<close>, \<open>PriorityChanProofs\<close>, \<open>PriorityProgress\<close>, \<open>PriorityRefine\<close>
    (\<open>priotity_async_mpsc_chan.rs\<close>): the sequential
    queue sorts and refines a multiset-of-lists specification; the channel composes it with the
    read-write lock, the handle count and the waker above.  Handles and threads are separate: any thread may
    call \<open>send_sync\<close> through any \<open>Sender\<close>, several at once through the same one (\<open>Sender\<close> is \<open>Sync\<close> and the method
    takes \<open>&self\<close>); the field \<open>loans\<close> of \<^typ>\<open>('a, 'b, 'c) psys\<close> has the references lent to the calls under way, and a
    handle is dropped only when none is left.  Values are conserved up to the overwritten
    queues, first-in first-out in each priority, a sleeping receiver is woken by a send, and \<open>recv\<close> takes
    the oldest value of the smallest priority within as many steps as there are priorities.  \<open>PriorityRefine\<close>
    states the channel abstractly (one list of values, the calls under way, and the priorities queued when
    a poll began) and proves that every interleaving implements it: each call takes effect once before it
    returns, a poll serves the smallest priority it found, and queued values are lost only to a send during
    whose call the send of another thread put a value of the same priority.  Three runs show a lost value
    (two threads that share one \<open>Sender\<close>), an unnoticed close and values dropped at the end.
  \<^item> \<open>Simulation\<close>: the proof rules for refinement (locale \<open>forward_simulation\<close>: the events of every run are a run of an
    abstract system; \<open>simulation\<close> is its case with an abstraction function), for progress of one thread (locale
    \<open>progress\<close>: a rank), and for a part of the system whose steps end in every interleaving with the rest
    (locale \<open>terminating\<close>: a rank that its steps decrease and the others keep).
  \<^item> \<open>KvMpsc\<close>, \<open>KvMpscProofs\<close>, \<open>KvSpec\<close>, \<open>KvProgress\<close>, \<open>KvClose\<close> (\<open>kv_mpsc.rs\<close>): the channel with one key for each message: a
    key belongs to at most one live message, messages of a key are delivered in order, a sleeping
    receiver has nothing to do, no operation panics.  \<open>KvSpec\<close> states the channel abstractly (a queue for each
    key, a set of busy keys) and proves that every interleaving implements it; \<open>KvProgress\<close> bounds the
    steps of a \<open>recv\<close> that has something to deliver.  \<open>KvClose\<close>: a sleeping receiver delivers too; after
    the last sender was dropped nothing is lost, and the consumer that calls \<open>recv\<close> and drops the message, the
    \<open>notify\<close> of the drop included, in a loop (\<^const>\<open>kv_consume_next\<close>) ends at \<open>Closed\<close> in every interleaving, within
    a stated number of its steps and without ever standing in \<open>wait\<close>.
  \<^item> \<open>ConflictManager\<close>, \<open>ConflictProofs\<close>, \<open>KvMultik\<close>, \<open>KvMultikProofs\<close>, \<open>MkSpec\<close>, \<open>SingleKey\<close>,
    \<open>MkProgress\<close> (\<open>kv_mpsc_multik.rs\<close>): the channel with
    several keys for each message.  The reference-counted key states and waiting messages are a heap
    of cells; weak references that no longer upgrade are addresses without a cell.  Each \<open>HashMap\<close> of a key
    state is iterated in an order of its own, an arbitrary function of the address of the key state and the
    entries.  The same
    guarantees for runs that do not panic and messages without repeated keys.  A message delivered by the
    release of one key stays behind as a dead reference under its other keys (\<^const>\<open>dead_ref\<close>), and the
    release of such a key cannot end normally; a run shows the panic, another the one of a repeated key;
    with one key for each message nothing panics.  \<open>MkSpec\<close> proves that
    the runs without panic implement a bag of messages and a bag of busy keys, \<open>MkProgress\<close> that \<open>recv\<close> with
    single keys delivers.
  \<^item> \<open>LinkQueue\<close>, \<open>LinkQueueProofs\<close> (\<open>lockfree_link_queue.rs\<close>): nodes in a heap of addresses that the allocator
    may reuse, an access to a freed node is a fault.  If \<open>pop\<close> only frees nodes whose successor is
    linked (\<^const>\<open>keeps_last\<close>) the queue is first-in first-out, free of faults, its counter is exact when
    quiet, and \<open>pop\<close> returns.  The code does not keep to that discipline: emptying the queue breaks
    it, and dropping it frees nothing.
  \<^item> \<open>NoOrderQueue\<close> (\<open>mpsc_no_order_queue.rs\<close>): one queue for each thread; per-thread order, nothing lost, and a
    single consumer finds a value that is there.
  \<^item> \<open>LightSync\<close> (\<open>lightsync.rs\<close>): an inductive step relation, since parking may end spuriously, with an
    executable enumeration of the same steps (\<open>ls_next_sound\<close>, \<open>ls_next_complete\<close>).  With one waiting
    thread nothing panics, each \<open>wait\<close> returns for one \<open>notify\<close>, and no notification of a waiting thread is
    lost.
  \<^item> \<open>TimeoutParker\<close> (\<open>timeout_parker.rs\<close>): the state word, the mutex and the condition variable.  The
    inconsistent states are unreachable, a sleeping parker that was notified is about to be woken, a
    pending notification prevents sleeping, and a parking call returns.
  \<^item> \<open>Futures\<close> (\<open>tokio_transplant/future\<close>): \<open>MaybeDone\<close>, \<open>PollFn\<close> and \<open>TryJoin3\<close> over arbitrary futures that keep
    the contract of the trait (locale \<open>future\<close>); the combinators keep it too, and \<open>try_join3\<close> returns the
    first error in time and order, or the three values.
  \<^item> \<open>LoomAtomics\<close> (\<open>tokio_transplant/loom/std\<close>): \<open>AtomicU64\<close> as a mutex agrees with the processor's atomic on
    every sequence of operations but for overflow checks, and the lazily initialised static refines it.
  \<^item> \<open>ParkingLot\<close> (\<open>tokio_transplant/loom/std/parking_lot.rs\<close>): the adapters over the locks of \<open>parking_lot\<close>, which are a
    parameter with the contract \<open>mutex\<close>; the adapted mutex keeps it.  \<open>AtomicU64Lock\<close> composes the two: the
    operations of \<open>AtomicU64\<close> as steps of many threads on that mutex are linearizable.
  \<^item> \<open>LoomStd\<close> (\<open>tokio_transplant/loom/std/mod.rs\<close>): \<open>num_cpus\<close> with the parser of the environment variable,
    for both settings of the feature \<open>rt-multi-thread\<close> (the crate declares no such feature, so that it
    builds the variant that answers 1), and the counter of \<open>seed\<close>.

  \<^bold>\<open>Bounds.\<close>  The model needs no fuel: the loops of the code are steps, so that a loop that spins is a
  run that goes on, and termination is stated as a rank that the steps of a call decrease.  Integers
  keep their width: the state words are 64-bit words, the counter of the link queue wraps at 32 bits,
  and the message ids of the multi-key channel overflow as the build decides.

  \<^bold>\<open>Handles.\<close>  In the keyed channels a thread sends through a handle of its own.  A \<open>Sender\<close> that threads share
  by reference is covered by giving each of them a clone that it drops when the loan ends: there a clone
  changes only the handle count, and the drop of a clone that is not the last one does nothing else.

  \<^bold>\<open>Not modelled.\<close>  Memory orderings weaker than sequential consistency; time (a timeout may happen at
  any moment); the implementation of the parameters; pinning and \<open>Send\<close>/\<open>Sync\<close>; the
  small atomics and cells, which pass every call on; \<open>macro_cfg.rs\<close>, which attaches
  configuration attributes; \<open>block_on.rs\<close> and \<open>trace.rs\<close>, which call modules that are not in the repository;
  the unit tests and benchmarks.
\<close>

end
